(* ===== verification/Prelude.thy ===== *)
theory Prelude
  imports Main "HOL-Library.Word" "HOL-Library.Signed_Division"
begin

unbundle bit_operations_syntax

text \<open>
  The common ground of the development: the names of the kernel's machine types, the error
  numbers of include/errno.h, and the generic lemmas on lists, words and updated functions
  that the component theories share.

  A C \<open>unsigned long\<close> or bit mask is a 32-bit word and its operations wrap around. A C
  \<open>int\<close> or \<open>long\<close> whose value cannot leave its range is an \<open>int\<close>. A pointer
  is its address, a natural number, and the null pointer is 0.
\<close>

type_synonym u8 = "8 word"
type_synonym u16 = "16 word"
type_synonym u32 = "32 word"
type_synonym ptr = nat

abbreviation (input) NULL :: ptr where "NULL \<equiv> 0"

section \<open>Error numbers\<close>

abbreviation (input) EPERM :: int where "EPERM \<equiv> 1"
abbreviation (input) ENOENT :: int where "ENOENT \<equiv> 2"
abbreviation (input) ESRCH :: int where "ESRCH \<equiv> 3"
abbreviation (input) EINTR :: int where "EINTR \<equiv> 4"
abbreviation (input) EIO :: int where "EIO \<equiv> 5"
abbreviation (input) EBADF :: int where "EBADF \<equiv> 9"
abbreviation (input) ECHILD :: int where "ECHILD \<equiv> 10"
abbreviation (input) EAGAIN :: int where "EAGAIN \<equiv> 11"
abbreviation (input) ENOMEM :: int where "ENOMEM \<equiv> 12"
abbreviation (input) EACCES :: int where "EACCES \<equiv> 13"
abbreviation (input) EBUSY :: int where "EBUSY \<equiv> 16"
abbreviation (input) EEXIST :: int where "EEXIST \<equiv> 17"
abbreviation (input) ENODEV :: int where "ENODEV \<equiv> 19"
abbreviation (input) EINVAL :: int where "EINVAL \<equiv> 22"
abbreviation (input) EMFILE :: int where "EMFILE \<equiv> 24"
abbreviation (input) ENOTTY :: int where "ENOTTY \<equiv> 25"
abbreviation (input) ENOSPC :: int where "ENOSPC \<equiv> 28"
abbreviation (input) ESPIPE :: int where "ESPIPE \<equiv> 29"
abbreviation (input) ENOSYS :: int where "ENOSYS \<equiv> 38"
abbreviation (input) ERESTARTSYS :: int where "ERESTARTSYS \<equiv> 512"
abbreviation (input) ERESTARTNOINTR :: int where "ERESTARTNOINTR \<equiv> 513"

section \<open>Results\<close>

text \<open>
  What a kernel function does: return a value with the new state, end the current task through
  \<open>do_exit\<close> (which does not return), or stop the machine through \<open>panic\<close>.
\<close>

datatype ('r, 's) outcome = Ret 'r 's | DoExit int 's | Panic 's

abbreviation (input) SIGSEGV :: int where "SIGSEGV \<equiv> 11"

definition and_then :: "('r, 's) outcome \<Rightarrow> ('r \<Rightarrow> 's \<Rightarrow> ('t, 's) outcome) \<Rightarrow> ('t, 's) outcome" where
  "and_then m f = (case m of Ret r s \<Rightarrow> f r s | DoExit c s \<Rightarrow> DoExit c s | Panic s \<Rightarrow> Panic s)"

lemma and_then_simps [simp]:
  "and_then (Ret r s) f = f r s" "and_then (DoExit c s) f = DoExit c s" "and_then (Panic s) f = Panic s"
  by (simp_all add: and_then_def)

section \<open>Generic lemmas\<close>

named_theorems kdefs \<open>definitions that evaluate by rewriting\<close>

lemma sdiv_nonneg [simp]: "0 \<le> a \<Longrightarrow> 0 < b \<Longrightarrow> a sdiv b = a div b" for a b :: int
  by (cases "a = 0") (auto simp: signed_divide_int_def sgn_if)

lemma smod_nonneg [simp]: "0 \<le> a \<Longrightarrow> 0 < b \<Longrightarrow> a smod b = a mod b" for a b :: int
  by (cases "a = 0") (auto simp: signed_modulo_int_def sgn_if)

lemma length_takeWhile_dropWhile:
  "length (takeWhile P xs) + length (dropWhile P xs) = length xs"
  by (metis length_append takeWhile_dropWhile_id)

lemma bit_31_iff: "0 \<le> k \<Longrightarrow> k < 2 ^ 32 \<Longrightarrow> bit k 31 \<longleftrightarrow> 2 ^ 31 \<le> k" for k :: int
proof (cases "k < 2 ^ 31")
  case False
  assume "0 \<le> k" "k < 2 ^ 32"
  with False have "(k - 2 ^ 31) div 2 ^ 31 = 0"
    by (intro div_pos_pos_trivial) simp_all
  then have "(k - 2 ^ 31 + 2 ^ 31) div 2 ^ 31 = 1"
    by (subst div_add_self2) simp_all
  with False show ?thesis
    by (simp add: bit_iff_odd)
qed (simp add: bit_iff_odd)

lemma uint_of_int32: "0 \<le> k \<Longrightarrow> k < 2 ^ 32 \<Longrightarrow> uint (of_int k :: u32) = k"
  by (simp add: unsigned_of_int take_bit_int_eq_self)

lemma uint32_bounds: "0 \<le> uint x" "uint x < 2 ^ 32" for x :: u32
  using uint_lt2p [of x] by simp_all

lemma unat32_bound: "unat x < 2 ^ 32" for x :: u32
  using unsigned_less [of x, where ?'a = nat] by simp

lemma sint_uint32: "sint x = (if uint x < 2 ^ 31 then uint x else uint x - 2 ^ 32)" for x :: u32
proof -
  have "sint x = signed_take_bit 31 (uint x)"
    by (simp add: sint_uint)
  also have "\<dots> = take_bit 32 (uint x) - 2 ^ 32 * of_bool (bit (uint x) 31)"
    by (simp add: signed_take_bit_eq_take_bit_minus)
  also have "take_bit 32 (uint x) = uint x"
    using uint32_bounds by (rule take_bit_int_eq_self)
  finally show ?thesis
    using bit_31_iff [OF uint32_bounds, of x] by simp
qed

lemma sint_nonneg_uint: "0 \<le> sint x \<Longrightarrow> sint x = uint x" for x :: u32
  using uint32_bounds [of x] by (simp add: sint_uint32 split: if_splits)

lemma unat_uminus_neg: "sint x < 0 \<Longrightarrow> unat (- x) = nat (- sint x)" for x :: u32
proof -
  assume neg: "sint x < 0"
  then have u: "sint x = uint x - 2 ^ 32" "uint x \<noteq> 0"
    using uint32_bounds [of x] by (auto simp: sint_uint32 split: if_splits)
  have "uint (- x) = (- uint x) mod 2 ^ 32"
    by (simp add: uint_word_ariths)
  also have "\<dots> = 2 ^ 32 - uint x"
    using u(2) uint32_bounds [of x] by (simp add: zmod_zminus1_eq_if)
  finally show ?thesis
    by (simp add: unat_eq_nat_uint u(1))
qed

section \<open>Chains\<close>

text \<open>\<open>linked N p xs\<close>: the chain through \<open>N\<close> from \<open>p\<close> runs through \<open>xs\<close> and ends.\<close>

fun linked :: "('a::zero \<Rightarrow> 'a) \<Rightarrow> 'a \<Rightarrow> 'a list \<Rightarrow> bool" where
  "linked N p [] \<longleftrightarrow> p = 0"
| "linked N p (x # xs) \<longleftrightarrow> p = x \<and> x \<noteq> 0 \<and> linked N (N x) xs"

lemma linked_upd: "r \<notin> set xs \<Longrightarrow> linked (N(r := v)) p xs = linked N p xs"
  by (induction xs arbitrary: p) auto

lemma linked_insert:
  assumes "linked N p (ys @ zs)" "ys \<noteq> []" "distinct (ys @ zs)" "r \<notin> set (ys @ zs)" "r \<noteq> 0"
  shows "linked (N(r := N (last ys), last ys := r)) p (ys @ r # zs)"
  using assms
proof (induction ys arbitrary: p)
  case (Cons y ys)
  show ?case
  proof (cases "ys = []")
    case True
    with Cons.prems show ?thesis
      by (simp add: linked_upd fun_upd_same fun_upd_other del: fun_upd_apply)
  next
    case False
    then have "last ys \<in> set ys"
      by simp
    with Cons.prems have "y \<noteq> last ys" "y \<noteq> r"
      by auto
    with False Cons show ?thesis
      by simp
  qed
qed simp

lemma linked_cong: "(\<And>x. x \<in> set xs \<Longrightarrow> N x = M x) \<Longrightarrow> linked N p xs = linked M p xs"
  by (induction xs arbitrary: p) auto

lemma linked_nonzero: "linked N p xs \<Longrightarrow> x \<in> set xs \<Longrightarrow> x \<noteq> 0"
  by (induction xs arbitrary: p) auto

lemma linked_split: "linked N p (ys @ x # zs) \<Longrightarrow> linked N x (x # zs)"
  by (induction ys arbitrary: p) auto

lemma linked_remove:
  assumes "linked N p (ys @ d # zs)" "distinct (ys @ d # zs)"
  shows "if ys = [] then linked N (N d) zs else linked (N(last ys := N d)) p (ys @ zs)"
  using assms
proof (induction ys arbitrary: p)
  case (Cons y ys)
  then show ?case
    by (cases "ys = []") (auto simp: linked_upd)
qed simp

section \<open>Allocators of counted objects\<close>

text \<open>
  The contract shared by the kernel's allocators (memory pages, swap pages, blocks, inodes, file
  descriptors): \<open>alloc\<close> hands out an object nobody refers to and counts one reference, and
  \<open>free\<close> takes one reference off an object in use.
\<close>

locale allocator =
  fixes alloc :: "'s \<Rightarrow> 'p \<times> 's"
    and free :: "'p \<Rightarrow> 's \<Rightarrow> 's"
    and nr :: "'p \<Rightarrow> nat"
    and refs :: "'s \<Rightarrow> nat \<Rightarrow> nat"
    and valid :: "'s \<Rightarrow> 'p \<Rightarrow> bool"
    and ready :: "'s \<Rightarrow> bool"
  assumes alloc_fresh: "\<lbrakk>ready s; alloc s = (p, s')\<rbrakk> \<Longrightarrow>
      valid s' p \<and> refs s (nr p) = 0 \<and> refs s' = (refs s)(nr p := 1)"
    and free_drops: "\<lbrakk>valid s p; 0 < refs s (nr p)\<rbrakk> \<Longrightarrow>
      refs (free p s) = (refs s)(nr p := refs s (nr p) - 1)"
begin

lemma alloc_then_free: "\<lbrakk>ready s; alloc s = (p, s')\<rbrakk> \<Longrightarrow> refs (free p s') = refs s"
  using alloc_fresh [of s p s'] free_drops [of s' p] by (auto simp: fun_eq_iff)

lemma alloc_distinct:
  "\<lbrakk>ready s; alloc s = (p, s'); ready s'; alloc s' = (q, s'')\<rbrakk> \<Longrightarrow> nr p \<noteq> nr q"
  using alloc_fresh [of s p s'] alloc_fresh [of s' q s''] by auto

lemma alloc_in_use:
  "\<lbrakk>ready s; alloc s = (p, s')\<rbrakk> \<Longrightarrow> {i. 0 < refs s' i} = insert (nr p) {i. 0 < refs s i}"
  using alloc_fresh [of s p s'] by auto

end

end
