(* ===== verification/Vsprintf.thy ===== *)
theory Vsprintf
  imports Prelude
begin

text \<open>
  kernel/vsprintf.c: the formatter behind every \<open>printk\<close>. A string is a list of
  characters without its final zero byte, and the functions return the text they append to the
  buffer. The variable argument list is a list of \<open>va\<close> values; reading past it, or reading
  a value of another type, is undefined in C and is \<open>None\<close> here.
\<close>

section \<open>The code\<close>

definition is_digit :: "char \<Rightarrow> bool" where
  "is_digit c \<longleftrightarrow> of_char c \<ge> (48 :: nat) \<and> of_char c \<le> (57 :: nat)"

definition digit_value :: "char \<Rightarrow> int" where
  "digit_value c = of_char c - 48"

text \<open>The loop of \<open>skip_atoi\<close>: the accumulated number and the rest of the string.\<close>

fun skip_atoi_loop :: "int \<Rightarrow> string \<Rightarrow> int \<times> string" where
  "skip_atoi_loop i [] = (i, [])"
| "skip_atoi_loop i (c # s) =
     (if is_digit c then skip_atoi_loop (i * 10 + digit_value c) s else (i, c # s))"

definition skip_atoi :: "string \<Rightarrow> int \<times> string" where
  "skip_atoi s = skip_atoi_loop 0 s"

definition ZEROPAD :: u32 where "ZEROPAD = 1"
definition SIGN :: u32 where "SIGN = 2"
definition PLUS :: u32 where "PLUS = 4"
definition SPACE :: u32 where "SPACE = 8"
definition LEFT :: u32 where "LEFT = 16"
definition SPECIAL :: u32 where "SPECIAL = 32"
definition SMALL :: u32 where "SMALL = 64"

definition digits_upper :: string where
  "digits_upper = ''0123456789ABCDEFGHIJKLMNOPQRSTUVWXYZ''"

definition digits_lower :: string where
  "digits_lower = ''0123456789abcdefghijklmnopqrstuvwxyz''"

text \<open>\<open>while (num!=0) tmp[i++]=digits[do_div(num,base)]\<close>, least digit first.\<close>

function digit_loop :: "string \<Rightarrow> nat \<Rightarrow> nat \<Rightarrow> string" where
  "digit_loop digits base num =
     (if num = 0 \<or> base < 2 then [] else digits ! (num mod base) # digit_loop digits base (num div base))"
  by pat_completeness auto
termination
  by (relation "measure (\<lambda>(ds, b, n). n)") auto

declare digit_loop.simps [simp del]

text \<open>\<open>while(size-->0) *str++ = c\<close>: the characters written and the value left in \<open>size\<close>.\<close>

definition pad_loop :: "int \<Rightarrow> char \<Rightarrow> string \<times> int" where
  "pad_loop fsize c = (replicate (nat fsize) c, if 0 < fsize then - 1 else fsize - 1)"

definition number :: "u32 \<Rightarrow> int \<Rightarrow> int \<Rightarrow> int \<Rightarrow> u32 \<Rightarrow> string option" where
  "number num base fsize precision type =
     (let digits = (if type AND SMALL \<noteq> 0 then digits_lower else digits_upper);
          type = (if type AND LEFT \<noteq> 0 then type AND NOT ZEROPAD else type)
      in if base < 2 \<or> base > 36 then None
      else let c = (if type AND ZEROPAD \<noteq> 0 then CHR ''0'' else CHR '' '');
               neg = (type AND SIGN \<noteq> 0 \<and> sint num < 0);
               sign = (if neg then ''-''
                       else if type AND PLUS \<noteq> 0 then ''+''
                       else if type AND SPACE \<noteq> 0 then '' '' else '''');
               num = (if neg then - num else num);
               fsize = (if sign \<noteq> '''' then fsize - 1 else fsize);
               fsize = (if type AND SPECIAL \<noteq> 0
                       then (if base = 16 then fsize - 2 else if base = 8 then fsize - 1 else fsize)
                       else fsize);
               tmp = (if num = 0 then ''0'' else digit_loop digits (nat base) (unat num));
               i = int (length tmp);
               precision = (if i > precision then i else precision);
               fsize = fsize - precision;
               (blanks, fsize) = (if type AND (ZEROPAD + LEFT) = 0 then pad_loop fsize (CHR '' '')
                                 else ('''', fsize));
               prefix = (if type AND SPECIAL \<noteq> 0
                         then (if base = 8 then ''0''
                               else if base = 16 then [CHR ''0'', digits ! 33] else '''')
                         else '''');
               (fill, fsize) = (if type AND LEFT = 0 then pad_loop fsize c else ('''', fsize));
               zeros = replicate (nat (precision - i)) (CHR ''0'');
               (trail, fsize) = pad_loop fsize (CHR '' '')
           in Some (blanks @ sign @ prefix @ fill @ zeros @ rev tmp @ trail))"

datatype va = VInt u32 | VStr string | VOut ptr

text \<open>The flags after a percent sign: \<open>switch (*fmt) ... goto repeat\<close>.\<close>

fun parse_flags :: "u32 \<Rightarrow> string \<Rightarrow> u32 \<times> string" where
  "parse_flags flags [] = (flags, [])"
| "parse_flags flags (c # s) =
     (if c = CHR ''-'' then parse_flags (flags OR LEFT) s
      else if c = CHR ''+'' then parse_flags (flags OR PLUS) s
      else if c = CHR '' '' then parse_flags (flags OR SPACE) s
      else if c = CHR ''#'' then parse_flags (flags OR SPECIAL) s
      else if c = CHR ''0'' then parse_flags (flags OR ZEROPAD) s
      else (flags, c # s))"

definition parse_width :: "u32 \<Rightarrow> string \<Rightarrow> va list \<Rightarrow> (u32 \<times> int \<times> string \<times> va list) option" where
  "parse_width flags fmt args =
     (case fmt of
        [] \<Rightarrow> Some (flags, - 1, fmt, args)
      | c # _ \<Rightarrow>
          if is_digit c then (case skip_atoi fmt of (w, rest) \<Rightarrow> Some (flags, w, rest, args))
          else if c = CHR ''*'' then
            (case args of
               VInt a # args' \<Rightarrow>
                 if sint a < 0 then Some (flags OR LEFT, - sint a, fmt, args')
                 else Some (flags, sint a, fmt, args')
             | _ \<Rightarrow> None)
          else Some (flags, - 1, fmt, args))"

definition parse_precision :: "string \<Rightarrow> va list \<Rightarrow> (int \<times> string \<times> va list) option" where
  "parse_precision fmt args =
     (case fmt of
        [] \<Rightarrow> Some (- 1, fmt, args)
      | c # fmt' \<Rightarrow>
          if c \<noteq> CHR ''.'' then Some (- 1, fmt, args)
          else if fmt' \<noteq> [] \<and> is_digit (hd fmt') then
            (case skip_atoi fmt' of (p, rest) \<Rightarrow> Some (if p < 0 then 0 else p, rest, args))
          else if fmt' \<noteq> [] \<and> hd fmt' = CHR ''*'' then
            (case args of
               VInt a # args' \<Rightarrow> Some (if sint a < 0 then 0 else sint a, fmt', args')
             | _ \<Rightarrow> None)
          else Some (0, fmt', args))"

definition skip_qualifier :: "string \<Rightarrow> string" where
  "skip_qualifier fmt =
     (case fmt of
        [] \<Rightarrow> fmt
      | c # fmt' \<Rightarrow> if c = CHR ''h'' \<or> c = CHR ''l'' \<or> c = CHR ''L'' then fmt' else fmt)"

text \<open>
  The conversion \<open>switch\<close>: the text appended, what \<open>%n\<close> stores, the arguments left and the
  format after the conversion character. \<open>len\<close> is \<open>str - buf\<close>.
\<close>

definition convert ::
  "nat \<Rightarrow> u32 \<Rightarrow> int \<Rightarrow> int \<Rightarrow> string \<Rightarrow> va list
   \<Rightarrow> (string \<times> (ptr \<times> int) list \<times> string \<times> va list) option" where
  "convert len flags width precision fmt args =
     (case fmt of
        [] \<Rightarrow> Some (''%'', [], [], args)
      | c # fmt' \<Rightarrow>
        if c = CHR ''c'' then
          (case args of
             VInt a # args' \<Rightarrow>
               let blanks = replicate (nat (width - 1)) (CHR '' '')
               in Some (if flags AND LEFT = 0 then blanks @ [char_of (unat a)]
                        else [char_of (unat a)] @ blanks, [], fmt', args')
           | _ \<Rightarrow> None)
        else if c = CHR ''s'' then
          (case args of
             VStr s # args' \<Rightarrow>
               let n = int (length s);
                   n = (if precision < 0 then n else if n > precision then precision else n);
                   blanks = replicate (nat (width - n)) (CHR '' '');
                   text = take (nat n) s
               in Some (if flags AND LEFT = 0 then blanks @ text else text @ blanks, [], fmt', args')
           | _ \<Rightarrow> None)
        else if c = CHR ''n'' then
          (case args of
             VOut p # args' \<Rightarrow> Some ('''', [(p, int len)], fmt', args')
           | _ \<Rightarrow> None)
        else if c \<in> {CHR ''o'', CHR ''p'', CHR ''x'', CHR ''X'', CHR ''d'', CHR ''i'', CHR ''u''} then
          (case args of
             VInt a # args' \<Rightarrow>
               let base = (if c = CHR ''o'' then 8
                           else if c \<in> {CHR ''p'', CHR ''x'', CHR ''X''} then 16 else 10);
                   flags = (if c = CHR ''p'' \<and> width = - 1 then flags OR ZEROPAD
                            else if c = CHR ''x'' then flags OR SMALL
                            else if c \<in> {CHR ''d'', CHR ''i''} then flags OR SIGN else flags);
                   width = (if c = CHR ''p'' \<and> width = - 1 then 8 else width)
               in map_option (\<lambda>t. (t, [], fmt', args')) (number a base width precision flags)
           | _ \<Rightarrow> None)
        else Some ((if c \<noteq> CHR ''%'' then ''%'' else '''') @ [c], [], fmt', args))"

lemma skip_atoi_loop_length: "length (snd (skip_atoi_loop i s)) \<le> length s"
  by (induction i s rule: skip_atoi_loop.induct) auto

lemma parse_flags_length: "length (snd (parse_flags f s)) \<le> length s"
  by (induction f s rule: parse_flags.induct) auto

lemma parse_width_length: "parse_width f s a = Some (f', w, s', a') \<Longrightarrow> length s' \<le> length s"
  using skip_atoi_loop_length [of 0 s]
  by (auto simp: parse_width_def skip_atoi_def split: list.splits if_splits va.splits prod.splits)

lemma parse_precision_length: "parse_precision s a = Some (p, s', a') \<Longrightarrow> length s' \<le> length s"
  using skip_atoi_loop_length [of 0 "tl s"]
  by (auto simp: parse_precision_def skip_atoi_def split: list.splits if_splits va.splits prod.splits)

lemma skip_qualifier_length: "length (skip_qualifier s) \<le> length s"
  by (auto simp: skip_qualifier_def split: list.splits)

lemma convert_length: "convert n f w p s a = Some (t, out, s', a') \<Longrightarrow> length s' \<le> length s"
  by (auto simp: convert_def Let_def split: list.splits if_splits va.splits)

lemma conversion_length:
  assumes "(f, s1) = parse_flags 0 s" "parse_width f s1 a = Some (f', w, s2, a2)"
    "parse_precision s2 a2 = Some (p, s3, a3)"
    "convert n f' w p (skip_qualifier s3) a3 = Some (t, out, s4, a4)"
  shows "length s4 < Suc (length s)"
  using parse_flags_length [of 0 s] parse_width_length [OF assms(2)]
    parse_precision_length [OF assms(3)] skip_qualifier_length [of s3]
    convert_length [OF assms(4)]
  by (simp flip: assms(1))

text \<open>
  The main loop, from the state \<open>str - buf = len\<close>: the text it appends and the stores of its
  \<open>%n\<close> conversions.
\<close>

function vsprintf_loop :: "nat \<Rightarrow> string \<Rightarrow> va list \<Rightarrow> (string \<times> (ptr \<times> int) list) option" where
  "vsprintf_loop len [] args = Some ('''', [])"
| "vsprintf_loop len (c # s) args =
     (if c \<noteq> CHR ''%'' then
        map_option (\<lambda>(t, out). (c # t, out)) (vsprintf_loop (Suc len) s args)
      else
        (case parse_flags 0 s of (flags, s1) \<Rightarrow>
         case parse_width flags s1 args of None \<Rightarrow> None | Some (flags, width, s2, args2) \<Rightarrow>
         case parse_precision s2 args2 of None \<Rightarrow> None | Some (precision, s3, args3) \<Rightarrow>
         case convert len flags width precision (skip_qualifier s3) args3 of
           None \<Rightarrow> None
         | Some (text, out, s4, args4) \<Rightarrow>
             map_option (\<lambda>(t, out'). (text @ t, out @ out'))
               (vsprintf_loop (len + length text) s4 args4)))"
  by pat_completeness auto
termination
  by (relation "measure (\<lambda>(len, s, args). length s)") (auto intro: conversion_length)

definition vsprintf :: "string \<Rightarrow> va list \<Rightarrow> (string \<times> (ptr \<times> int) list \<times> int) option" where
  "vsprintf fmt args = map_option (\<lambda>(t, out). (t, out, int (length t))) (vsprintf_loop 0 fmt args)"

section \<open>Digits and padding\<close>






lemma fst_pad_loop [simp]: "fst (pad_loop n c) = replicate (nat n) c"
  by (simp add: pad_loop_def)

lemma nat_snd_pad_loop [simp]: "nat (snd (pad_loop n c)) = 0"
  by (simp add: pad_loop_def)

lemmas flag_defs = ZEROPAD_def SIGN_def PLUS_def SPACE_def LEFT_def SPECIAL_def SMALL_def

text \<open>What \<open>number\<close> prints before and between the digits.\<close>

definition sign_text :: "u32 \<Rightarrow> u32 \<Rightarrow> string" where
  "sign_text num type =
     (if type AND SIGN \<noteq> 0 \<and> sint num < 0 then ''-''
      else if type AND PLUS \<noteq> 0 then ''+'' else if type AND SPACE \<noteq> 0 then '' '' else '''')"

definition prefix_length :: "int \<Rightarrow> u32 \<Rightarrow> nat" where
  "prefix_length base type =
     (if type AND SPECIAL = 0 then 0 else if base = 16 then 2 else if base = 8 then 1 else 0)"

definition magnitude :: "u32 \<Rightarrow> u32 \<Rightarrow> nat" where
  "magnitude num type = nat (if type AND SIGN \<noteq> 0 then \<bar>sint num\<bar> else uint num)"

definition digit_count :: "int \<Rightarrow> nat \<Rightarrow> nat" where
  "digit_count base n = max 1 (length (digit_loop digits_upper (nat base) n))"

lemma length_digit_loop: "length (digit_loop ds b n) = length (digit_loop ds' b n)"
proof (induction n rule: less_induct)
  case (less n)
  then show ?case
    by (cases "n = 0 \<or> b < 2")
      (simp_all add: digit_loop.simps [of ds b n] digit_loop.simps [of ds' b n])
qed

lemma magnitude_unat:
  "unat (if type AND SIGN \<noteq> 0 \<and> sint num < 0 then - num else num) = magnitude num type"
proof (cases "type AND SIGN \<noteq> 0 \<and> sint num < 0")
  case True
  then show ?thesis
    by (simp add: magnitude_def unat_uminus_neg)
next
  case False
  then have "(if type AND SIGN \<noteq> 0 then \<bar>sint num\<bar> else uint num) = uint num"
    by (auto simp: sint_nonneg_uint)
  with False show ?thesis
    by (simp only: magnitude_def if_False unat_eq_nat_uint)
qed

definition number_prefix :: "int \<Rightarrow> u32 \<Rightarrow> string" where
  "number_prefix base type =
     (if type AND SPECIAL = 0 then ''''
      else if base = 8 then ''0''
      else if base = 16 then [CHR ''0'', if type AND SMALL \<noteq> 0 then CHR ''x'' else CHR ''X''] else '''')"

lemma length_number_prefix [simp]: "length (number_prefix base type) = prefix_length base type"
  by (simp add: number_prefix_def prefix_length_def)

lemma length_sign_text: "length (sign_text num type) = (if sign_text num type \<noteq> '''' then 1 else 0)"
  by (simp add: sign_text_def)

definition number_digits :: "u32 \<Rightarrow> int \<Rightarrow> u32 \<Rightarrow> string" where
  "number_digits num base type =
     (if magnitude num type = 0 then ''0''
      else rev (digit_loop (if type AND SMALL \<noteq> 0 then digits_lower else digits_upper)
                  (nat base) (magnitude num type)))"

lemma length_number_digits:
  "2 \<le> base \<Longrightarrow> length (number_digits num base type) = digit_count base (magnitude num type)"
  using length_digit_loop [of digits_lower "nat base" "magnitude num type" digits_upper]
  by (auto simp: number_digits_def digit_count_def digit_loop.simps [of _ _ "magnitude num type"]
      digit_loop.simps [of _ _ 0] max_def)

text \<open>
  The text has one layout for every input: blanks, sign, prefix, fill, precision zeros, digits,
  blanks, and its length is the field width or, where that is too small, the natural length.
\<close>

lemma zeropad_clear:
  "(x AND NOT ZEROPAD) AND LEFT = x AND LEFT" "(x AND NOT ZEROPAD) AND SPECIAL = x AND SPECIAL"
  "(x AND NOT ZEROPAD) AND SIGN = x AND SIGN" "(x AND NOT ZEROPAD) AND PLUS = x AND PLUS"
  "(x AND NOT ZEROPAD) AND SPACE = x AND SPACE" "(x AND NOT ZEROPAD) AND ZEROPAD = 0"
  by (simp_all add: flag_defs and.assoc)

lemma zeropad_left_iff: "x AND (ZEROPAD + LEFT) = 0 \<longleftrightarrow> x AND ZEROPAD = 0 \<and> x AND LEFT = 0"
proof -
  have "ZEROPAD + LEFT = ZEROPAD OR LEFT"
    by (simp add: flag_defs)
  then show ?thesis
    by (simp add: bit.conj_disj_distrib or_eq_0_iff)
qed

lemma sign_text_eq:
  "(if type AND SIGN \<noteq> 0 \<and> sint num < 0 then ''-''
    else if type AND PLUS \<noteq> 0 then ''+'' else if type AND SPACE \<noteq> 0 then '' '' else '''') = sign_text num type"
  by (simp add: sign_text_def)

lemma number_digits_eq:
  assumes "n = (if type AND SIGN \<noteq> 0 \<and> sint num < 0 then - num else num)"
  shows "(if n = 0 then ''0''
     else digit_loop (if type AND SMALL \<noteq> 0 then digits_lower else digits_upper) (nat base) (unat n))
     = rev (number_digits num base type)"
proof -
  have "unat n = magnitude num type"
    unfolding assms by (rule magnitude_unat)
  moreover have "n = 0 \<longleftrightarrow> unat n = 0"
    by (simp add: unat_eq_zero)
  ultimately show ?thesis
    by (simp add: number_digits_def)
qed

text \<open>The width left for padding once sign, prefix and digits are placed.\<close>

definition slack :: "u32 \<Rightarrow> int \<Rightarrow> int \<Rightarrow> int \<Rightarrow> u32 \<Rightarrow> int" where
  "slack num base width precision type =
     width - int (length (sign_text num type)) - int (prefix_length base type)
       - max precision (int (digit_count base (magnitude num type)))"

lemma number_eq:
  assumes "2 \<le> base" "base \<le> 36"
  shows "number num base width precision type =
    Some (let n = nat (slack num base width precision type)
          in (if type AND (ZEROPAD + LEFT) = 0 then replicate n CHR '' '' else '''')
             @ sign_text num type @ number_prefix base type
             @ (if type AND ZEROPAD \<noteq> 0 \<and> type AND LEFT = 0 then replicate n CHR ''0'' else '''')
             @ replicate (nat (precision - int (digit_count base (magnitude num type)))) CHR ''0''
             @ number_digits num base type
             @ (if type AND LEFT \<noteq> 0 then replicate n CHR '' '' else ''''))"
proof -
  have len: "length (number_digits num base type) = digit_count base (magnitude num type)"
    using assms(1) by (rule length_number_digits)
  have d33: "digits_lower ! 33 = CHR ''x''" "digits_upper ! 33 = CHR ''X''"
    by (simp_all add: digits_lower_def digits_upper_def)
  have mx: "(if i > p then i else p) = max p i" for i p :: int
    by (simp add: max_def)
  have sz: "(if sign_text num type \<noteq> '''' then width - 1 else width) = width - int (length (sign_text num type))"
    by (simp add: sign_text_def)
  have pf: "(if type AND SPECIAL \<noteq> 0 then (if base = 16 then k - 2 else if base = 8 then k - 1 else k) else k)
      = k - int (prefix_length base type)" for k
    by (simp add: prefix_length_def)
  have pr: "(if type AND SPECIAL \<noteq> 0
        then (if base = 8 then ''0'' else if base = 16
              then [CHR ''0'', (if type AND SMALL \<noteq> 0 then digits_lower else digits_upper) ! 33] else '''')
        else '''') = number_prefix base type"
    by (simp add: number_prefix_def d33)
  have zs: "nat (max p d - d) = nat (p - d)" for p d :: int
    by (simp add: max_def)
  note rules = zeropad_clear sign_text_eq if_True if_False not_True_eq_False not_False_eq_True
    refl number_digits_eq [OF refl] length_rev rev_rev_ident len mx sz pf pr zeropad_left_iff
    simp_thms fst_pad_loop nat_snd_pad_loop zs
  show ?thesis
  proof (cases "type AND LEFT = 0")
    case True
    then show ?thesis
      using assms unfolding number_def Let_def split_def slack_def
      by (cases "type AND ZEROPAD = 0") (simp_all only: rules, simp_all add: zs)
  next
    case False
    then show ?thesis
      using assms unfolding number_def Let_def split_def slack_def
      by (simp only: rules) (simp add: zs)
  qed
qed

text \<open>
  The length of what \<open>number\<close> writes: the field width, or the sign, the prefix and the digits
  where the field is too small for them.
\<close>

lemma length_number:
  assumes "2 \<le> base" "base \<le> 36" "number num base width precision type = Some s"
  shows "int (length s) = max width (int (length (sign_text num type) + prefix_length base type)
           + max precision (int (digit_count base (magnitude num type))))"
  using assms(3) length_number_digits [OF assms(1), of num type]
  by (cases "type AND LEFT = 0"; cases "type AND ZEROPAD = 0")
    (auto simp: number_eq [OF assms(1,2)] Let_def zeropad_left_iff slack_def)

section \<open>Properties\<close>

lemma length_digit_loop_le: "2 \<le> b \<Longrightarrow> n < 2 ^ k \<Longrightarrow> length (digit_loop ds b n) \<le> k"
proof (induction k arbitrary: n)
  case 0
  then show ?case by (simp add: digit_loop.simps)
next
  case (Suc k)
  have "n div b \<le> n div 2"
    using Suc.prems(1) by (intro div_le_mono2) simp_all
  with Suc show ?case
    by (simp add: digit_loop.simps [of ds b n])
qed

lemma magnitude_bound: "magnitude num type < 2 ^ 32"
  using unat32_bound by (simp only: magnitude_unat [symmetric])




text \<open>
  C3. Length bound of \<open>number\<close>: for every base from 2 to 36 it succeeds and writes exactly the
  field width, or the length of sign, prefix, precision zeros and digits where the field is
  narrower than that; and the digit buffer \<open>tmp[36]\<close> is never overrun.
\<close>
theorem number_length:
  assumes "2 \<le> base" "base \<le> 36"
  shows "\<exists>s. number num base width precision type = Some s \<and>
    int (length s) = max width (int (length (sign_text num type) + prefix_length base type)
           + max precision (int (digit_count base (magnitude num type)))) \<and>
    digit_count base (magnitude num type) \<le> 36"
proof -
  have "digit_count base (magnitude num type) \<le> 32"
    using length_digit_loop_le [of "nat base" "magnitude num type" 32 digits_upper] magnitude_bound assms
    by (simp add: digit_count_def)
  moreover obtain s where "number num base width precision type = Some s"
    using number_eq [OF assms] by blast
  ultimately show ?thesis
    using length_number [OF assms] by auto
qed

theorem number_length_witness:
  "\<exists>s. number 255 16 6 4 SPECIAL = Some s \<and> int (length s) = 6 \<and> digit_count 16 255 \<le> 36"
proof -
  have "magnitude 255 SPECIAL = 255" "prefix_length 16 SPECIAL = 2" "sign_text 255 SPECIAL = ''''"
    by (simp_all add: magnitude_def prefix_length_def sign_text_def flag_defs)
  moreover have "digit_count 16 255 = 2"
    by (simp add: digit_count_def digit_loop.simps)
  ultimately show ?thesis
    using number_length [of 16 255 6 4 SPECIAL] by simp
qed

text \<open>
  The star in a field width takes an argument but is not skipped in the format, so it is
  then read as the conversion character: \<open>"%*d"\<close> prints itself, whatever the arguments.
\<close>
lemma vsprintf_star_width:
  "vsprintf ''%*d'' [VInt w, VInt n] = Some (''%*d'', [], 3)"
  by (simp add: vsprintf_def parse_width_def parse_precision_def skip_qualifier_def convert_def
      is_digit_def Let_def)

end
