(* ===== verification/Strings.thy ===== *)
theory Strings
  imports Prelude
begin

text \<open>
  include/string.h: the inline string functions of the kernel, at the level of the i386 string
  instructions they are written in. Memory is a function from 32-bit addresses to bytes;
  registers are 32-bit words and addresses wrap around. A loop that only a byte in memory ends is
  a \<open>partial_function\<close>: \<open>None\<close> is a loop that does not end.

  Each function is proved to do on zero-terminated strings what its C contract says, or, where it
  does not, what it does instead.
\<close>

type_synonym bmem = "u32 \<Rightarrow> u8"

section \<open>The string instructions\<close>

lemma unat_dec: "x \<noteq> 0 \<Longrightarrow> unat (x - 1) < unat x" for x :: u32
  by (simp add: unat_minus_one unat_gt_0)

text \<open>\<open>repne scasb\<close>: the count, the destination register and the zero flag afterwards.\<close>

function repne_scasb :: "bmem \<Rightarrow> u8 \<Rightarrow> u32 \<Rightarrow> u32 \<Rightarrow> bool \<Rightarrow> u32 \<times> u32 \<times> bool" where
  "repne_scasb m al ecx edi zf =
     (if ecx = 0 then (ecx, edi, zf)
      else if al = m edi then (ecx - 1, edi + 1, True)
      else repne_scasb m al (ecx - 1) (edi + 1) False)"
  by pat_completeness auto
termination
  by (relation "measure (\<lambda>(m, al, ecx, edi, zf). unat ecx)") (auto simp: unat_dec)

text \<open>\<open>repe cmpsb\<close>: source register, zero flag and the signed "less" condition afterwards.\<close>

function repe_cmpsb :: "bmem \<Rightarrow> u32 \<Rightarrow> u32 \<Rightarrow> u32 \<Rightarrow> bool \<Rightarrow> bool \<Rightarrow> u32 \<times> bool \<times> bool" where
  "repe_cmpsb m ecx esi edi zf lt =
     (if ecx = 0 then (esi, zf, lt)
      else if m esi \<noteq> m edi then (esi + 1, False, sint (m esi) < sint (m edi))
      else repe_cmpsb m (ecx - 1) (esi + 1) (edi + 1) True False)"
  by pat_completeness auto
termination
  by (relation "measure (\<lambda>(m, ecx, esi, edi, zf, lt). unat ecx)") (auto simp: unat_dec)

text \<open>\<open>rep movsb\<close> with the direction flag as the step, and \<open>rep stosb\<close>.\<close>

function rep_movsb :: "bmem \<Rightarrow> u32 \<Rightarrow> u32 \<Rightarrow> u32 \<Rightarrow> u32 \<Rightarrow> bmem" where
  "rep_movsb m ecx esi edi step =
     (if ecx = 0 then m
      else rep_movsb (m(edi := m esi)) (ecx - 1) (esi + step) (edi + step) step)"
  by pat_completeness auto
termination
  by (relation "measure (\<lambda>(m, ecx, esi, edi, step). unat ecx)") (auto simp: unat_dec)

function rep_stosb :: "bmem \<Rightarrow> u8 \<Rightarrow> u32 \<Rightarrow> u32 \<Rightarrow> bmem" where
  "rep_stosb m al ecx edi =
     (if ecx = 0 then m else rep_stosb (m(edi := al)) al (ecx - 1) (edi + 1))"
  by pat_completeness auto
termination
  by (relation "measure (\<lambda>(m, al, ecx, edi). unat ecx)") (auto simp: unat_dec)

declare repne_scasb.simps [simp del] repe_cmpsb.simps [simp del] rep_movsb.simps [simp del]
  rep_stosb.simps [simp del]

section \<open>Copying and appending\<close>

partial_function (option) strcpy_loop :: "bmem \<Rightarrow> u32 \<Rightarrow> u32 \<Rightarrow> bmem option" where
  "strcpy_loop m esi edi =
     (let al = m esi; m = m(edi := al)
      in if al \<noteq> 0 then strcpy_loop m (esi + 1) (edi + 1) else Some m)"

definition strcpy :: "u32 \<Rightarrow> u32 \<Rightarrow> bmem \<Rightarrow> (u32 \<times> bmem) option" where
  "strcpy dest src m = map_option (\<lambda>m. (dest, m)) (strcpy_loop m src dest)"

function strncpy_loop :: "bmem \<Rightarrow> u32 \<Rightarrow> u32 \<Rightarrow> u32 \<Rightarrow> bmem" where
  "strncpy_loop m ecx esi edi =
     (if ecx = 0 \<or> sint (ecx - 1) < 0 then m
      else let ecx = ecx - 1; al = m esi; m = m(edi := al)
           in if al \<noteq> 0 then strncpy_loop m ecx (esi + 1) (edi + 1)
              else rep_stosb m al ecx (edi + 1))"
  by pat_completeness auto
termination
  by (relation "measure (\<lambda>(m, ecx, esi, edi). unat ecx)") (auto simp: unat_dec)

definition strncpy :: "u32 \<Rightarrow> u32 \<Rightarrow> u32 \<Rightarrow> bmem \<Rightarrow> u32 \<times> bmem" where
  "strncpy dest src count m = (dest, strncpy_loop m count src dest)"

definition strcat :: "u32 \<Rightarrow> u32 \<Rightarrow> bmem \<Rightarrow> (u32 \<times> bmem) option" where
  "strcat dest src m =
     (case repne_scasb m 0 0xffffffff dest False of
        (ecx, edi, zf) \<Rightarrow> map_option (\<lambda>m. (dest, m)) (strcpy_loop m src (edi - 1)))"

text \<open>The loop of \<open>strncat\<close>: memory and the destination register when it is left.\<close>

function strncat_loop :: "bmem \<Rightarrow> u32 \<Rightarrow> u32 \<Rightarrow> u32 \<Rightarrow> bmem \<times> u32" where
  "strncat_loop m ecx esi edi =
     (if ecx = 0 \<or> sint (ecx - 1) < 0 then (m, edi)
      else let ecx = ecx - 1; al = m esi; m = m(edi := al)
           in if al \<noteq> 0 then strncat_loop m ecx (esi + 1) (edi + 1) else (m, edi + 1))"
  by pat_completeness auto
termination
  by (relation "measure (\<lambda>(m, ecx, esi, edi). unat ecx)") (auto simp: unat_dec)

declare strncpy_loop.simps [simp del] strncat_loop.simps [simp del]

definition strncat :: "u32 \<Rightarrow> u32 \<Rightarrow> u32 \<Rightarrow> bmem \<Rightarrow> u32 \<times> bmem" where
  "strncat dest src count m =
     (case repne_scasb m 0 0xffffffff dest False of
        (ecx, edi, zf) \<Rightarrow>
          (case strncat_loop m count src (edi - 1) of (m, edi) \<Rightarrow> (dest, m(edi := 0))))"

section \<open>Comparing and searching\<close>

partial_function (option) strcmp_loop :: "bmem \<Rightarrow> u32 \<Rightarrow> u32 \<Rightarrow> int option" where
  "strcmp_loop m esi edi =
     (let al = m esi
      in if al \<noteq> m edi then Some (if sint al < sint (m edi) then 1 else - 1)
         else if al \<noteq> 0 then strcmp_loop m (esi + 1) (edi + 1) else Some 0)"

definition strcmp :: "u32 \<Rightarrow> u32 \<Rightarrow> bmem \<Rightarrow> int option" where
  "strcmp cs ct m = strcmp_loop m ct cs"

function strncmp_loop :: "bmem \<Rightarrow> u32 \<Rightarrow> u32 \<Rightarrow> u32 \<Rightarrow> int" where
  "strncmp_loop m ecx esi edi =
     (if ecx = 0 \<or> sint (ecx - 1) < 0 then 0
      else let al = m esi
           in if al \<noteq> m edi then (if sint al < sint (m edi) then 1 else - 1)
              else if al \<noteq> 0 then strncmp_loop m (ecx - 1) (esi + 1) (edi + 1) else 0)"
  by pat_completeness auto
termination
  by (relation "measure (\<lambda>(m, ecx, esi, edi). unat ecx)") (auto simp: unat_dec)

declare strncmp_loop.simps [simp del]

definition strncmp :: "u32 \<Rightarrow> u32 \<Rightarrow> u32 \<Rightarrow> bmem \<Rightarrow> int" where
  "strncmp cs ct count m = strncmp_loop m count ct cs"

partial_function (option) strchr_loop :: "bmem \<Rightarrow> u8 \<Rightarrow> u32 \<Rightarrow> u32 option" where
  "strchr_loop m ah esi =
     (let al = m esi; esi = esi + 1
      in if al = ah then Some esi else if al \<noteq> 0 then strchr_loop m ah esi else Some 1)"

definition strchr :: "u32 \<Rightarrow> u8 \<Rightarrow> bmem \<Rightarrow> u32 option" where
  "strchr s c m = map_option (\<lambda>r. r - 1) (strchr_loop m c s)"

partial_function (option) strrchr_loop :: "bmem \<Rightarrow> u8 \<Rightarrow> u32 \<Rightarrow> u32 \<Rightarrow> u32 option" where
  "strrchr_loop m ah esi edx =
     (let al = m esi; esi = esi + 1; edx = (if al = ah then esi - 1 else edx)
      in if al \<noteq> 0 then strrchr_loop m ah esi edx else Some edx)"

definition strrchr :: "u32 \<Rightarrow> u8 \<Rightarrow> bmem \<Rightarrow> u32 option" where
  "strrchr s c m = strrchr_loop m c s 0"

definition strlen :: "u32 \<Rightarrow> bmem \<Rightarrow> u32" where
  "strlen s m = (case repne_scasb m 0 0xffffffff s False of (ecx, edi, zf) \<Rightarrow> NOT ecx - 1)"

text \<open>
  The scan of the second string for the byte in \<open>al\<close>, with its length in \<open>edx\<close>; the zero flag
  was cleared by the test of \<open>al\<close> before.
\<close>

definition scan_for :: "bmem \<Rightarrow> u8 \<Rightarrow> u32 \<Rightarrow> u32 \<Rightarrow> bool" where
  "scan_for m al edx ct = (case repne_scasb m al edx ct False of (ecx, edi, zf) \<Rightarrow> zf)"

partial_function (option) strspn_loop :: "bmem \<Rightarrow> u32 \<Rightarrow> u32 \<Rightarrow> u32 \<Rightarrow> u32 option" where
  "strspn_loop m edx ct esi =
     (let al = m esi; esi = esi + 1
      in if al = 0 then Some esi
         else if scan_for m al edx ct then strspn_loop m edx ct esi else Some esi)"

definition strspn :: "u32 \<Rightarrow> u32 \<Rightarrow> bmem \<Rightarrow> u32 option" where
  "strspn cs ct m = map_option (\<lambda>esi. esi - 1 - cs) (strspn_loop m (strlen ct m) ct cs)"

partial_function (option) strcspn_loop :: "bmem \<Rightarrow> u32 \<Rightarrow> u32 \<Rightarrow> u32 \<Rightarrow> u32 option" where
  "strcspn_loop m edx ct esi =
     (let al = m esi; esi = esi + 1
      in if al = 0 then Some esi
         else if \<not> scan_for m al edx ct then strcspn_loop m edx ct esi else Some esi)"

definition strcspn :: "u32 \<Rightarrow> u32 \<Rightarrow> bmem \<Rightarrow> u32 option" where
  "strcspn cs ct m = map_option (\<lambda>esi. esi - 1 - cs) (strcspn_loop m (strlen ct m) ct cs)"

partial_function (option) strpbrk_loop :: "bmem \<Rightarrow> u32 \<Rightarrow> u32 \<Rightarrow> u32 \<Rightarrow> u32 option" where
  "strpbrk_loop m edx ct esi =
     (let al = m esi; esi = esi + 1
      in if al = 0 then Some 0
         else if \<not> scan_for m al edx ct then strpbrk_loop m edx ct esi else Some (esi - 1))"

definition strpbrk :: "u32 \<Rightarrow> u32 \<Rightarrow> bmem \<Rightarrow> u32 option" where
  "strpbrk cs ct m = strpbrk_loop m (strlen ct m) ct cs"

text \<open>
  \<open>strstr\<close>: the zero flag goes into the comparison, which leaves it alone when the length is 0,
  so that the empty string is found at once.
\<close>

partial_function (option) strstr_loop :: "bmem \<Rightarrow> u32 \<Rightarrow> u32 \<Rightarrow> u32 \<Rightarrow> bool \<Rightarrow> u32 option" where
  "strstr_loop m edx ct esi zf =
     (case repe_cmpsb m edx esi ct zf False of
        (esi2, zf, lt) \<Rightarrow>
          if zf then Some esi
          else if m (esi2 - 1) \<noteq> 0 then strstr_loop m edx ct (esi + 1) False else Some 0)"

definition strstr :: "u32 \<Rightarrow> u32 \<Rightarrow> bmem \<Rightarrow> u32 option" where
  "strstr cs ct m = (let ecx = strlen ct m in strstr_loop m ecx ct cs (ecx = 0))"

section \<open>Tokens\<close>

text \<open>Label 2 of \<open>strtok\<close>: skip delimiters; whether a token starts, and where.\<close>

partial_function (option) strtok_skip :: "bmem \<Rightarrow> u32 \<Rightarrow> u32 \<Rightarrow> u32 \<Rightarrow> (bool \<times> u32) option" where
  "strtok_skip m edx ct esi =
     (let al = m esi; esi = esi + 1
      in if al = 0 then Some (False, esi)
         else if scan_for m al edx ct then strtok_skip m edx ct esi
         else let esi = esi - 1 in Some (m esi \<noteq> 0, esi))"

text \<open>Label 3: the end of the token; the new \<open>___strtok\<close> and memory.\<close>

partial_function (option) strtok_end :: "bmem \<Rightarrow> u32 \<Rightarrow> u32 \<Rightarrow> u32 \<Rightarrow> (u32 \<times> bmem) option" where
  "strtok_end m edx ct esi =
     (let al = m esi; esi = esi + 1
      in if al = 0 then Some (0, m)
         else if \<not> scan_for m al edx ct then strtok_end m edx ct esi
         else let esi = esi - 1
              in if m esi = 0 then Some (0, m) else Some (esi + 1, m(esi := 0)))"

text \<open>The result, the new value of the variable \<open>___strtok\<close>, and memory.\<close>

definition strtok :: "u32 \<Rightarrow> u32 \<Rightarrow> u32 \<Rightarrow> bmem \<Rightarrow> (u32 \<times> u32 \<times> bmem) option" where
  "strtok s ct tok m =
     (if s = 0 \<and> tok = 0 then Some (0, 0, m)
      else let esi = (if s \<noteq> 0 then s else tok);
               edx = strlen ct m
           in if edx = 0 then Some (0, 0, m)
              else (case strtok_skip m edx ct esi of
                      None \<Rightarrow> None
                    | Some (found, res) \<Rightarrow>
                        if \<not> found then Some (0, 0, m)
                        else (case strtok_end m edx ct res of
                                None \<Rightarrow> None
                              | Some (esi, m) \<Rightarrow>
                                  let res = (if m res = 0 then 0 else res)
                                  in Some (if res = 0 then (0, 0, m) else (res, esi, m)))))"

section \<open>Memory blocks\<close>

definition memcpy :: "u32 \<Rightarrow> u32 \<Rightarrow> u32 \<Rightarrow> bmem \<Rightarrow> u32 \<times> bmem" where
  "memcpy dest src n m = (dest, rep_movsb m n src dest 1)"

definition memmove :: "u32 \<Rightarrow> u32 \<Rightarrow> u32 \<Rightarrow> bmem \<Rightarrow> u32 \<times> bmem" where
  "memmove dest src n m =
     (if dest = src \<or> n = 0 then (dest, m)
      else if dest < src then (dest, rep_movsb m n src dest 1)
      else (dest, rep_movsb m n (src + n - 1) (dest + n - 1) (- 1)))"

definition memcmp :: "u32 \<Rightarrow> u32 \<Rightarrow> u32 \<Rightarrow> bmem \<Rightarrow> int" where
  "memcmp cs ct count m =
     (if count = 0 \<or> cs = ct then 0
      else (case repe_cmpsb m count ct cs False False of
              (esi, zf, lt) \<Rightarrow> if zf then 0 else if lt then 1 else - 1))"

definition memchr :: "u32 \<Rightarrow> u8 \<Rightarrow> u32 \<Rightarrow> bmem \<Rightarrow> u32" where
  "memchr cs c count m =
     (if count = 0 \<or> cs = 0 then 0
      else (case repne_scasb m c count cs False of
              (ecx, edi, zf) \<Rightarrow> (if zf then edi else 1) - 1))"

definition memset :: "u32 \<Rightarrow> u8 \<Rightarrow> u32 \<Rightarrow> bmem \<Rightarrow> u32 \<times> bmem" where
  "memset s c count m = (s, rep_stosb m c count s)"

section \<open>Zero-terminated strings\<close>

primrec str_at :: "bmem \<Rightarrow> u32 \<Rightarrow> u8 list \<Rightarrow> bool" where
  "str_at m a [] \<longleftrightarrow> m a = 0"
| "str_at m a (x # xs) \<longleftrightarrow> x \<noteq> 0 \<and> m a = x \<and> str_at m (a + 1) xs"

primrec write_bytes :: "bmem \<Rightarrow> u32 \<Rightarrow> u8 list \<Rightarrow> bmem" where
  "write_bytes m a [] = m"
| "write_bytes m a (x # xs) = write_bytes (m(a := x)) (a + 1) xs"

text \<open>Whether two address ranges of the given lengths share no address.\<close>

definition apart :: "u32 \<Rightarrow> nat \<Rightarrow> u32 \<Rightarrow> nat \<Rightarrow> bool" where
  "apart a n b k \<longleftrightarrow> (\<forall>i < n. \<forall>j < k. a + of_nat i \<noteq> b + of_nat j)"

lemma suc_addr: "a + of_nat (Suc i) = a + 1 + of_nat i" for a :: u32
  by simp

lemma apartD: "apart a n b k \<Longrightarrow> i < n \<Longrightarrow> j < k \<Longrightarrow> a + of_nat i \<noteq> b + of_nat j"
  by (simp add: apart_def)

lemma apart_Suc:
  assumes "apart a (Suc n) b (Suc k)"
  shows "apart (a + 1) n (b + 1) k"
  using apartD [OF assms, of "Suc _" "Suc _"] unfolding apart_def by (simp only: suc_addr Suc_less_eq) blast

lemma unat_addr: "unat a + i < 2 ^ 32 \<Longrightarrow> unat (a + of_nat i) = unat a + i" for a :: u32
  by (simp add: unat_word_ariths unat_of_nat)

lemma apart_below:
  assumes "unat a + n \<le> unat b" "unat b + k \<le> 2 ^ 32"
  shows "apart a n b k"
  unfolding apart_def
proof (intro allI impI notI)
  fix i j
  assume ij: "i < n" "j < k" "a + of_nat i = b + of_nat j"
  then have "unat a + i = unat b + j"
    using assms unat_addr [of a i] unat_addr [of b j] by simp
  with ij assms show False
    by simp
qed

lemma apart_head: "apart a n b k \<Longrightarrow> i < n \<Longrightarrow> 0 < k \<Longrightarrow> a + of_nat i \<noteq> b"
  using apartD [of a n b k i 0] by simp

lemma str_at_upd:
  "(\<And>i. i \<le> length xs \<Longrightarrow> a + of_nat i \<noteq> d) \<Longrightarrow> str_at (m(d := v)) a xs = str_at m a xs"
proof (induction xs arbitrary: a)
  case Nil
  from Nil [of 0] show ?case
    by simp
next
  case (Cons x xs)
  have "a + 1 + of_nat i \<noteq> d" if "i \<le> length xs" for i
    using Cons.prems [of "Suc i"] that by (simp only: suc_addr) simp
  with Cons.IH have "str_at (m(d := v)) (a + 1) xs = str_at m (a + 1) xs"
    by blast
  moreover have "a \<noteq> d"
    using Cons.prems [of 0] by simp
  ultimately show ?case
    by (simp only: str_at.simps fun_upd_other not_False_eq_True)
qed

lemma apart_upd:
  "apart a (Suc (length xs)) b k \<Longrightarrow> 0 < k \<Longrightarrow> str_at (m(b := v)) a xs = str_at m a xs"
  by (rule str_at_upd) (simp add: apart_head)

lemma str_at_nth: "str_at m a xs \<Longrightarrow> i < length xs \<Longrightarrow> m (a + of_nat i) = xs ! i \<and> xs ! i \<noteq> 0"
proof (induction xs arbitrary: a i)
  case (Cons x xs)
  show ?case
  proof (cases i)
    case (Suc k)
    then show ?thesis
      using Cons.IH [of "a + 1" k] Cons.prems by (simp only: suc_addr) simp
  qed (use Cons.prems in auto)
qed simp

text \<open>What a scan finds.\<close>

lemma scasb_found:
  "str_at m a xs \<Longrightarrow> length xs < unat c \<Longrightarrow>
   repne_scasb m 0 c a zf = (c - of_nat (length xs) - 1, a + of_nat (length xs) + 1, True)"
proof (induction xs arbitrary: a c zf)
  case Nil
  then show ?case
    by (subst repne_scasb.simps) auto
next
  case (Cons x xs)
  then have c: "c \<noteq> 0"
    by auto
  then have "unat (c - 1) = unat c - 1"
    by (rule unat_minus_one)
  with Cons have "repne_scasb m 0 (c - 1) (a + 1) False =
      (c - 1 - of_nat (length xs) - 1, a + 1 + of_nat (length xs) + 1, True)"
    by simp
  with Cons.prems c show ?case
    by (subst repne_scasb.simps) simp
qed

lemma strlen_eq:
  assumes "str_at m s xs" "length xs < 2 ^ 32 - 1"
  shows "strlen s m = of_nat (length xs)"
proof -
  have "repne_scasb m 0 0xffffffff s False =
      (0xffffffff - of_nat (length xs) - 1, s + of_nat (length xs) + 1, True)"
    using assms by (intro scasb_found) simp_all
  then show ?thesis
    by (simp add: strlen_def not_eq_complement)
qed

lemma of_nat_Suc_nonzero: "n < 2 ^ 32 - 1 \<Longrightarrow> of_nat (Suc n) \<noteq> (0 :: u32)"
proof -
  assume "n < 2 ^ 32 - 1"
  then have "unat (of_nat (Suc n) :: u32) = Suc n"
    by (simp add: unat_of_nat del: of_nat_Suc)
  then show ?thesis
    by (metis nat.distinct(1) unat_0)
qed

lemma scasb_set:
  "str_at m ct ys \<Longrightarrow> length ys < 2 ^ 32 \<Longrightarrow>
   (\<exists>c d. repne_scasb m al (of_nat (length ys)) ct zf = (c, d, if ys = [] then zf else al \<in> set ys))"
proof (induction ys arbitrary: ct zf)
  case Nil
  then show ?case
    by (simp add: repne_scasb.simps)
next
  case (Cons y ys)
  have n: "of_nat (length (y # ys)) \<noteq> (0 :: u32)"
    unfolding length_Cons using Cons.prems(2) by (intro of_nat_Suc_nonzero) simp
  have d: "of_nat (length (y # ys)) - 1 = (of_nat (length ys) :: u32)"
    by simp
  from Cons have "\<exists>c d. repne_scasb m al (of_nat (length ys)) (ct + 1) False = (c, d, if ys = [] then False else al \<in> set ys)"
    by simp
  with Cons.prems n d show ?case
    by (subst repne_scasb.simps) (auto simp del: length_Cons)
qed

lemma scan_for_set:
  assumes "str_at m ct ys" "length ys < 2 ^ 32 - 1"
  shows "scan_for m al (strlen ct m) ct \<longleftrightarrow> al \<in> set ys"
proof -
  from scasb_set [OF assms(1), of al False] assms(2)
  obtain c d where "repne_scasb m al (of_nat (length ys)) ct False = (c, d, if ys = [] then False else al \<in> set ys)"
    by auto
  then show ?thesis
    using strlen_eq [OF assms] by (simp add: scan_for_def)
qed

section \<open>Blocks written\<close>

lemma write_bytes_other:
  "(\<And>i. i < length xs \<Longrightarrow> b \<noteq> a + of_nat i) \<Longrightarrow> write_bytes m a xs b = m b"
proof (induction xs arbitrary: a m)
  case (Cons x xs)
  have "b \<noteq> a"
    using Cons.prems [of 0] by simp
  moreover have "write_bytes (m(a := x)) (a + 1) xs b = (m(a := x)) b"
  proof (rule Cons.IH)
    fix i
    assume "i < length xs"
    then show "b \<noteq> a + 1 + of_nat i"
      using Cons.prems [of "Suc i"] by (simp only: suc_addr) simp
  qed
  ultimately show ?case
    by simp
qed simp

lemma write_bytes_append:
  "write_bytes m a (xs @ ys) = write_bytes (write_bytes m a xs) (a + of_nat (length xs)) ys"
  by (induction xs arbitrary: m a) (simp_all add: add.assoc)

lemma addr_inj:
  fixes a :: u32
  assumes "i < 2 ^ 32" "j < 2 ^ 32" "a + of_nat i = a + of_nat j"
  shows "i = j"
proof -
  have "(of_nat i :: u32) = of_nat j"
    using assms(3) by simp
  then have "unat (of_nat i :: u32) = unat (of_nat j :: u32)"
    by simp
  with assms(1,2) show ?thesis
    by (simp add: unat_of_nat)
qed

lemma write_bytes_nth:
  assumes "i < length xs" "length xs \<le> 2 ^ 32"
  shows "write_bytes m a xs (a + of_nat i) = xs ! i"
proof -
  have "xs = take i xs @ xs ! i # drop (Suc i) xs"
    using assms(1) by (rule id_take_nth_drop)
  then have "write_bytes m a xs (a + of_nat i) = write_bytes ((write_bytes m a (take i xs))(a + of_nat i := xs ! i))
      (a + of_nat i + 1) (drop (Suc i) xs) (a + of_nat i)"
    using assms(1) write_bytes_append [of m a "take i xs" "xs ! i # drop (Suc i) xs"] by simp
  also have "\<dots> = ((write_bytes m a (take i xs))(a + of_nat i := xs ! i)) (a + of_nat i)"
  proof (rule write_bytes_other)
    fix j
    assume "j < length (drop (Suc i) xs)"
    then have "Suc (i + j) < length xs"
      by simp
    with assms(2) have "a + of_nat i \<noteq> a + of_nat (Suc (i + j))"
      using addr_inj [of i "Suc (i + j)" a] by fastforce
    then show "a + of_nat i \<noteq> a + of_nat i + 1 + of_nat j"
      by (simp add: add.assoc)
  qed
  finally show ?thesis
    by simp
qed

lemma str_atI:
  "(\<And>i. i < length xs \<Longrightarrow> m (a + of_nat i) = xs ! i \<and> xs ! i \<noteq> 0) \<Longrightarrow> m (a + of_nat (length xs)) = 0
    \<Longrightarrow> str_at m a xs"
proof (induction xs arbitrary: a)
  case (Cons x xs)
  have "str_at m (a + 1) xs"
  proof (rule Cons.IH)
    show "m (a + 1 + of_nat i) = xs ! i \<and> xs ! i \<noteq> 0" if "i < length xs" for i
      using Cons.prems(1) [of "Suc i"] that by (simp only: suc_addr) simp
    show "m (a + 1 + of_nat (length xs)) = 0"
      using Cons.prems(2) by (simp only: length_Cons suc_addr)
  qed
  with Cons.prems(1) [of 0] show ?case
    by simp
qed simp

lemma write_bytes_str_at:
  assumes "0 \<notin> set xs" "length xs < 2 ^ 32"
  shows "str_at (write_bytes m a (xs @ [0])) a xs"
  using assms write_bytes_nth [of _ "xs @ [0]" m a]
  by (intro str_atI) (auto simp: nth_append in_set_conv_nth)

lemma str_at_nonzero: "str_at m a xs \<Longrightarrow> 0 \<notin> set xs"
  by (induction xs arbitrary: a) auto

lemma stosb_eq: "n < 2 ^ 32 \<Longrightarrow> rep_stosb m al (of_nat n) a = write_bytes m a (replicate n al)"
proof (induction n arbitrary: m a)
  case (Suc n)
  then have "of_nat (Suc n) \<noteq> (0 :: u32)" "of_nat (Suc n) - 1 = (of_nat n :: u32)"
    by (intro of_nat_Suc_nonzero) simp_all
  with Suc show ?case
    by (subst rep_stosb.simps) (simp del: of_nat_Suc)
qed (simp add: rep_stosb.simps)

section \<open>Copying\<close>

lemma strcpy_loop_ok:
  "str_at m s xs \<Longrightarrow> apart s (Suc (length xs)) d (Suc (length xs)) \<Longrightarrow>
   strcpy_loop m s d = Some (write_bytes m d (xs @ [0]))"
proof (induction xs arbitrary: m s d)
  case Nil
  then show ?case
    by (subst strcpy_loop.simps) simp
next
  case (Cons x xs)
  have "apart (s + 1) (Suc (length xs)) (d + 1) (Suc (length xs))"
    using Cons.prems(2) by (intro apart_Suc) simp
  moreover have "str_at (m(d := x)) (s + 1) xs"
  proof -
    have "s + 1 + of_nat i \<noteq> d" if "i \<le> length xs" for i
      using apart_head [OF Cons.prems(2), of "Suc i"] that by (simp only: suc_addr) simp
    with Cons.prems(1) show ?thesis
      using str_at_upd [of xs "s + 1" d m x] by simp
  qed
  ultimately have "strcpy_loop (m(d := x)) (s + 1) (d + 1) = Some (write_bytes (m(d := x)) (d + 1) (xs @ [0]))"
    by (rule Cons.IH [rotated])
  with Cons.prems(1) show ?case
    by (subst strcpy_loop.simps) simp
qed

lemma strcat_target:
  assumes "str_at m d ds" "length ds < 2 ^ 32 - 1"
  shows "\<exists>c. repne_scasb m 0 0xffffffff d False = (c, d + of_nat (length ds) + 1, True)"
  using scasb_found [of m d ds "0xffffffff" False] assms by simp

text \<open>
  With a positive count below \<open>2 ^ 31\<close> the sign test of the decremented count is a test for zero.
\<close>

lemma count_test:
  assumes "n < 2 ^ 31"
  shows "of_nat (Suc n) \<noteq> (0 :: u32)" "0 \<le> sint (of_nat (Suc n) - 1 :: u32)"
    "of_nat (Suc n) - 1 = (of_nat n :: u32)" "sint (of_nat n - 1 :: u32) < 0 \<longleftrightarrow> n = 0"
proof -
  show "of_nat (Suc n) \<noteq> (0 :: u32)"
    using assms by (intro of_nat_Suc_nonzero) simp
  show e: "of_nat (Suc n) - 1 = (of_nat n :: u32)"
    by simp
  have u: "uint (of_nat k :: u32) = int k" if "k < 2 ^ 31" for k
    using that by (simp add: uint_nat unat_of_nat)
  show "0 \<le> sint (of_nat (Suc n) - 1 :: u32)"
    unfolding e using u [OF assms] assms by (simp add: sint_uint32)
  show "sint (of_nat n - 1 :: u32) < 0 \<longleftrightarrow> n = 0"
  proof (cases n)
    case (Suc k)
    then show ?thesis
      using u [of k] assms by (simp add: sint_uint32)
  qed simp
qed

lemma strncat_loop_ok:
  "str_at m s xs \<Longrightarrow> apart s (Suc (length xs)) d (Suc (length xs)) \<Longrightarrow> length xs < n \<Longrightarrow> n \<le> 2 ^ 31 \<Longrightarrow>
   strncat_loop m (of_nat n) s d = (write_bytes m d (xs @ [0]), d + of_nat (length xs) + 1)"
proof (induction xs arbitrary: m s d n)
  case Nil
  then obtain k where n: "n = Suc k" "k < 2 ^ 31"
    by (cases n) simp_all
  from Nil show ?case
    using count_test(1-3) [OF n(2)] by (subst strncat_loop.simps) (simp add: n(1) del: of_nat_Suc)
next
  case (Cons x xs)
  then obtain k where n: "n = Suc k" "k < 2 ^ 31" "length xs < k"
    by (cases n) simp_all
  have "apart (s + 1) (Suc (length xs)) (d + 1) (Suc (length xs))"
    using Cons.prems(2) by (intro apart_Suc) simp
  moreover have "str_at (m(d := x)) (s + 1) xs"
  proof -
    have "s + 1 + of_nat i \<noteq> d" if "i \<le> length xs" for i
      using apart_head [OF Cons.prems(2), of "Suc i"] that by (simp only: suc_addr) simp
    with Cons.prems(1) show ?thesis
      using str_at_upd [of xs "s + 1" d m x] by simp
  qed
  ultimately have "strncat_loop (m(d := x)) (of_nat k) (s + 1) (d + 1)
      = (write_bytes (m(d := x)) (d + 1) (xs @ [0]), d + 1 + of_nat (length xs) + 1)"
    using n by (intro Cons.IH) (assumption | simp)+
  with Cons.prems(1) show ?case
    using count_test(1-3) [OF n(2)]
    by (subst strncat_loop.simps) (simp add: n(1) add.assoc del: of_nat_Suc, simp)
qed

lemma strncpy_loop_ok:
  "str_at m s xs \<Longrightarrow> apart s (Suc (length xs)) d n \<Longrightarrow> n \<le> 2 ^ 31 \<Longrightarrow>
   strncpy_loop m (of_nat n) s d = write_bytes m d (take n (xs @ replicate n 0))"
proof (induction n arbitrary: m s d xs)
  case 0
  then show ?case
    by (simp add: strncpy_loop.simps)
next
  case (Suc k)
  note c = count_test(1-3) [of k] Suc.prems(3)
  show ?case
  proof (cases xs)
    case Nil
    then have "strncpy_loop m (of_nat (Suc k)) s d = rep_stosb (m(d := 0)) 0 (of_nat k) (d + 1)"
      using Suc.prems(1) c by (subst strncpy_loop.simps) (simp del: of_nat_Suc)
    then show ?thesis
      using Nil Suc.prems(3) stosb_eq [of k "m(d := 0)" 0 "d + 1"] by simp
  next
    case (Cons x ys)
    have "str_at (m(d := x)) (s + 1) ys"
    proof -
      have "s + 1 + of_nat i \<noteq> d" if "i \<le> length ys" for i
        using apart_head [OF Suc.prems(2), of "Suc i"] that Cons by (simp only: suc_addr) simp
      with Suc.prems(1) Cons show ?thesis
        using str_at_upd [of ys "s + 1" d m x] by simp
    qed
    moreover have "apart (s + 1) (Suc (length ys)) (d + 1) k"
      using Suc.prems(2) Cons by (intro apart_Suc) simp
    ultimately have "strncpy_loop (m(d := x)) (of_nat k) (s + 1) (d + 1)
        = write_bytes (m(d := x)) (d + 1) (take k (ys @ replicate k 0))"
      using Suc.prems(3) by (intro Suc.IH) (assumption | simp)+
    moreover have "take k (ys @ replicate k 0) = take k (ys @ 0 # replicate k 0)" for ys :: "u8 list"
      by (metis replicate_Suc replicate_append_same append.assoc take_append diff_is_0_eq
          length_append length_replicate le_add2 take_0 append_Nil2)
    ultimately show ?thesis
      using Suc.prems(1) Cons c by (subst strncpy_loop.simps) (simp del: of_nat_Suc)
  qed
qed

section \<open>Comparing\<close>

text \<open>Comparison of the bytes as signed numbers, the end of a string being a zero byte.\<close>

fun cmp_bytes :: "u8 list \<Rightarrow> u8 list \<Rightarrow> int" where
  "cmp_bytes (x # xs) (y # ys) =
     (if x = y then cmp_bytes xs ys else if sint y < sint x then 1 else - 1)"
| "cmp_bytes [] [] = 0"
| "cmp_bytes [] (y # ys) = (if sint y < 0 then 1 else - 1)"
| "cmp_bytes (x # xs) [] = (if 0 < sint x then 1 else - 1)"

lemma strcmp_loop_eq:
  "str_at m cs xs \<Longrightarrow> str_at m ct ys \<Longrightarrow> strcmp_loop m ct cs = Some (cmp_bytes xs ys)"
proof (induction xs ys arbitrary: cs ct rule: cmp_bytes.induct)
  case (1 x xs y ys)
  then show ?case
    by (subst strcmp_loop.simps) auto
qed (subst strcmp_loop.simps, simp)+

lemma cmp_bytes_zero: "0 \<notin> set xs \<Longrightarrow> 0 \<notin> set ys \<Longrightarrow> cmp_bytes xs ys = 0 \<longleftrightarrow> xs = ys"
  by (induction xs ys rule: cmp_bytes.induct) auto

lemma sint8_ascii: "x < 128 \<Longrightarrow> sint x = uint x" for x :: u8
proof -
  assume "x < 128"
  then have "\<not> bit (uint x) 7"
    by (simp add: word_less_alt bit_iff_odd)
  then have "signed_take_bit 7 (uint x) = take_bit 7 (uint x)"
    by (simp add: signed_take_bit_eq_if_positive)
  also have "\<dots> = uint x"
    using \<open>x < 128\<close> by (intro take_bit_int_eq_self) (simp_all add: word_less_alt)
  finally show ?thesis
    by (simp add: sint_uint)
qed

lemma sint8_less: "x < 128 \<Longrightarrow> y < 128 \<Longrightarrow> sint x < sint y \<longleftrightarrow> x < y" for x y :: u8
  by (simp add: sint8_ascii word_less_alt)

lemma sint8_sign: "0 < x \<Longrightarrow> x < 128 \<Longrightarrow> 0 < sint x \<and> \<not> sint x < 0" for x :: u8
  by (simp add: sint8_ascii word_less_alt)

lemma cmp_bytes_ascii:
  assumes "\<forall>x \<in> set xs. 0 < x \<and> x < 128" "\<forall>y \<in> set ys. 0 < y \<and> y < 128"
  shows "cmp_bytes xs ys < 0 \<longleftrightarrow> ord_class.lexordp xs ys"
  using assms
  by (induction xs ys rule: cmp_bytes.induct) (auto simp: sint8_less dest: sint8_sign)

section \<open>Properties\<close>

text \<open>
  \<open>strcpy\<close> and \<open>strcat\<close> return and build exactly the string they are meant to: the bytes
  of the source and its zero, at the destination or at the end of the string there.
\<close>
theorem strcpy_strcat_ok:
  assumes "str_at m src xs" "str_at m dest ds" "length ds + length xs < 2 ^ 32 - 1"
    and "apart src (Suc (length xs)) dest (Suc (length ds + length xs))"
  shows "strcpy dest src m = Some (dest, write_bytes m dest (xs @ [0])) \<and>
    str_at (write_bytes m dest (xs @ [0])) dest xs \<and>
    (\<exists>m'. strcat dest src m = Some (dest, m') \<and> str_at m' dest (ds @ xs) \<and>
      (\<forall>b. (\<forall>i \<le> length ds + length xs. b \<noteq> dest + of_nat i) \<longrightarrow> m' b = m b))"
proof -
  let ?e = "dest + of_nat (length ds)"
  let ?m = "write_bytes m ?e (xs @ [0])"
  have ap: "apart src (Suc (length xs)) dest (Suc (length xs))" "apart src (Suc (length xs)) ?e (Suc (length xs))"
    unfolding apart_def using apartD [OF assms(4)] apartD [OF assms(4), of _ "length ds + _"]
    by (auto simp: add.assoc)
  have cat: "strcat dest src m = Some (dest, ?m)"
    using strcat_target [OF assms(2)] assms(3) strcpy_loop_ok [OF assms(1) ap(2)]
    by (auto simp: strcat_def)
  have tail: "?m (dest + of_nat (length ds + i)) = (xs @ [0]) ! i" if "i < Suc (length xs)" for i
    using write_bytes_nth [of i "xs @ [0]" m ?e] that assms(3) by (simp add: add.assoc)
  have head: "?m (dest + of_nat i) = ds ! i \<and> ds ! i \<noteq> 0" if "i < length ds" for i
  proof -
    have "?m (dest + of_nat i) = m (dest + of_nat i)"
    proof (rule write_bytes_other)
      fix j
      assume "j < length (xs @ [0])"
      then show "dest + of_nat i \<noteq> ?e + of_nat j"
        using addr_inj [of i "length ds + j" dest] that assms(3) by (auto simp: add.assoc)
    qed
    then show ?thesis
      using str_at_nth [OF assms(2) that] by simp
  qed
  have "str_at ?m dest (ds @ xs)"
  proof (rule str_atI)
    show "?m (dest + of_nat i) = (ds @ xs) ! i \<and> (ds @ xs) ! i \<noteq> 0" if "i < length (ds @ xs)" for i
      using head [of i] tail [of "i - length ds"] that str_at_nonzero [OF assms(1)]
      by (cases "i < length ds") (auto simp: nth_append in_set_conv_nth)
    show "?m (dest + of_nat (length (ds @ xs))) = 0"
      using tail [of "length xs"] by (simp only: length_append) simp
  qed
  moreover have "?m b = m b" if "\<forall>i \<le> length ds + length xs. b \<noteq> dest + of_nat i" for b
  proof (rule write_bytes_other)
    fix i
    assume "i < length (xs @ [0])"
    with that [rule_format, of "length ds + i"] show "b \<noteq> ?e + of_nat i"
      by (simp add: add.assoc)
  qed
  ultimately show ?thesis
    using cat strcpy_loop_ok [OF assms(1) ap(1)] str_at_nonzero [OF assms(1)] assms(3)
      write_bytes_str_at [of xs m dest] by (auto simp: strcpy_def)
qed

definition str_example :: bmem where
  "str_example = (\<lambda>a. 0)(100 := 97, 101 := 98, 200 := 99)"

theorem strcpy_strcat_ok_witness:
  "\<exists>m'. strcat 200 100 str_example = Some (200, m') \<and> str_at m' 200 [99, 97, 98]"
proof -
  have s: "str_at str_example 100 [97, 98]" "str_at str_example 200 [99]"
    by (simp_all add: str_example_def)
  have "apart 100 (Suc (length [97 :: u8, 98])) 200 (Suc (length [99 :: u8] + length [97 :: u8, 98]))"
    by (rule apart_below) simp_all
  from strcpy_strcat_ok [OF s _ this] show ?thesis
    by simp blast
qed

text \<open>
  \<open>strncat\<close> with a count above the source's length writes two zero bytes after the source:
  it stores one byte more than its contract allows, past a buffer that just fits the result.
\<close>
lemma strncat_two_zeros:
  assumes "str_at m dest ds" "str_at m src xs" "length ds < 2 ^ 32 - 1"
    and "length xs < n" "n \<le> 2 ^ 31"
    and "apart src (Suc (length xs)) (dest + of_nat (length ds)) (Suc (length xs))"
  shows "strncat dest src (of_nat n) m =
    (dest, write_bytes m (dest + of_nat (length ds)) (xs @ [0, 0]))"
proof -
  have "write_bytes m a (xs @ [0, 0]) = (write_bytes m a (xs @ [0]))(a + of_nat (length xs) + 1 := 0)" for a
    by (simp add: write_bytes_append)
  then show ?thesis
    using strcat_target [OF assms(1,3)] strncat_loop_ok [OF assms(2,6,4,5)]
    by (auto simp: strncat_def)
qed

lemma strncat_two_zeros_witness:
  "snd (strncat 200 100 8 (str_example(204 := 42))) 204 = 0 \<and> str_at (str_example(204 := 42)) 100 [97, 98]"
proof -
  let ?m = "str_example(204 := 42)"
  have s: "str_at ?m 200 [99]" "str_at ?m 100 [97, 98]"
    by (simp_all add: str_example_def)
  have "apart 100 (Suc (length [97 :: u8, 98])) (200 + of_nat (length [99 :: u8])) (Suc (length [97 :: u8, 98]))"
    by (rule apart_below) simp_all
  from strncat_two_zeros [OF s _ _ _ this, of 8] s show ?thesis
    by (simp add: str_example_def)
qed

text \<open>
  \<open>strcmp\<close> ends on every pair of strings, is 0 exactly on equal ones, and on ASCII strings
  is negative exactly when the first precedes the second in dictionary order. On bytes from 128
  the comparison is of signed numbers, so that 128 comes before 97.
\<close>
theorem strcmp_ok:
  assumes "str_at m cs xs" "str_at m ct ys"
  shows "\<exists>r. strcmp cs ct m = Some r \<and> (r = 0 \<longleftrightarrow> xs = ys) \<and>
    ((\<forall>x \<in> set xs \<union> set ys. x < 128) \<longrightarrow> (r < 0 \<longleftrightarrow> ord_class.lexordp xs ys)) \<and>
    (xs = [128] \<longrightarrow> ys = [97] \<longrightarrow> r = - 1)"
proof (intro exI conjI impI)
  show "strcmp cs ct m = Some (cmp_bytes xs ys)"
    using assms by (simp add: strcmp_def strcmp_loop_eq)
  have nz: "0 \<notin> set xs" "0 \<notin> set ys"
    using assms str_at_nonzero by blast+
  then show "cmp_bytes xs ys = 0 \<longleftrightarrow> xs = ys"
    by (rule cmp_bytes_zero)
  assume "\<forall>x \<in> set xs \<union> set ys. x < 128"
  with nz show "cmp_bytes xs ys < 0 \<longleftrightarrow> ord_class.lexordp xs ys"
    by (intro cmp_bytes_ascii) (auto simp: word_neq_0_conv [symmetric])
qed (simp)

theorem strcmp_ok_witness: "\<exists>r. strcmp 100 200 str_example = Some r \<and> r \<noteq> 0 \<and> r < 0"
proof -
  have "str_at str_example 100 [97, 98]" "str_at str_example 200 [99]"
    by (simp_all add: str_example_def)
  from strcmp_ok [OF this] show ?thesis
    by auto
qed

lemma strspn_loops_eq:
  assumes "str_at m ct ys" "length ys < 2 ^ 32 - 1"
  shows "str_at m a xs \<Longrightarrow>
      strspn_loop m (strlen ct m) ct a = Some (a + of_nat (length (takeWhile (\<lambda>x. x \<in> set ys) xs)) + 1)"
    "str_at m a xs \<Longrightarrow>
      strcspn_loop m (strlen ct m) ct a = Some (a + of_nat (length (takeWhile (\<lambda>x. x \<notin> set ys) xs)) + 1)"
    "str_at m a xs \<Longrightarrow> strpbrk_loop m (strlen ct m) ct a =
      Some (if set xs \<inter> set ys = {} then 0 else a + of_nat (length (takeWhile (\<lambda>x. x \<notin> set ys) xs)))"
proof (induction xs arbitrary: a)
  case (Cons x xs)
  note s = scan_for_set [OF assms]
  {
    case 1
    with Cons.IH(1) [of "a + 1"] show ?case
      by (subst strspn_loop.simps) (auto simp: s)
  next
    case 2
    with Cons.IH(2) [of "a + 1"] show ?case
      by (subst strcspn_loop.simps) (auto simp: s)
  next
    case 3
    with Cons.IH(3) [of "a + 1"] show ?case
      by (subst strpbrk_loop.simps) (auto simp: s)
  }
next
  case Nil
  {
    case 1
    then show ?case
      by (subst strspn_loop.simps) simp
  next
    case 2
    then show ?case
      by (subst strcspn_loop.simps) simp
  next
    case 3
    then show ?case
      by (subst strpbrk_loop.simps) simp
  }
qed

text \<open>
  \<open>strspn\<close> and \<open>strcspn\<close> return the length of the longest prefix inside, or outside, the
  set of bytes of the second string, and \<open>strpbrk\<close> the address of the first byte inside it, or
  null; the empty second string included.
\<close>
theorem strspn_ok:
  assumes "str_at m cs xs" "str_at m ct ys" "length ys < 2 ^ 32 - 1"
  shows "strspn cs ct m = Some (of_nat (length (takeWhile (\<lambda>x. x \<in> set ys) xs))) \<and>
    strcspn cs ct m = Some (of_nat (length (takeWhile (\<lambda>x. x \<notin> set ys) xs))) \<and>
    strpbrk cs ct m = Some (if set xs \<inter> set ys = {} then 0
      else cs + of_nat (length (takeWhile (\<lambda>x. x \<notin> set ys) xs)))"
  using strspn_loops_eq [OF assms(2,3,1)] by (simp add: strspn_def strcspn_def strpbrk_def)

theorem strspn_ok_witness: "strcspn 100 200 str_example = Some 2 \<and> strpbrk 100 200 str_example = Some 0"
proof -
  have s: "str_at str_example 100 [97, 98]" "str_at str_example 200 [99]"
    by (simp_all add: str_example_def)
  from strspn_ok [OF s] show ?thesis
    by simp
qed

section \<open>Substrings\<close>

text \<open>The position of the first occurrence.\<close>

fun find_sub :: "u8 list \<Rightarrow> u8 list \<Rightarrow> nat option" where
  "find_sub ys [] = (if ys = [] then Some 0 else None)"
| "find_sub ys (x # xs) = (if take (length ys) (x # xs) = ys then Some 0 else map_option Suc (find_sub ys xs))"

lemma find_sub_short: "length xs < length ys \<Longrightarrow> find_sub ys xs = None"
proof (induction xs)
  case (Cons x xs)
  then have "take (length ys) (x # xs) \<noteq> ys"
    by (metis length_take min.strict_order_iff min_less_iff_conj nat_neq_iff)
  with Cons show ?case
    by simp
qed simp

text \<open>
  The comparison at one position: equal, or stopped at a byte of the first string, which is its
  terminator exactly when the rest of the string is a proper prefix of the searched one.
\<close>

lemma cmpsb_prefix:
  "str_at m a xs \<Longrightarrow> str_at m b ys \<Longrightarrow> length ys < 2 ^ 32 \<Longrightarrow> ys \<noteq> [] \<or> zf \<Longrightarrow>
   \<exists>e lt. repe_cmpsb m (of_nat (length ys)) a b zf l = (e, take (length ys) xs = ys, lt) \<and>
     (take (length ys) xs \<noteq> ys \<longrightarrow> (m (e - 1) = 0 \<longrightarrow> length xs < length ys) \<and>
        (m (e - 1) \<noteq> 0 \<longrightarrow> xs \<noteq> []))"
proof (induction ys arbitrary: a b xs zf l)
  case Nil
  then show ?case
    by (simp add: repe_cmpsb.simps)
next
  case (Cons y ys)
  have n: "of_nat (length (y # ys)) \<noteq> (0 :: u32)" "of_nat (length (y # ys)) - 1 = (of_nat (length ys) :: u32)"
    unfolding length_Cons using Cons.prems(3) by (intro of_nat_Suc_nonzero) simp_all
  show ?case
  proof (cases xs)
    case Nil
    with Cons.prems n show ?thesis
      by (subst repe_cmpsb.simps) auto
  next
    case (Cons x zs)
    show ?thesis
    proof (cases "x = y")
      case False
      with Cons Cons.prems n show ?thesis
        by (subst repe_cmpsb.simps) auto
    next
      case True
      with Cons Cons.prems Cons.IH [of "a + 1" zs "b + 1" True False]
      obtain e lt where "repe_cmpsb m (of_nat (length ys)) (a + 1) (b + 1) True False = (e, take (length ys) zs = ys, lt)"
        "take (length ys) zs \<noteq> ys \<longrightarrow> (m (e - 1) = 0 \<longrightarrow> length zs < length ys)"
        by auto
      with True Cons Cons.prems n show ?thesis
        by (subst repe_cmpsb.simps) (auto simp del: of_nat_Suc)
    qed
  qed
qed

lemma strstr_loop_eq:
  assumes "str_at m ct ys" "length ys < 2 ^ 32"
  shows "str_at m a xs \<Longrightarrow> zf \<longleftrightarrow> ys = [] \<Longrightarrow>
    strstr_loop m (of_nat (length ys)) ct a zf =
      Some (case find_sub ys xs of None \<Rightarrow> 0 | Some i \<Rightarrow> a + of_nat i)"
proof (induction xs arbitrary: a zf)
  case Nil
  then show ?case
    using cmpsb_prefix [OF Nil(1) assms, of zf False] by (subst strstr_loop.simps) auto
next
  case (Cons x xs)
  then obtain e lt where c: "repe_cmpsb m (of_nat (length ys)) a ct zf False = (e, take (length ys) (x # xs) = ys, lt)"
    "take (length ys) (x # xs) \<noteq> ys \<longrightarrow> (m (e - 1) = 0 \<longrightarrow> length (x # xs) < length ys)"
    using cmpsb_prefix [OF Cons.prems(1) assms, of zf False] by auto
  show ?case
  proof (cases "take (length ys) (x # xs) = ys")
    case True
    with c show ?thesis
      by (subst strstr_loop.simps) (simp del: take_Cons_numeral)
  next
    case False
    show ?thesis
    proof (cases "m (e - 1) = 0")
      case True
      with False c have "find_sub ys xs = None" "length (x # xs) < length ys"
        by (auto intro: find_sub_short)
      with True False c show ?thesis
        by (subst strstr_loop.simps) simp
    next
      case nz: False
      have "ys \<noteq> []"
        using False by auto
      then have "strstr_loop m (of_nat (length ys)) ct (a + 1) False =
          Some (case find_sub ys xs of None \<Rightarrow> 0 | Some i \<Rightarrow> a + 1 + of_nat i)"
        using Cons by simp
      with nz False c show ?thesis
        by (subst strstr_loop.simps) (auto split: option.split)
    qed
  qed
qed

lemma find_sub_correct:
  "find_sub ys xs = (if \<exists>i \<le> length xs. take (length ys) (drop i xs) = ys
     then Some (LEAST i. take (length ys) (drop i xs) = ys) else None)"
proof (induction xs)
  case (Cons x xs)
  let ?P = "\<lambda>i. take (length ys) (drop i (x # xs)) = ys"
  show ?case
  proof (cases "?P 0")
    case True
    then have "(LEAST i. ?P i) = 0"
      by (intro Least_equality) auto
    with True show ?thesis
      by (auto intro!: exI [of _ 0])
  next
    case False
    then have ex: "(\<exists>i \<le> length (x # xs). ?P i) \<longleftrightarrow> (\<exists>i \<le> length xs. take (length ys) (drop i xs) = ys)"
      by (metis Suc_le_mono drop_Suc_Cons length_Cons not0_implies_Suc)
    have "(LEAST i. ?P i) = Suc (LEAST i. ?P (Suc i))" if "?P (Suc j)" for j
      using that False by (rule Least_Suc)
    with ex False Cons show ?thesis
      by auto
  qed
qed simp

text \<open>
  C8. \<open>strstr\<close> ends on every pair of strings and returns the address of the first occurrence of
  the second in the first, or null where there is none; the empty string is found at the start.
\<close>
theorem strstr_ok:
  assumes "str_at m cs xs" "str_at m ct ys" "length ys < 2 ^ 32 - 1"
  shows "strstr cs ct m = Some
    (if \<exists>i \<le> length xs. take (length ys) (drop i xs) = ys
     then cs + of_nat (LEAST i. take (length ys) (drop i xs) = ys) else 0)"
proof -
  have "(of_nat (length ys) :: u32) = 0 \<longleftrightarrow> ys = []"
    using assms(3) of_nat_Suc_nonzero [of "length ys - 1"] by (cases ys) auto
  then show ?thesis
    using strstr_loop_eq [OF assms(2) _ assms(1)] strlen_eq [OF assms(2,3)] assms(3)
    by (auto simp: strstr_def Let_def find_sub_correct)
qed

theorem strstr_ok_witness: "strstr 100 200 (str_example(200 := 98)) = Some 101"
proof -
  let ?m = "str_example(200 := 98)"
  have s: "str_at ?m 100 [97, 98]" "str_at ?m 200 [98]"
    by (simp_all add: str_example_def)
  have "(LEAST i. take (length [98 :: u8]) (drop i [97 :: u8, 98]) = [98]) = 1"
  proof (rule Least_equality)
    fix i
    assume "take (length [98 :: u8]) (drop i [97 :: u8, 98]) = [98]"
    then show "1 \<le> i"
      by (cases i) auto
  qed simp
  with strstr_ok [OF s] show ?thesis
    by (auto intro: exI [of _ 1])
qed

section \<open>Tokens\<close>

lemma strtok_skip_eq:
  assumes "str_at m ct ys" "length ys < 2 ^ 32 - 1"
  shows "str_at m a xs \<Longrightarrow> \<exists>e. strtok_skip m (strlen ct m) ct a =
    Some (dropWhile (\<lambda>x. x \<in> set ys) xs \<noteq> [], e) \<and>
    (dropWhile (\<lambda>x. x \<in> set ys) xs \<noteq> [] \<longrightarrow> e = a + of_nat (length (takeWhile (\<lambda>x. x \<in> set ys) xs)) \<and>
       str_at m e (dropWhile (\<lambda>x. x \<in> set ys) xs))"
proof (induction xs arbitrary: a)
  case Nil
  then show ?case
    by (subst strtok_skip.simps) simp
next
  case (Cons x xs)
  with Cons.IH [of "a + 1"] show ?case
    by (subst strtok_skip.simps) (auto simp: scan_for_set [OF assms] add.assoc)
qed

lemma strtok_end_eq:
  assumes "str_at m ct ys" "length ys < 2 ^ 32 - 1"
  shows "str_at m a xs \<Longrightarrow> strtok_end m (strlen ct m) ct a =
    Some (let e = a + of_nat (length (takeWhile (\<lambda>x. x \<notin> set ys) xs))
          in if set xs \<inter> set ys = {} then (0, m) else (e + 1, m(e := 0)))"
proof (induction xs arbitrary: a)
  case Nil
  then show ?case
    by (subst strtok_end.simps) simp
next
  case (Cons x xs)
  with Cons.IH [of "a + 1"] show ?case
    by (subst strtok_end.simps) (auto simp: scan_for_set [OF assms] Let_def add.assoc)
qed

lemma str_at_append: "str_at m a (xs @ ys) \<longleftrightarrow>
    (\<forall>i < length xs. m (a + of_nat i) = xs ! i \<and> xs ! i \<noteq> 0) \<and> str_at m (a + of_nat (length xs)) ys"
proof (induction xs arbitrary: a)
  case (Cons x xs)
  show ?case
    unfolding append_Cons str_at.simps Cons length_Cons All_less_Suc2 suc_addr by auto
qed simp

text \<open>
  \<open>strtok\<close> on a string skips the delimiters in front, returns the token up to the next
  delimiter, ends it with a zero byte and remembers the byte after it; it returns null where only
  delimiters are left or the delimiter string is empty, and forgets the string at its end.
\<close>
theorem strtok_ok:
  assumes "str_at m s xs" "str_at m ct ys" "length ys < 2 ^ 32 - 1" "ys \<noteq> []"
    and "s \<noteq> 0" "unat s + length xs < 2 ^ 32"
    and "ts = dropWhile (\<lambda>x. x \<in> set ys) xs" "t = takeWhile (\<lambda>x. x \<notin> set ys) ts"
    and "r = s + of_nat (length xs - length ts)"
  shows "(ts = [] \<longrightarrow> strtok s ct tok m = Some (0, 0, m)) \<and>
    (ts \<noteq> [] \<longrightarrow> (\<exists>next m'. strtok s ct tok m = Some (r, next, m') \<and> str_at m' r t \<and>
       (if t = ts then next = 0 \<and> m' = m
        else next = r + of_nat (length t) + 1 \<and> str_at m' next (drop (Suc (length t)) ts))))"
proof -
  let ?n = "length (takeWhile (\<lambda>x. x \<in> set ys) xs)"
  have n: "length xs - length ts = ?n"
    using length_takeWhile_dropWhile [of "\<lambda>x. x \<in> set ys" xs] assms(7) by simp
  have "(of_nat (length ys) :: u32) \<noteq> 0"
    using assms(3,4) of_nat_Suc_nonzero [of "length ys - 1"] by (cases ys) auto
  then have len: "strlen ct m \<noteq> 0"
    using strlen_eq [OF assms(2,3)] by simp
  obtain e where e: "strtok_skip m (strlen ct m) ct s = Some (ts \<noteq> [], e)"
    "ts \<noteq> [] \<longrightarrow> e = s + of_nat ?n \<and> str_at m e ts"
    using strtok_skip_eq [OF assms(2,3,1)] assms(7) by auto
  show ?thesis
  proof (cases "ts = []")
    case True
    with e len assms(5) show ?thesis
      by (simp add: strtok_def Let_def)
  next
    case False
    with e n assms(9) have r: "e = r" "str_at m r ts"
      by auto
    have "?n \<le> length xs"
      by (rule length_takeWhile_le)
    with assms(5,6,9) n have "unat r = unat s + ?n"
      using unat_addr [of s ?n] by simp
    with assms(5) have r0: "r \<noteq> 0"
      by (metis add_is_0 unat_0 unat_eq_zero)
    have "hd ts \<notin> set ys"
      using False assms(7) hd_dropWhile [of "\<lambda>x. x \<in> set ys" xs] by simp
    with False assms(8) have t0: "t \<noteq> []"
      by (cases ts) auto
    have split: "ts = t @ dropWhile (\<lambda>x. x \<notin> set ys) ts"
      using assms(8) by simp
    have whole: "t = ts \<longleftrightarrow> set ts \<inter> set ys = {}"
      unfolding assms(8) takeWhile_eq_all_conv by auto
    let ?m = "if t = ts then m else m(r + of_nat (length t) := 0)"
    have lt: "length t \<le> length ts" "length ts \<le> length xs"
      unfolding assms(8,7) by (simp_all add: length_takeWhile_le length_dropWhile_le)
    have seen: "m (r + of_nat i) = t ! i \<and> t ! i \<noteq> 0" if "i < length t" for i
      using r(2) that split str_at_append by metis
    have tstr: "str_at ?m r t"
    proof (cases "t = ts")
      case False
      have "r + of_nat i \<noteq> r + of_nat (length t)" if "i < length t" for i
        using addr_inj [of i "length t" r] that lt assms(6) by auto
      with False seen show ?thesis
        by (intro str_atI) auto
    qed (use r in auto)
    have "?m r \<noteq> 0"
      using tstr t0 by (cases t) auto
    moreover have "strtok_end m (strlen ct m) ct r =
        Some (if t = ts then 0 else r + of_nat (length t) + 1, ?m)"
      using strtok_end_eq [OF assms(2,3) r(2)] whole by (simp add: Let_def assms(8) [symmetric])
    moreover have "strtok_skip m (strlen ct m) ct s = Some (True, r)"
      using e r False by simp
    ultimately have tok: "strtok s ct tok m = Some (r, if t = ts then 0 else r + of_nat (length t) + 1, ?m)"
      using r0 len assms(5) by (simp add: strtok_def Let_def del: fun_upd_apply)
    have rest: "str_at ?m (r + of_nat (length t) + 1) (drop (Suc (length t)) ts)" if ne: "t \<noteq> ts"
    proof -
      obtain d ds where ds: "dropWhile (\<lambda>x. x \<notin> set ys) ts = d # ds"
        using ne split by (cases "dropWhile (\<lambda>x. x \<notin> set ys) ts") simp_all
      then have ts: "ts = t @ d # ds"
        using split by simp
      then have s2: "str_at m (r + of_nat (length t) + 1) ds" and drop: "drop (Suc (length t)) ts = ds"
        and len_ts: "length ts = Suc (length t + length ds)"
        using r(2) str_at_append [of m r t "d # ds"] by simp_all
      have "r + of_nat (length t) + 1 + of_nat i \<noteq> r + of_nat (length t)" if "i \<le> length ds" for i
      proof -
        have "r + of_nat (Suc (length t + i)) \<noteq> r + of_nat (length t)"
          using addr_inj [of "Suc (length t + i)" "length t" r] that lt len_ts assms(6) by auto
        then show ?thesis
          by (simp add: add.assoc add.left_commute)
      qed
      with s2 drop that show ?thesis
        using str_at_upd [of ds "r + of_nat (length t) + 1" "r + of_nat (length t)" m 0] by simp
    qed
    show ?thesis
      using False tok tstr rest by auto
  qed
qed

theorem strtok_ok_witness:
  "\<exists>next m'. strtok 100 200 0 (str_example(100 := 99, 102 := 99, 103 := 100)) = Some (101, next, m') \<and>
     str_at m' 101 [98] \<and> next = 103 \<and> str_at m' 103 [100]"
proof -
  let ?m = "str_example(100 := 99, 102 := 99, 103 := 100)"
  have s: "str_at ?m 100 [99, 98, 99, 100]" "str_at ?m 200 [99]"
    by (simp_all add: str_example_def)
  from strtok_ok [OF s _ _ _ _ refl refl refl, of 0] show ?thesis
    by simp
qed

section \<open>Blocks\<close>

lemma movsb_forward:
  "(\<And>i j. i < j \<Longrightarrow> j < n \<Longrightarrow> s + of_nat j \<noteq> d + of_nat i) \<Longrightarrow> n < 2 ^ 32 \<Longrightarrow>
   rep_movsb m (of_nat n) s d 1 = write_bytes m d (map (\<lambda>i. m (s + of_nat i)) [0..<n])"
proof (induction n arbitrary: m s d)
  case (Suc n)
  have nz: "of_nat (Suc n) \<noteq> (0 :: u32)" "of_nat (Suc n) - 1 = (of_nat n :: u32)"
    using Suc.prems(2) by (intro of_nat_Suc_nonzero) simp_all
  let ?m = "m(d := m s)"
  have "s + 1 + of_nat j \<noteq> d + 1 + of_nat i" if "i < j" "j < n" for i j
    using Suc.prems(1) [of "Suc i" "Suc j"] that by (simp only: suc_addr) simp
  then have "rep_movsb ?m (of_nat n) (s + 1) (d + 1) 1 =
      write_bytes ?m (d + 1) (map (\<lambda>i. ?m (s + 1 + of_nat i)) [0..<n])"
    using Suc.prems(2) by (intro Suc.IH) (blast, simp)
  also have "map (\<lambda>i. ?m (s + 1 + of_nat i)) [0..<n] = map (\<lambda>i. m (s + of_nat i)) [Suc 0..<Suc n]"
  proof -
    have "?m (s + 1 + of_nat i) = m (s + of_nat (Suc i))" if "i < n" for i
      using Suc.prems(1) [of 0 "Suc i"] that unfolding suc_addr by simp
    then show ?thesis
      by (simp only: map_Suc_upt [symmetric] map_map) (simp add: o_def del: of_nat_Suc)
  qed
  also have "write_bytes ?m (d + 1) \<dots> = write_bytes m d (map (\<lambda>i. m (s + of_nat i)) [0..<Suc n])"
    by (simp del: upt_Suc fun_upd_apply add: upt_conv_Cons)
  finally show ?case
    using nz by (subst rep_movsb.simps) (simp only: if_False)
qed (simp add: rep_movsb.simps)

lemma write_bytes_upd:
  "(\<And>i. i < length xs \<Longrightarrow> b \<noteq> a + of_nat i) \<Longrightarrow> write_bytes (m(b := v)) a xs = (write_bytes m a xs)(b := v)"
proof (induction xs arbitrary: a m)
  case (Cons x xs)
  have "b \<noteq> a"
    using Cons.prems [of 0] by simp
  then have "(m(b := v))(a := x) = (m(a := x))(b := v)"
    by (rule fun_upd_twist)
  moreover have "b \<noteq> a + 1 + of_nat i" if "i < length xs" for i
    using Cons.prems [of "Suc i"] that by (simp only: suc_addr) simp
  ultimately show ?case
    using Cons.IH [of "a + 1" "m(a := x)"] by (simp del: fun_upd_apply)
qed simp

lemma movsb_backward:
  "(\<And>i j. i < j \<Longrightarrow> j < n \<Longrightarrow> s + of_nat i \<noteq> d + of_nat j) \<Longrightarrow> n < 2 ^ 32 \<Longrightarrow>
   rep_movsb m (of_nat n) (s + of_nat n - 1) (d + of_nat n - 1) (- 1) =
     write_bytes m d (map (\<lambda>i. m (s + of_nat i)) [0..<n])"
proof (induction n arbitrary: m)
  case (Suc n)
  have nz: "of_nat (Suc n) \<noteq> (0 :: u32)" "of_nat (Suc n) - 1 = (of_nat n :: u32)"
    using Suc.prems(2) by (intro of_nat_Suc_nonzero) simp_all
  let ?m = "m(d + of_nat n := m (s + of_nat n))"
  have "rep_movsb ?m (of_nat n) (s + of_nat n - 1) (d + of_nat n - 1) (- 1) =
      write_bytes ?m d (map (\<lambda>i. ?m (s + of_nat i)) [0..<n])"
    using Suc.prems by (intro Suc.IH) auto
  also have "map (\<lambda>i. ?m (s + of_nat i)) [0..<n] = map (\<lambda>i. m (s + of_nat i)) [0..<n]"
    using Suc.prems(1) [of _ n] by auto
  also have "write_bytes ?m d \<dots> = (write_bytes m d (map (\<lambda>i. m (s + of_nat i)) [0..<n]))(d + of_nat n := m (s + of_nat n))"
  proof (rule write_bytes_upd)
    fix i
    assume "i < length (map (\<lambda>i. m (s + of_nat i)) [0..<n])"
    then show "d + of_nat n \<noteq> d + of_nat i"
      using addr_inj [of n i d] Suc.prems(2) by auto
  qed
  also have "\<dots> = write_bytes m d (map (\<lambda>i. m (s + of_nat i)) [0..<Suc n])"
    by (simp add: write_bytes_append)
  moreover have "s + of_nat (Suc n) - 1 = s + of_nat n" "d + of_nat (Suc n) - 1 = d + of_nat n"
    "s + of_nat n + - 1 = s + of_nat n - 1" "d + of_nat n + - 1 = d + of_nat n - 1"
    by simp_all
  ultimately show ?case
    using nz by (subst rep_movsb.simps) (simp only: if_False)
qed (simp add: rep_movsb.simps)

text \<open>
  C9. \<open>memmove\<close> copies correctly whatever the overlap of the two blocks: afterwards the
  destination holds what the source held before, and nothing else has changed.
\<close>
theorem memmove_ok:
  assumes "unat src + n \<le> 2 ^ 32" "unat dest + n \<le> 2 ^ 32" "n < 2 ^ 32"
  shows "\<exists>m'. memmove dest src (of_nat n) m = (dest, m') \<and>
    (\<forall>i < n. m' (dest + of_nat i) = m (src + of_nat i)) \<and>
    (\<forall>b. (\<forall>i < n. b \<noteq> dest + of_nat i) \<longrightarrow> m' b = m b)"
proof -
  let ?xs = "map (\<lambda>i. m (src + of_nat i)) [0..<n]"
  have un: "unat (src + of_nat i) = unat src + i" "unat (dest + of_nat i) = unat dest + i" if "i < n" for i
    using that assms unat_addr [of src i] unat_addr [of dest i] by simp_all
  have res: "write_bytes m dest ?xs (dest + of_nat i) = m (src + of_nat i)" if "i < n" for i
    using write_bytes_nth [of i ?xs m dest] that assms(3) by simp
  have frame: "write_bytes m dest ?xs b = m b" if "\<forall>i < n. b \<noteq> dest + of_nat i" for b
    using that by (intro write_bytes_other) simp
  consider "dest = src \<or> n = 0" | "n \<noteq> 0" "dest < src" | "n \<noteq> 0" "src < dest"
    by (metis linorder_neqE)
  then show ?thesis
  proof cases
    case 1
    then show ?thesis
      by (intro exI [of _ m]) (auto simp: memmove_def)
  next
    case 2
    have "src + of_nat j \<noteq> dest + of_nat i" if "i < j" "j < n" for i j
    proof
      assume "src + of_nat j = dest + of_nat i"
      then have "unat src + j = unat dest + i"
        using un(1) [of j] un(2) [of i] that by simp
      with 2 that show False
        by (simp add: word_less_nat_alt)
    qed
    then have "rep_movsb m (of_nat n) src dest 1 = write_bytes m dest ?xs"
      using assms(3) by (rule movsb_forward)
    moreover have "of_nat n \<noteq> (0 :: u32)"
      using 2 assms(3) of_nat_Suc_nonzero [of "n - 1"] by (cases n) auto
    ultimately show ?thesis
      using 2 res frame by (intro exI [of _ "write_bytes m dest ?xs"]) (auto simp: memmove_def)
  next
    case 3
    have "src + of_nat i \<noteq> dest + of_nat j" if "i < j" "j < n" for i j
    proof
      assume "src + of_nat i = dest + of_nat j"
      then have "unat src + i = unat dest + j"
        using un(1) [of i] un(2) [of j] that by simp
      with 3 that show False
        by (simp add: word_less_nat_alt)
    qed
    then have "rep_movsb m (of_nat n) (src + of_nat n - 1) (dest + of_nat n - 1) (- 1) = write_bytes m dest ?xs"
      using assms(3) by (rule movsb_backward)
    moreover have "of_nat n \<noteq> (0 :: u32)"
      using 3 assms(3) of_nat_Suc_nonzero [of "n - 1"] by (cases n) auto
    ultimately show ?thesis
      using 3 res frame by (intro exI [of _ "write_bytes m dest ?xs"]) (auto simp: memmove_def)
  qed
qed

theorem memmove_ok_witness:
  "\<exists>m'. memmove 101 100 2 str_example = (101, m') \<and> m' 101 = 97 \<and> m' 102 = 98"
proof -
  from memmove_ok [of 100 2 101 str_example]
  obtain m' where m': "memmove 101 100 2 str_example = (101, m')"
    "\<forall>i < 2. m' (101 + of_nat i) = str_example (100 + of_nat i)"
    by auto
  from m'(2) [rule_format, of 0] m'(2) [rule_format, of 1] m'(1) show ?thesis
    by (simp add: str_example_def)
qed

end
