(* ===== verification/Pages.thy ===== *)
theory Pages
  imports Prelude
begin

text \<open>
  mm/swap.c and the page allocator of mm/memory.c: physical memory, the reference counts of its
  pages, the swap bitmap and the disk behind it.

  Physical memory is a function from byte addresses to 32-bit words and is only read and written
  at addresses divisible by 4; a page is its 1024 words. The page directory is at address 0, as
  head.s puts it. \<open>disk dev b\<close> is the 1024-byte block \<open>b\<close> of device \<open>dev\<close>, 256 words. The
  TLB is not modelled, so \<open>invalidate()\<close> is no step, and \<open>printk\<close> is not recorded.
\<close>

section \<open>State\<close>

record mm =
  mem :: "u32 \<Rightarrow> u32"
  mem_map :: "nat \<Rightarrow> u8"
  HIGH_MEMORY :: u32
  last_pages :: "nat \<Rightarrow> u32"
  swap_bitmap :: u32
  swap_device :: u32
  swap_file :: ptr
  dir_entry :: int
  page_entry :: int
  disk :: "u32 \<Rightarrow> u32 \<Rightarrow> nat \<Rightarrow> u32"
  swap_file_dev :: u32
  swap_bmap :: "u32 \<Rightarrow> u32"
  entry_zf :: bool

text \<open>
  The last three are what the code finds outside these files: the device of the swap file, its
  block map (\<open>bmap\<close>), and the processor's zero flag when the assembler scan of
  \<open>get_free_page\<close> is entered again, which the C text does not determine.
\<close>

definition LOW_MEM :: u32 where "LOW_MEM = 0x100000"
definition PAGING_MEMORY :: u32 where "PAGING_MEMORY = 15 * 1024 * 1024"
definition PAGING_PAGES :: nat where "PAGING_PAGES = 3840"
definition USED :: u8 where "USED = 100"
definition PAGE_DIRTY :: u32 where "PAGE_DIRTY = 0x40"
definition PAGE_PRESENT :: u32 where "PAGE_PRESENT = 1"
definition TASK_SIZE :: u32 where "TASK_SIZE = 0x04000000"
definition SWAP_BITS :: nat where "SWAP_BITS = 4096 * 8"
definition FIRST_VM_PAGE :: int where "FIRST_VM_PAGE = 0x04000000 div 4096"
definition VM_PAGES :: int where "VM_PAGES = 1024 * 1024 - FIRST_VM_PAGE"

definition MAP_NR :: "u32 \<Rightarrow> nat" where
  "MAP_NR addr = unat (drop_bit 12 (addr - LOW_MEM))"

definition frame :: "u32 \<Rightarrow> u32" where
  "frame x = x AND 0xfffff000"

definition write_word :: "u32 \<Rightarrow> u32 \<Rightarrow> 'a mm_scheme \<Rightarrow> 'a mm_scheme" where
  "write_word a v s = s\<lparr>mem := (mem s)(a := v)\<rparr>"

definition zero_page :: "u32 \<Rightarrow> 'a mm_scheme \<Rightarrow> 'a mm_scheme" where
  "zero_page p s = s\<lparr>mem := (\<lambda>a. if a - p < 4096 then 0 else mem s a)\<rparr>"

definition copy_page :: "u32 \<Rightarrow> u32 \<Rightarrow> 'a mm_scheme \<Rightarrow> 'a mm_scheme" where
  "copy_page from to s = s\<lparr>mem := (\<lambda>a. if a - to < 4096 then mem s (from + (a - to)) else mem s a)\<rparr>"

section \<open>Freeing a page\<close>

definition free_page :: "u32 \<Rightarrow> 'a mm_scheme \<Rightarrow> 'a mm_scheme" where
  "free_page addr s =
     (if addr < LOW_MEM then s
      else if addr < HIGH_MEMORY s then
        let i = unat (drop_bit 12 (addr - LOW_MEM))
        in if mem_map s i \<noteq> 0 then s\<lparr>mem_map := (mem_map s)(i := mem_map s i - 1)\<rparr>
           else s\<lparr>mem_map := (mem_map s)(i := 0)\<rparr>
      else s)"

section \<open>The swap bitmap and the swap device\<close>

text \<open>The bit-test instructions on memory: the old bit and the new state.\<close>

definition bit_word :: "u32 \<Rightarrow> nat \<Rightarrow> u32" where
  "bit_word addr nr = addr + 4 * of_nat (nr div 32)"

definition test_bit_at :: "u32 \<Rightarrow> nat \<Rightarrow> 'a mm_scheme \<Rightarrow> bool" where
  "test_bit_at addr nr s = bit (mem s (bit_word addr nr)) (nr mod 32)"

definition setbit :: "u32 \<Rightarrow> nat \<Rightarrow> 'a mm_scheme \<Rightarrow> bool \<times> 'a mm_scheme" where
  "setbit addr nr s =
     (test_bit_at addr nr s,
      write_word (bit_word addr nr) (set_bit (nr mod 32) (mem s (bit_word addr nr))) s)"

definition clrbit :: "u32 \<Rightarrow> nat \<Rightarrow> 'a mm_scheme \<Rightarrow> bool \<times> 'a mm_scheme" where
  "clrbit addr nr s =
     (test_bit_at addr nr s,
      write_word (bit_word addr nr) (unset_bit (nr mod 32) (mem s (bit_word addr nr))) s)"

datatype direction = READ | WRITE

text \<open>
  The transfer of \<open>ll_rw_page\<close> and \<open>ll_rw_swap_file\<close> once the driver has done it: the page at
  \<open>buf\<close> against the four blocks \<open>zones\<close> of the device.
\<close>

definition transfer_page :: "direction \<Rightarrow> u32 \<Rightarrow> (nat \<Rightarrow> u32) \<Rightarrow> u32 \<Rightarrow> 'a mm_scheme \<Rightarrow> 'a mm_scheme" where
  "transfer_page rw dev zones buf s =
     (case rw of
        READ \<Rightarrow> s\<lparr>mem := (\<lambda>a. let k = unat (a - buf) div 4 in
                   if a - buf < 4096 then disk s dev (zones (k div 256)) (k mod 256) else mem s a)\<rparr>
      | WRITE \<Rightarrow> s\<lparr>disk := (disk s)(dev := (\<lambda>b k.
                   case List.find (\<lambda>i. zones i = b) [3, 2, 1, 0] of
                     None \<Rightarrow> disk s dev b k
                   | Some i \<Rightarrow> if k < 256 then mem s (buf + 4 * of_nat (256 * i + k)) else disk s dev b k))\<rparr>)"

definition page_zones :: "u32 \<Rightarrow> nat \<Rightarrow> u32" where
  "page_zones nr i = 4 * nr + of_nat i"

definition rw_swap_page :: "direction \<Rightarrow> u32 \<Rightarrow> u32 \<Rightarrow> 'a mm_scheme \<Rightarrow> 'a mm_scheme" where
  "rw_swap_page rw nr buf s =
     (if swap_device s \<noteq> 0 then transfer_page rw (swap_device s) (page_zones nr) buf s
      else if swap_file s \<noteq> NULL then
        let zones = (\<lambda>i. swap_bmap s (push_bit 2 nr + of_nat i))
        in if zones 0 = 0 \<or> zones 1 = 0 \<or> zones 2 = 0 \<or> zones 3 = 0 then s
           else transfer_page rw (swap_file_dev s) zones buf s
      else s)"

function get_swap_page_loop :: "nat \<Rightarrow> 'a mm_scheme \<Rightarrow> nat \<times> 'a mm_scheme" where
  "get_swap_page_loop nr s =
     (if nr < SWAP_BITS then
        (case clrbit (swap_bitmap s) nr s of
           (old, s') \<Rightarrow> if old then (nr, s') else get_swap_page_loop (nr + 1) s')
      else (0, s))"
  by pat_completeness auto
termination
  by (relation "measure (\<lambda>(nr, s). SWAP_BITS - nr)") auto

declare get_swap_page_loop.simps [simp del]

definition get_swap_page :: "'a mm_scheme \<Rightarrow> nat \<times> 'a mm_scheme" where
  "get_swap_page s = (if swap_bitmap s = 0 then (0, s) else get_swap_page_loop 1 s)"

definition swap_free :: "int \<Rightarrow> 'a mm_scheme \<Rightarrow> 'a mm_scheme" where
  "swap_free swap_nr s =
     (if swap_nr = 0 then s
      else if swap_bitmap s \<noteq> 0 \<and> swap_nr < int SWAP_BITS
      then snd (setbit (swap_bitmap s) (nat swap_nr) s)
      else s)"

section \<open>Swapping out\<close>

definition try_to_swap_out :: "u32 \<Rightarrow> 'a mm_scheme \<Rightarrow> bool \<times> 'a mm_scheme" where
  "try_to_swap_out table_ptr s =
     (let page = mem s table_ptr
      in if PAGE_PRESENT AND page = 0 then (False, s)
         else if page - LOW_MEM > PAGING_MEMORY then (False, s)
         else if PAGE_DIRTY AND page \<noteq> 0 then
          (let page = frame page
           in if mem_map s (MAP_NR page) \<noteq> 1 then (False, s)
              else (case get_swap_page s of
                (swap_nr, s) \<Rightarrow>
                  if swap_nr = 0 then (False, s)
                  else let s = write_word table_ptr (push_bit 1 (of_nat swap_nr)) s;
                           s = rw_swap_page WRITE (of_nat swap_nr) page s
                       in (True, free_page page s)))
         else let page = frame page;
                  s = write_word table_ptr 0 s
              in (True, free_page page s))"

text \<open>
  \<open>swap_out\<close> is one loop with two positions: at label \<open>repeat\<close>, looking for the next page
  table, or inside a page table. \<open>counter\<close> bounds the pages looked at.
\<close>

datatype swap_pos = AtRepeat | InTable u32

function swap_out_loop :: "swap_pos \<Rightarrow> int \<Rightarrow> 'a mm_scheme \<Rightarrow> bool \<times> 'a mm_scheme" where
  "swap_out_loop AtRepeat counter s =
     (if counter > 0 then
        let counter = counter - 1024;
            s = s\<lparr>dir_entry := (if dir_entry s + 1 \<ge> 1024 then FIRST_VM_PAGE div 1024 else dir_entry s + 1)\<rparr>;
            pg_table = mem s (4 * of_int (dir_entry s))
        in if pg_table = 0 then swap_out_loop AtRepeat counter s
           else if counter \<le> 0 then (False, s)
           else if pg_table AND 1 = 0 then (False, s)
           else swap_out_loop (InTable (frame pg_table)) counter s
      else (False, s))"
| "swap_out_loop (InTable pg_table) counter s =
     (if counter > 0 then
        let counter = counter - 1;
            s = s\<lparr>page_entry := page_entry s + 1\<rparr>
        in if page_entry s \<ge> 1024 then swap_out_loop AtRepeat counter (s\<lparr>page_entry := - 1\<rparr>)
           else (case try_to_swap_out (pg_table + 4 * of_int (page_entry s)) s of
                   (True, s') \<Rightarrow> (True, s')
                 | (False, s') \<Rightarrow> swap_out_loop (InTable pg_table) counter s')
      else (False, s))"
  by pat_completeness auto
termination
  by (relation "measure (\<lambda>(p, c, s). nat c)") auto

declare swap_out_loop.simps [simp del]

definition swap_out :: "'a mm_scheme \<Rightarrow> bool \<times> 'a mm_scheme" where
  "swap_out s = swap_out_loop AtRepeat VM_PAGES s"

section \<open>Present pages shrink, so the allocator's retry ends\<close>

definition present :: "'a mm_scheme \<Rightarrow> u32 set" where
  "present s = {a. bit (mem s a) 0}"

lemma and_one_bit: "x AND 1 = 0 \<longleftrightarrow> \<not> bit x 0" "1 AND x = 0 \<longleftrightarrow> \<not> bit x 0" for x :: u32
  by (auto simp: and_one_eq one_and_eq bit_0 odd_iff_mod_2_eq_one)

lemma present_clrbit: "present (snd (clrbit addr nr s)) \<subseteq> present s"
  by (auto simp: present_def clrbit_def write_word_def bit_unset_bit_iff)

lemma present_get_swap_page_loop: "present (snd (get_swap_page_loop nr s)) \<subseteq> present s"
proof (induction nr s rule: get_swap_page_loop.induct)
  case (1 nr s)
  obtain old s' where c: "clrbit (swap_bitmap s) nr s = (old, s')"
    by fastforce
  then have "present s' \<subseteq> present s"
    using present_clrbit [of "swap_bitmap s" nr s] by simp
  moreover have "present (snd (get_swap_page_loop (nr + 1) s')) \<subseteq> present s'"
    if "nr < SWAP_BITS" "\<not> old"
    using 1 [OF that(1) c [symmetric] that(2)] .
  ultimately show ?case
    by (subst get_swap_page_loop.simps) (auto simp: c)
qed

lemma present_get_swap_page: "present (snd (get_swap_page s)) \<subseteq> present s"
  using present_get_swap_page_loop by (auto simp: get_swap_page_def)

lemma mem_free_page [simp]: "mem (free_page p s) = mem s"
  by (simp add: free_page_def Let_def)

lemma mem_write_swap [simp]: "mem (rw_swap_page WRITE nr p s) = mem s"
  by (simp add: rw_swap_page_def transfer_page_def Let_def)

lemma present_write_clear:
  "\<not> bit v 0 \<Longrightarrow> present (write_word a v s) = present s - {a}"
  by (auto simp: present_def write_word_def)

lemma present_cong: "mem s' = mem s \<Longrightarrow> present s' = present s"
  by (simp add: present_def)

lemma try_to_swap_out_present:
  assumes "try_to_swap_out a s = (r, s')"
  shows "present s' \<subseteq> present s \<and> (r \<longrightarrow> present s' \<subset> present s)"
proof (cases "bit (mem s a) 0")
  case True
  obtain n t where gs: "get_swap_page s = (n, t)"
    by fastforce
  have sub: "present t \<subseteq> present s"
    using present_get_swap_page [of s] gs by simp
  have a: "a \<in> present s"
    using True by (simp add: present_def)
  have ev: "\<not> bit (x * 2) 0" for x :: u32
    by (simp add: bit_0)
  have eq: "present (free_page p (rw_swap_page WRITE k q (write_word a v u))) = present u - {a}"
    "present (free_page p (write_word a v u)) = present u - {a}"
    if "\<not> bit v 0" for p k q v u
    using present_write_clear [OF that, of a u]
    by (simp_all only: present_def mem_free_page mem_write_swap)
  show ?thesis
    using assms gs sub a
    by (auto simp: try_to_swap_out_def Let_def eq ev split: if_splits)
next
  case False
  then show ?thesis
    using assms by (simp add: try_to_swap_out_def PAGE_PRESENT_def and_one_bit)
qed

lemma swap_out_loop_present:
  "swap_out_loop pos counter s = (r, s') \<Longrightarrow>
     present s' \<subseteq> present s \<and> (r \<longrightarrow> present s' \<subset> present s)"
proof (induction pos counter s rule: swap_out_loop.induct)
  case (1 counter s)
  define u where "u = s\<lparr>dir_entry := (if dir_entry s + 1 \<ge> 1024 then FIRST_VM_PAGE div 1024 else dir_entry s + 1)\<rparr>"
  define t where "t = mem u (4 * of_int (dir_entry u))"
  have u: "present u = present s"
    by (simp add: present_def u_def)
  show ?case
  proof (cases "0 < counter")
    case True
    have eq: "swap_out_loop AtRepeat counter s =
      (if t = 0 then swap_out_loop AtRepeat (counter - 1024) u
       else if counter - 1024 \<le> 0 then (False, u) else if t AND 1 = 0 then (False, u)
       else swap_out_loop (InTable (frame t)) (counter - 1024) u)"
      using True unfolding t_def u_def by (simp add: swap_out_loop.simps(1) [of counter s] Let_def)
    note a = "1.IH"(1) [OF True refl u_def t_def]
    note b = "1.IH"(2) [OF True refl u_def t_def]
    from a b "1.prems" show ?thesis
      using u unfolding eq by (auto split: if_splits)
  next
    case False
    with "1.prems" show ?thesis
      by (simp add: swap_out_loop.simps(1) [of counter s])
  qed
next
  case (2 t counter s)
  let ?s = "s\<lparr>page_entry := page_entry s + 1\<rparr>"
  have p: "present (s\<lparr>page_entry := k\<rparr>) = present s" "present (s\<lparr>page_entry := j, page_entry := k\<rparr>) = present s" for j k
    by (simp_all add: present_def)
  show ?case
  proof (cases "0 < counter \<and> \<not> 1024 \<le> page_entry ?s")
    case True
    obtain b u where b: "try_to_swap_out (t + 4 * of_int (page_entry ?s)) ?s = (b, u)"
      by fastforce
    from try_to_swap_out_present [OF this] p
    have u: "present u \<subseteq> present s" "b \<longrightarrow> present u \<subset> present s"
      by auto
    show ?thesis
    proof (cases b)
      case True
      with u b \<open>0 < counter \<and> \<not> 1024 \<le> page_entry ?s\<close> "2.prems" show ?thesis
        by (simp add: swap_out_loop.simps(2) [of t counter s] Let_def)
    next
      case False
      with b \<open>0 < counter \<and> \<not> 1024 \<le> page_entry ?s\<close> "2.prems"
      have "swap_out_loop (InTable t) (counter - 1) u = (r, s')"
        by (simp add: swap_out_loop.simps(2) [of t counter s] Let_def)
      with "2.IH"(2) [OF _ refl refl, of b u] b False \<open>0 < counter \<and> \<not> 1024 \<le> page_entry ?s\<close> u
      show ?thesis by auto
    qed
  next
    case False
    with "2.IH"(1) [OF _ refl refl] "2.prems" p show ?thesis
      by (simp only: swap_out_loop.simps(2) [of t counter s] Let_def Pair_inject split: if_splits) auto
  qed
qed

lemma swap_out_present: "swap_out s = (True, s') \<Longrightarrow> card (present s') < card (present s)"
  using swap_out_loop_present [of AtRepeat VM_PAGES s True s']
  by (auto simp: swap_out_def intro: psubset_card_mono)

section \<open>Allocating a page\<close>

text \<open>
  \<open>repne scasb\<close> from the last byte of \<open>mem_map\<close> down: the index of the first zero byte met.
\<close>

fun scan_map :: "(nat \<Rightarrow> u8) \<Rightarrow> nat \<Rightarrow> nat option" where
  "scan_map m 0 = None"
| "scan_map m (Suc i) = (if m i = 0 then Some i else scan_map m i)"

text \<open>
  Where \<open>movb $1,1(%edi)\<close> writes: a byte of \<open>mem_map\<close>, or the second byte of the word at an
  address in memory.
\<close>

datatype edi = MapEntry nat | Below u32

definition movb1 :: "edi \<Rightarrow> 'a mm_scheme \<Rightarrow> 'a mm_scheme" where
  "movb1 d s =
     (case d of
        MapEntry i \<Rightarrow> s\<lparr>mem_map := (mem_map s)(i := 1)\<rparr>
      | Below a \<Rightarrow> write_word a ((mem s a AND 0xffff00ff) OR 0x100) s)"

text \<open>
  The second and later passes over label \<open>repeat\<close>. The count register and the destination
  register are variables of the C function that the first pass has changed, so the count is 0,
  the scan compares nothing and the zero flag is what it was (\<open>entry_zf\<close>). When it is set the
  code goes on as if page 0 of the map had been found free.
\<close>

function get_free_page_again :: "edi \<Rightarrow> 'a mm_scheme \<Rightarrow> u32 \<times> 'a mm_scheme" where
  "get_free_page_again d s =
     (if entry_zf s then
        let s = zero_page LOW_MEM (movb1 d s) in (LOW_MEM, s)
      else (case swap_out s of
              (True, s') \<Rightarrow> get_free_page_again d s'
            | (False, s') \<Rightarrow> (0, s')))"
  by pat_completeness auto
termination
  by (relation "measure (\<lambda>(d, s). card (present s))") (auto dest: swap_out_present [OF sym])

declare get_free_page_again.simps [simp del]

text \<open>
  With \<open>HIGH_MEMORY\<close> at or below \<open>LOW_MEM\<close> no result is ever accepted and the C loop does not
  end; the model returns 0 there, and no property speaks of that case.
\<close>

definition get_free_page :: "'a mm_scheme \<Rightarrow> u32 \<times> 'a mm_scheme" where
  "get_free_page s =
     (if HIGH_MEMORY s \<le> LOW_MEM then (0, s)
      else (case scan_map (mem_map s) PAGING_PAGES of
        Some i \<Rightarrow>
          let result = LOW_MEM + push_bit 12 (of_nat i);
              s = zero_page result (movb1 (MapEntry i) s)
          in if result \<ge> HIGH_MEMORY s then get_free_page_again (Below (result - 4)) s
             else (result, s)
      | None \<Rightarrow>
          (case swap_out s of
             (True, s') \<Rightarrow> get_free_page_again (MapEntry 0) s'
           | (False, s') \<Rightarrow> (0, s'))))"

section \<open>Swapping in\<close>

definition oom :: "'a mm_scheme \<Rightarrow> ('r, 'a mm_scheme) outcome" where
  "oom s = DoExit SIGSEGV s"

definition swap_in :: "u32 \<Rightarrow> 'a mm_scheme \<Rightarrow> (unit, 'a mm_scheme) outcome" where
  "swap_in table_ptr s =
     (if swap_bitmap s = 0 then Ret () s
      else if 1 AND mem s table_ptr \<noteq> 0 then Ret () s
      else let swap_nr = drop_bit 1 (mem s table_ptr)
           in if swap_nr = 0 then Ret () s
              else (case get_free_page s of
                (page, s) \<Rightarrow>
                  if page = 0 then oom s
                  else let s = rw_swap_page READ swap_nr page s;
                           s = snd (setbit (swap_bitmap s) (unat swap_nr) s)
                       in Ret () (write_word table_ptr (page OR (PAGE_DIRTY OR 7)) s)))"

section \<open>Set-up\<close>

definition mem_init :: "int \<Rightarrow> int \<Rightarrow> 'a mm_scheme \<Rightarrow> 'a mm_scheme" where
  "mem_init start_mem end_mem s =
     (let i = MAP_NR (of_int start_mem);
          n = nat ((end_mem - start_mem) div 4096)
      in s\<lparr>swap_device := 0, swap_file := NULL, HIGH_MEMORY := of_int end_mem,
           mem_map := (\<lambda>k. if i \<le> k \<and> k < i + n then 0
                           else if k < PAGING_PAGES then USED else mem_map s k)\<rparr>)"

section \<open>Page numbers and addresses\<close>

definition page_addr :: "nat \<Rightarrow> u32" where
  "page_addr i = LOW_MEM + push_bit 12 (of_nat i)"

lemmas mm_consts = LOW_MEM_def PAGING_MEMORY_def PAGING_PAGES_def

lemma scan_map_Some:
  "scan_map m n = Some i \<longleftrightarrow> i < n \<and> m i = 0 \<and> (\<forall>j. i < j \<and> j < n \<longrightarrow> m j \<noteq> 0)"
  by (induction n) (auto simp: less_Suc_eq)

lemma scan_map_None: "scan_map m n = None \<longleftrightarrow> (\<forall>j < n. m j \<noteq> 0)"
  by (induction n) (auto simp: less_Suc_eq)

lemma unat_page_addr: "i < PAGING_PAGES \<Longrightarrow> unat (page_addr i) = 0x100000 + 4096 * i"
  by (simp add: page_addr_def mm_consts push_bit_eq_mult unat_word_ariths unat_of_nat)

lemma page_addr_LOW: "i < PAGING_PAGES \<Longrightarrow> LOW_MEM \<le> page_addr i"
  using unat_page_addr [of i] by (simp add: word_le_nat_alt mm_consts)

lemma MAP_NR_page_addr: "i < PAGING_PAGES \<Longrightarrow> MAP_NR (page_addr i) = i"
  by (simp add: MAP_NR_def page_addr_def mm_consts unat_drop_bit_eq push_bit_eq_mult
      drop_bit_eq_div unat_word_ariths unat_of_nat)

lemma page_addr_pos: "i < PAGING_PAGES \<Longrightarrow> page_addr i \<noteq> 0"
  using unat_page_addr [of i] by (metis add_is_0 unat_0 zero_neq_numeral)

lemma MAP_NR_bound:
  assumes "LOW_MEM \<le> p" "p < h" "h \<le> LOW_MEM + PAGING_MEMORY"
  shows "MAP_NR p < PAGING_PAGES" "page_addr (MAP_NR p) \<le> p"
proof -
  have p: "0x100000 \<le> unat p" "unat p < 0x1000000"
    using assms by (simp_all add: mm_consts word_le_nat_alt word_less_nat_alt)
  have "unat (p - LOW_MEM) = unat p - 0x100000"
    using assms(1) by (simp add: unat_sub mm_consts)
  then have m: "MAP_NR p = (unat p - 0x100000) div 4096"
    by (simp add: MAP_NR_def drop_bit_eq_div unat_div)
  with p show b: "MAP_NR p < PAGING_PAGES"
    by (simp add: mm_consts)
  have "unat (page_addr (MAP_NR p)) \<le> unat p"
    using unat_page_addr [OF b] p m by simp
  then show "page_addr (MAP_NR p) \<le> p"
    by (simp add: word_le_nat_alt)
qed

text \<open>
  The allocator's invariant: paging memory exists, fits the map, and every page at or above
  \<open>HIGH_MEMORY\<close> is marked in use.
\<close>

definition mm_ok :: "'a mm_scheme \<Rightarrow> bool" where
  "mm_ok s \<longleftrightarrow> LOW_MEM < HIGH_MEMORY s \<and> HIGH_MEMORY s \<le> LOW_MEM + PAGING_MEMORY \<and>
     (\<forall>i < PAGING_PAGES. mem_map s i = 0 \<longrightarrow> page_addr i < HIGH_MEMORY s)"

definition page_refs :: "'a mm_scheme \<Rightarrow> nat \<Rightarrow> nat" where
  "page_refs s i = unat (mem_map s i)"

definition paging_page :: "'a mm_scheme \<Rightarrow> u32 \<Rightarrow> bool" where
  "paging_page s p \<longleftrightarrow> LOW_MEM \<le> p \<and> p < HIGH_MEMORY s"

definition page_free :: "'a mm_scheme \<Rightarrow> bool" where
  "page_free s \<longleftrightarrow> mm_ok s \<and> (\<exists>i < PAGING_PAGES. mem_map s i = 0)"

lemma get_free_page_first:
  assumes "page_free s"
  obtains i where "i < PAGING_PAGES" "mem_map s i = 0" "\<forall>j. i < j \<and> j < PAGING_PAGES \<longrightarrow> mem_map s j \<noteq> 0"
    "paging_page s (page_addr i)"
    "get_free_page s = (page_addr i, zero_page (page_addr i) (s\<lparr>mem_map := (mem_map s)(i := 1)\<rparr>))"
proof -
  from assms obtain i where i: "scan_map (mem_map s) PAGING_PAGES = Some i"
    using scan_map_None [of "mem_map s" PAGING_PAGES] by (auto simp: page_free_def)
  then have i': "i < PAGING_PAGES" "mem_map s i = 0" "\<forall>j. i < j \<and> j < PAGING_PAGES \<longrightarrow> mem_map s j \<noteq> 0"
    by (simp_all add: scan_map_Some)
  with assms have h: "page_addr i < HIGH_MEMORY s" "\<not> HIGH_MEMORY s \<le> LOW_MEM"
    by (auto simp: page_free_def mm_ok_def)
  with i' page_addr_LOW have "paging_page s (page_addr i)"
    by (simp add: paging_page_def)
  moreover have "get_free_page s =
      (page_addr i, zero_page (page_addr i) (s\<lparr>mem_map := (mem_map s)(i := 1)\<rparr>))"
    using h(2) i h(1)[unfolded not_le [symmetric]]
    by (simp add: get_free_page_def movb1_def Let_def zero_page_def page_addr_def [symmetric])
  ultimately show thesis
    using that i' by blast
qed

lemma HIGH_MEMORY_free_page [simp]: "HIGH_MEMORY (free_page p s) = HIGH_MEMORY s"
  by (simp add: free_page_def Let_def)

lemma free_page_map:
  assumes "paging_page s p"
  shows "free_page p s = s\<lparr>mem_map := (mem_map s)(MAP_NR p := mem_map s (MAP_NR p) - (if mem_map s (MAP_NR p) = 0 then 0 else 1))\<rparr>"
  using assms by (auto simp: free_page_def paging_page_def MAP_NR_def Let_def not_less)

lemma unat_minus_one8: "x \<noteq> 0 \<Longrightarrow> unat (x - 1) = unat x - 1" for x :: u8
  by (simp add: unat_minus_one)

interpretation page_alloc: allocator get_free_page free_page MAP_NR page_refs paging_page page_free
proof unfold_locales
  fix s s' :: "'a mm_scheme" and p
  assume s: "page_free s" "get_free_page s = (p, s')"
  from s(1) obtain i where i: "i < PAGING_PAGES" "mem_map s i = 0" "paging_page s (page_addr i)"
    "get_free_page s = (page_addr i, zero_page (page_addr i) (s\<lparr>mem_map := (mem_map s)(i := 1)\<rparr>))"
    by (rule get_free_page_first)
  with s(2) have "p = page_addr i" "s' = zero_page p (s\<lparr>mem_map := (mem_map s)(i := 1)\<rparr>)"
    by auto
  with i show "paging_page s' p \<and> page_refs s (MAP_NR p) = 0 \<and> page_refs s' = (page_refs s)(MAP_NR p := 1)"
    by (simp add: fun_eq_iff page_refs_def zero_page_def paging_page_def MAP_NR_page_addr)
next
  fix s :: "'a mm_scheme" and p
  assume p: "paging_page s p" and r: "0 < page_refs s (MAP_NR p)"
  then have nz: "mem_map s (MAP_NR p) \<noteq> 0"
    unfolding page_refs_def by (intro notI) simp
  show "page_refs (free_page p s) = (page_refs s)(MAP_NR p := page_refs s (MAP_NR p) - 1)"
    using unat_minus_one8 [OF nz] nz by (intro ext) (simp add: free_page_map [OF p] page_refs_def)
qed

section \<open>The swap bitmap as an allocator\<close>

definition swap_slot_refs :: "'a mm_scheme \<Rightarrow> nat \<Rightarrow> nat" where
  "swap_slot_refs s n = (if 1 \<le> n \<and> n < SWAP_BITS then of_bool (\<not> test_bit_at (swap_bitmap s) n s) else 0)"

definition swap_slot_valid :: "'a mm_scheme \<Rightarrow> nat \<Rightarrow> bool" where
  "swap_slot_valid s n \<longleftrightarrow> swap_bitmap s \<noteq> 0 \<and> 1 \<le> n \<and> n < SWAP_BITS"

definition swap_slot_free :: "'a mm_scheme \<Rightarrow> bool" where
  "swap_slot_free s \<longleftrightarrow> swap_bitmap s \<noteq> 0 \<and> (\<exists>n. 1 \<le> n \<and> n < SWAP_BITS \<and> test_bit_at (swap_bitmap s) n s)"

lemma bit_word_inj:
  assumes "m < SWAP_BITS" "n < SWAP_BITS" "bit_word a m = bit_word a n"
  shows "m div 32 = n div 32"
proof -
  have "(of_nat (4 * (m div 32)) :: u32) = of_nat (4 * (n div 32))"
    using assms(3) by (simp add: bit_word_def)
  then have "4 * (m div 32) mod 2 ^ 32 = 4 * (n div 32) mod 2 ^ 32"
    by (simp only: word_of_nat_eq_iff take_bit_eq_mod len_of_numeral_defs) simp
  moreover have "4 * (m div 32) < 2 ^ 32" "4 * (n div 32) < 2 ^ 32"
    using assms(1,2) by (simp_all add: SWAP_BITS_def)
  ultimately show ?thesis
    by simp
qed

lemma test_bit_set_unset:
  assumes "n < SWAP_BITS" "m < SWAP_BITS"
  shows "test_bit_at a m (write_word (bit_word a n) (unset_bit (n mod 32) (mem s (bit_word a n))) s)
      \<longleftrightarrow> m \<noteq> n \<and> test_bit_at a m s"
    "test_bit_at a m (write_word (bit_word a n) (set_bit (n mod 32) (mem s (bit_word a n))) s)
      \<longleftrightarrow> m = n \<or> test_bit_at a m s"
proof -
  have 1: "m = n" if "bit_word a m = bit_word a n" "m mod 32 = n mod 32"
    using bit_word_inj [OF assms(2,1) that(1)] that(2) by (metis mult_div_mod_eq)
  have 2: "m mod 32 < 32"
    by simp
  show "test_bit_at a m (write_word (bit_word a n) (unset_bit (n mod 32) (mem s (bit_word a n))) s)
      \<longleftrightarrow> m \<noteq> n \<and> test_bit_at a m s"
    using 1 by (cases "bit_word a m = bit_word a n")
      (auto simp: test_bit_at_def write_word_def bit_unset_bit_iff)
  show "test_bit_at a m (write_word (bit_word a n) (set_bit (n mod 32) (mem s (bit_word a n))) s)
      \<longleftrightarrow> m = n \<or> test_bit_at a m s"
  proof (cases "bit_word a m = bit_word a n")
    case True
    have "bit (set_bit (n mod 32) w) (m mod 32) \<longleftrightarrow> m mod 32 = n mod 32 \<or> bit w (m mod 32)" for w :: u32
      using 2 by (auto simp: bit_set_bit_iff exp_eq_0_imp_not_bit)
    with True 1 show ?thesis
      by (simp add: test_bit_at_def write_word_def) metis
  next
    case False
    then show ?thesis
      by (auto simp: test_bit_at_def write_word_def)
  qed
qed

lemma clrbit_unset: "\<not> test_bit_at a n s \<Longrightarrow> clrbit a n s = (False, s)"
proof -
  assume "\<not> test_bit_at a n s"
  then have "unset_bit (n mod 32) (mem s (bit_word a n)) = mem s (bit_word a n)"
    by (intro bit_eqI) (auto simp: test_bit_at_def bit_unset_bit_iff)
  with \<open>\<not> test_bit_at a n s\<close> show ?thesis
    by (simp add: clrbit_def write_word_def)
qed

text \<open>The search finds the lowest free swap page and takes exactly that one.\<close>

lemma get_swap_page_loop_found:
  assumes "test_bit_at (swap_bitmap s) m s" "n \<le> m" "m < SWAP_BITS"
    "\<forall>k. n \<le> k \<and> k < m \<longrightarrow> \<not> test_bit_at (swap_bitmap s) k s"
  shows "get_swap_page_loop n s = (m, snd (clrbit (swap_bitmap s) m s))"
  using assms
proof (induction "m - n" arbitrary: n)
  case 0
  then show ?case
    by (simp add: get_swap_page_loop.simps clrbit_def)
next
  case (Suc d)
  then have "\<not> test_bit_at (swap_bitmap s) n s" "n < SWAP_BITS"
    by auto
  with Suc show ?case
    by (simp add: get_swap_page_loop.simps [of n] clrbit_unset)
qed

lemma get_swap_page_loop_none:
  "(\<forall>k. n \<le> k \<and> k < SWAP_BITS \<longrightarrow> \<not> test_bit_at (swap_bitmap s) k s) \<Longrightarrow>
   get_swap_page_loop n s = (0, s)"
proof (induction "SWAP_BITS - n" arbitrary: n)
  case 0
  then show ?case
    by (simp add: get_swap_page_loop.simps)
next
  case (Suc d)
  then have "\<not> test_bit_at (swap_bitmap s) n s" "n < SWAP_BITS"
    by auto
  with Suc show ?case
    by (simp add: get_swap_page_loop.simps [of n] clrbit_unset)
qed

lemma get_swap_page_first:
  assumes "swap_slot_free s"
  obtains n where "1 \<le> n" "n < SWAP_BITS" "test_bit_at (swap_bitmap s) n s"
    "\<forall>k. 1 \<le> k \<and> k < n \<longrightarrow> \<not> test_bit_at (swap_bitmap s) k s"
    "get_swap_page s = (n, snd (clrbit (swap_bitmap s) n s))"
proof -
  let ?P = "\<lambda>n. 1 \<le> n \<and> n < SWAP_BITS \<and> test_bit_at (swap_bitmap s) n s"
  define n where "n = (LEAST n. ?P n)"
  have ex: "\<exists>n. ?P n"
    using assms by (simp add: swap_slot_free_def)
  then have n: "?P n"
    unfolding n_def by (rule LeastI_ex)
  have least: "\<not> test_bit_at (swap_bitmap s) k s" if "1 \<le> k" "k < n" for k
    using not_less_Least [of k ?P] that n by (auto simp: n_def)
  with n have "get_swap_page s = (n, snd (clrbit (swap_bitmap s) n s))"
    using assms get_swap_page_loop_found [of s n 1] by (simp add: get_swap_page_def swap_slot_free_def)
  with that n least show thesis
    by blast
qed

interpretation swap_alloc: allocator get_swap_page "\<lambda>n. swap_free (int n)" "\<lambda>n. n"
  swap_slot_refs swap_slot_valid swap_slot_free
proof unfold_locales
  fix s s' :: "'a mm_scheme" and n
  assume s: "swap_slot_free s" "get_swap_page s = (n, s')"
  from s(1) obtain m where m: "1 \<le> m" "m < SWAP_BITS" "test_bit_at (swap_bitmap s) m s"
    "get_swap_page s = (m, snd (clrbit (swap_bitmap s) m s))"
    by (rule get_swap_page_first)
  with s(2) have "n = m" "s' = write_word (bit_word (swap_bitmap s) n) (unset_bit (n mod 32) (mem s (bit_word (swap_bitmap s) n))) s"
    by (auto simp: clrbit_def)
  moreover from this(2) have "swap_bitmap s' = swap_bitmap s"
    by (simp add: write_word_def)
  ultimately show "swap_slot_valid s' n \<and> swap_slot_refs s n = 0 \<and> swap_slot_refs s' = (swap_slot_refs s)(n := 1)"
    using m s(1) by (auto simp: fun_eq_iff swap_slot_refs_def swap_slot_valid_def swap_slot_free_def test_bit_set_unset)
next
  fix s :: "'a mm_scheme" and n
  assume s: "swap_slot_valid s n" "0 < swap_slot_refs s n"
  let ?t = "write_word (bit_word (swap_bitmap s) n) (set_bit (n mod 32) (mem s (bit_word (swap_bitmap s) n))) s"
  have t: "swap_free (int n) s = ?t" "swap_bitmap ?t = swap_bitmap s"
    using s(1) by (simp_all add: swap_free_def setbit_def swap_slot_valid_def write_word_def)
  show "swap_slot_refs (swap_free (int n) s) = (swap_slot_refs s)(n := swap_slot_refs s n - 1)"
    using s unfolding t by (auto simp: fun_eq_iff swap_slot_refs_def swap_slot_valid_def t test_bit_set_unset split: if_splits)
qed

section \<open>The allocator's invariant\<close>

lemma mm_ok_cong:
  "HIGH_MEMORY s' = HIGH_MEMORY s \<Longrightarrow> mem_map s' = mem_map s \<Longrightarrow> mm_ok s' = mm_ok s"
  by (simp add: mm_ok_def)

lemma mm_ok_write_word [simp]: "mm_ok (write_word a v s) = mm_ok s"
  by (rule mm_ok_cong) (simp_all add: write_word_def)

lemma mm_ok_zero_page [simp]: "mm_ok (zero_page p s) = mm_ok s"
  by (rule mm_ok_cong) (simp_all add: zero_page_def)

lemma mm_ok_copy_page [simp]: "mm_ok (copy_page p q s) = mm_ok s"
  by (rule mm_ok_cong) (simp_all add: copy_page_def)

lemma mm_ok_setbit [simp]: "mm_ok (snd (setbit a n s)) = mm_ok s"
  by (simp add: setbit_def)

lemma mm_ok_clrbit [simp]: "mm_ok (snd (clrbit a n s)) = mm_ok s"
  by (simp add: clrbit_def)

lemma mm_ok_swap_free [simp]: "mm_ok (swap_free n s) = mm_ok s"
  by (simp add: swap_free_def)

lemma mm_ok_rw_swap_page [simp]: "mm_ok (rw_swap_page rw nr p s) = mm_ok s"
  by (rule mm_ok_cong) (simp_all add: rw_swap_page_def transfer_page_def Let_def split: direction.split)

lemma mm_ok_free_page:
  assumes s: "mm_ok s"
  shows "mm_ok (free_page p s)"
proof (cases "paging_page s p")
  case True
  with s have "page_addr (MAP_NR p) < HIGH_MEMORY s"
    using MAP_NR_bound [of p "HIGH_MEMORY s"] by (auto simp: mm_ok_def paging_page_def)
  with s show ?thesis
    by (auto simp: mm_ok_def free_page_map [OF True])
next
  case False
  with s show ?thesis
    by (auto simp: free_page_def paging_page_def not_less)
qed

lemma mm_ok_get_swap_page [simp]: "mm_ok (snd (get_swap_page s)) = mm_ok s"
proof -
  have "mm_ok (snd (get_swap_page_loop n s)) = mm_ok s" for n
  proof (induction n s rule: get_swap_page_loop.induct)
    case (1 n s)
    obtain old s' where c: "clrbit (swap_bitmap s) n s = (old, s')"
      by fastforce
    with mm_ok_clrbit [of "swap_bitmap s" n s] have "mm_ok s' = mm_ok s"
      by simp
    with 1 c show ?case
      by (subst get_swap_page_loop.simps) simp
  qed
  then show ?thesis
    by (simp add: get_swap_page_def)
qed

lemma mm_ok_try_to_swap_out: "mm_ok s \<Longrightarrow> mm_ok (snd (try_to_swap_out a s))"
  using mm_ok_get_swap_page [of s]
  by (cases "get_swap_page s") (auto simp: try_to_swap_out_def Let_def intro!: mm_ok_free_page)





section \<open>Swapping a page out and in again\<close>

lemma disk_after_write:
  assumes "swap_device s \<noteq> 0" "i < 4" "k < 256"
  shows "disk (rw_swap_page WRITE nr p s) (swap_device s) (page_zones nr i) k =
    mem s (p + 4 * of_nat (256 * i + k))"
proof -
  have z: "page_zones nr j = page_zones nr i \<longleftrightarrow> j = i" if "j < 4" for j
  proof -
    have "i \<in> {0, 1, 2, 3}" "j \<in> {0, 1, 2, 3}"
      using assms that by auto
    then show ?thesis
      by (auto simp: page_zones_def)
  qed
  have "List.find (\<lambda>j. page_zones nr j = page_zones nr i) [3, 2, 1, 0] = Some i"
    using assms(2) z [of 0] z [of 1] z [of 2] z [of 3] by auto
  with assms show ?thesis
    by (simp add: rw_swap_page_def transfer_page_def)
qed

lemma mem_after_read:
  assumes "swap_device s \<noteq> 0" "k < 1024"
  shows "mem (rw_swap_page READ nr p s) (p + 4 * of_nat k) =
    disk s (swap_device s) (page_zones nr (k div 256)) (k mod 256)"
proof -
  have "unat (4 * of_nat k :: u32) = 4 * k"
    using assms(2) by (simp add: unat_word_ariths unat_of_nat)
  then show ?thesis
    using assms by (simp add: rw_swap_page_def transfer_page_def word_less_nat_alt)
qed

lemma rw_swap_page_frame [simp]:
  "disk (rw_swap_page READ nr p s) = disk s" "swap_device (rw_swap_page rw nr p s) = swap_device s"
  "swap_bitmap (rw_swap_page rw nr p s) = swap_bitmap s" "mem_map (rw_swap_page rw nr p s) = mem_map s"
  "HIGH_MEMORY (rw_swap_page rw nr p s) = HIGH_MEMORY s"
  by (simp_all add: rw_swap_page_def transfer_page_def Let_def split: direction.split)

lemma write_word_frame [simp]:
  "mem (write_word a v s) = (mem s)(a := v)" "disk (write_word a v s) = disk s"
  "swap_device (write_word a v s) = swap_device s" "swap_bitmap (write_word a v s) = swap_bitmap s"
  "mem_map (write_word a v s) = mem_map s" "HIGH_MEMORY (write_word a v s) = HIGH_MEMORY s"
  by (simp_all add: write_word_def)

lemma zero_page_frame [simp]:
  "disk (zero_page p s) = disk s" "swap_device (zero_page p s) = swap_device s"
  "swap_bitmap (zero_page p s) = swap_bitmap s" "mem_map (zero_page p s) = mem_map s"
  "HIGH_MEMORY (zero_page p s) = HIGH_MEMORY s"
  by (simp_all add: zero_page_def)

lemma free_page_frame [simp]:
  "disk (free_page p s) = disk s" "swap_device (free_page p s) = swap_device s"
  "swap_bitmap (free_page p s) = swap_bitmap s"
  by (simp_all add: free_page_def Let_def)

text \<open>Addresses that lie in no free page: page tables and the bitmap in use.\<close>

definition held :: "'a mm_scheme \<Rightarrow> u32 \<Rightarrow> bool" where
  "held s a \<longleftrightarrow> (\<forall>i < PAGING_PAGES. a - page_addr i < 4096 \<longrightarrow> mem_map s i \<noteq> 0)"

lemma page_addr_MAP_NR:
  assumes "LOW_MEM \<le> frame x" "frame x < h" "h \<le> LOW_MEM + PAGING_MEMORY"
  shows "page_addr (MAP_NR (frame x)) = frame x"
proof -
  have m: "x AND NOT (mask n) = push_bit n (drop_bit n x)" for n
    by (auto intro!: bit_eqI simp: bit_simps)
  have "0xfffff000 = NOT (mask 12 :: u32)"
    by (simp add: mask_eq_exp_minus_1)
  then have f: "frame x = push_bit 12 (drop_bit 12 x)"
    by (simp only: frame_def m)
  have p: "0x100000 \<le> unat (frame x)"
    using assms(1) by (simp add: mm_consts word_le_nat_alt)
  have d: "unat (frame x) = 4096 * (unat x div 4096)"
  proof -
    have "4096 * (unat x div 4096) < 2 ^ 32"
      using unat32_bound [of x] by (intro le_less_trans [OF _ unat32_bound [of x]]) simp
    then show ?thesis
      by (simp add: f push_bit_eq_mult drop_bit_eq_div unat_word_ariths unat_div)
  qed
  have "unat (frame x - LOW_MEM) = unat (frame x) - 0x100000"
    using assms(1) by (simp add: unat_sub mm_consts)
  then have "MAP_NR (frame x) = (unat (frame x) - 0x100000) div 4096"
    by (simp add: MAP_NR_def drop_bit_eq_div unat_div)
  then have "unat (page_addr (MAP_NR (frame x))) = unat (frame x)"
    using unat_page_addr [OF MAP_NR_bound(1) [OF assms]] p d by simp
  then show ?thesis
    by (rule unsigned_word_eqI)
qed

lemma free_page_last:
  assumes "paging_page s p" "mem_map s (MAP_NR p) = 1"
  shows "free_page p s = s\<lparr>mem_map := (mem_map s)(MAP_NR p := 0)\<rparr>"
  using assms by (simp add: free_page_map)

text \<open>The state that swapping out a dirty page leaves behind.\<close>

lemma try_to_swap_out_dirty:
  assumes "mm_ok s" "PAGE_PRESENT AND mem s a \<noteq> 0" "PAGE_DIRTY AND mem s a \<noteq> 0"
    "paging_page s (frame (mem s a))" "\<not> mem s a - LOW_MEM > PAGING_MEMORY"
    "mem_map s (MAP_NR (frame (mem s a))) = 1" "swap_slot_free s"
  obtains n where "1 \<le> n" "n < SWAP_BITS" "test_bit_at (swap_bitmap s) n s"
    "try_to_swap_out a s = (True, free_page (frame (mem s a)) (rw_swap_page WRITE (of_nat n) (frame (mem s a))
        (write_word a (push_bit 1 (of_nat n)) (snd (clrbit (swap_bitmap s) n s)))))"
proof -
  obtain n where n: "1 \<le> n" "n < SWAP_BITS" "test_bit_at (swap_bitmap s) n s"
    "get_swap_page s = (n, snd (clrbit (swap_bitmap s) n s))"
    by (rule get_swap_page_first [OF assms(7)])
  then show thesis
    using that assms(2,3,5,6) by (simp add: try_to_swap_out_def Let_def)
qed

lemma test_bit_at_cong:
  "mem s (bit_word a n) = mem t (bit_word a n) \<Longrightarrow> test_bit_at a n s = test_bit_at a n t"
  by (simp add: test_bit_at_def)

lemma mem_outside_page:
  assumes "\<not> b - q < 4096"
  shows "mem (rw_swap_page READ nr q s) b = mem s b" "mem (zero_page q s) b = mem s b"
  using assms by (simp_all add: rw_swap_page_def transfer_page_def zero_page_def Let_def)

lemma swap_entry:
  assumes "1 \<le> n" "n < SWAP_BITS"
  shows "1 AND push_bit 1 (of_nat n :: u32) = 0" "drop_bit 1 (push_bit 1 (of_nat n :: u32)) = of_nat n"
    "(of_nat n :: u32) \<noteq> 0" "unat (of_nat n :: u32) = n"
proof -
  show u: "unat (of_nat n :: u32) = n"
    using assms by (simp add: SWAP_BITS_def unat_of_nat)
  show "1 AND push_bit 1 (of_nat n :: u32) = 0"
    by (simp add: and_one_bit bit_0 push_bit_eq_mult del: push_bit_of_nat)
  have "(of_nat n :: u32) < 2 ^ 31"
    using assms u by (simp add: word_less_nat_alt SWAP_BITS_def)
  then show "drop_bit 1 (push_bit 1 (of_nat n :: u32)) = of_nat n"
    by (intro unsigned_word_eqI [where 'a = nat]) (use u assms in \<open>simp add: drop_bit_eq_div push_bit_eq_mult unat_div unat_word_ariths SWAP_BITS_def del: push_bit_of_nat\<close>)
  show "(of_nat n :: u32) \<noteq> 0"
    using u assms by (metis not_one_le_zero unat_0)
qed

text \<open>Where the new page lies, when the old one was the only page freed.\<close>

lemma held_apart:
  assumes "held s b" "\<not> b - p < 4096" "page_addr (MAP_NR p) = p"
    "i < PAGING_PAGES" "((mem_map s)(MAP_NR p := 0)) i = 0"
  shows "\<not> b - page_addr i < 4096"
  using assms by (cases "i = MAP_NR p") (auto simp: held_def)

section \<open>Properties\<close>

text \<open>
  C4. A dirty page that nobody else maps goes to a free swap slot and comes back on the next
  fault: the entry then maps a paging page with exactly the old 1024 words, the slot is free
  again, and the old page was released in between.
\<close>
theorem swap_out_in_roundtrip:
  assumes s: "mm_ok s" "swap_device s \<noteq> 0" "swap_slot_free s"
    and entry: "PAGE_PRESENT AND mem s a \<noteq> 0" "PAGE_DIRTY AND mem s a \<noteq> 0"
    and page: "p = frame (mem s a)" "paging_page s p" "\<not> mem s a - LOW_MEM > PAGING_MEMORY"
      "mem_map s (MAP_NR p) = 1"
    and apart: "held s a" "\<not> a - p < 4096"
      "\<And>n. n < SWAP_BITS \<Longrightarrow> held s (bit_word (swap_bitmap s) n) \<and>
         \<not> bit_word (swap_bitmap s) n - p < 4096 \<and> bit_word (swap_bitmap s) n \<noteq> a"
  shows "\<exists>s1 s2 q. try_to_swap_out a s = (True, s1) \<and> mem_map s1 (MAP_NR p) = 0 \<and>
    swap_in a s1 = Ret () s2 \<and> paging_page s2 q \<and> mem s2 a = q OR (PAGE_DIRTY OR 7) \<and>
    (\<forall>k < 1024. mem s2 (q + 4 * of_nat k) = mem s (p + 4 * of_nat k)) \<and>
    swap_slot_refs s2 = swap_slot_refs s"
proof -
  let ?b = "swap_bitmap s"
  obtain n where n: "1 \<le> n" "n < SWAP_BITS" "test_bit_at ?b n s"
    "try_to_swap_out a s = (True, free_page p (rw_swap_page WRITE (of_nat n) p
        (write_word a (push_bit 1 (of_nat n)) (snd (clrbit ?b n s)))))"
    using try_to_swap_out_dirty [OF s(1) entry page(2) [unfolded page(1)] page(3)
      page(4) [unfolded page(1)] s(3)] unfolding page(1) [symmetric] by blast
  define u where "u = write_word a (push_bit 1 (of_nat n)) (snd (clrbit ?b n s))"
  define s1 where "s1 = free_page p (rw_swap_page WRITE (of_nat n) p u)"
  have u: "mem_map u = mem_map s" "HIGH_MEMORY u = HIGH_MEMORY s" "swap_bitmap u = ?b"
    "swap_device u = swap_device s" "mem u a = push_bit 1 (of_nat n)"
    by (simp_all add: u_def clrbit_def)
  have out: "try_to_swap_out a s = (True, s1)"
    using n(4) by (simp add: s1_def u_def)
  have pm: "page_addr (MAP_NR p) = p" "MAP_NR p < PAGING_PAGES"
    using page(1,2) s(1) page_addr_MAP_NR [of "mem s a" "HIGH_MEMORY s"]
      MAP_NR_bound [of p "HIGH_MEMORY s"] by (auto simp: mm_ok_def paging_page_def)
  have map1: "mem_map s1 = (mem_map s)(MAP_NR p := 0)"
    using page(2,4) u unfolding s1_def by (subst free_page_last) (simp_all add: paging_page_def)
  have ok1: "mm_ok s1"
    using mm_ok_try_to_swap_out [OF s(1), of a] out by simp
  then have "page_free s1"
    using pm map1 by (auto simp: page_free_def)
  then obtain i where i: "i < PAGING_PAGES" "mem_map s1 i = 0" "paging_page s1 (page_addr i)"
    "get_free_page s1 = (page_addr i, zero_page (page_addr i) (s1\<lparr>mem_map := (mem_map s1)(i := 1)\<rparr>))"
    by (rule get_free_page_first)
  define q where "q = page_addr i"
  define z where "z = zero_page q (s1\<lparr>mem_map := (mem_map s1)(i := 1)\<rparr>)"
  define r where "r = rw_swap_page READ (of_nat n) q z"
  define t where "t = snd (setbit ?b n r)"
  define s2 where "s2 = write_word a (q OR (PAGE_DIRTY OR 7)) t"
  have far: "\<not> a - q < 4096" "m < SWAP_BITS \<Longrightarrow> \<not> bit_word ?b m - q < 4096" for m
    using i(1,2) apart pm map1 held_apart [of s _ p i] by (auto simp: q_def)
  have b1: "swap_bitmap s1 = ?b" "swap_bitmap z = ?b" "swap_device z = swap_device s" "swap_bitmap r = ?b"
    using u by (simp_all add: s1_def z_def r_def)
  have m1: "mem s1 = mem u"
    by (simp add: s1_def)
  have "swap_in a s1 = Ret () s2"
    using swap_entry [OF n(1,2)] s(3) page_addr_pos [OF i(1)] i(4) b1 u(5)
    by (simp add: swap_in_def m1 q_def [symmetric] z_def [symmetric] r_def [symmetric] t_def s2_def swap_slot_free_def
        Let_def unat_of_nat)
  moreover have "paging_page s2 q"
    using i(3) unfolding q_def [symmetric]
    by (simp add: s2_def t_def setbit_def r_def z_def paging_page_def)
  moreover have "mem s2 a = q OR (PAGE_DIRTY OR 7)"
    by (simp add: s2_def)
  moreover have "mem s2 (q + 4 * of_nat k) = mem s (p + 4 * of_nat k)" if k: "k < 1024" for k
  proof -
    have k4: "4 * of_nat k < (4096 :: u32)"
      using k by (simp add: word_less_nat_alt unat_word_ariths unat_of_nat)
    then have ne: "q + 4 * of_nat k \<noteq> a" "p + 4 * of_nat k \<noteq> a"
      "q + 4 * of_nat k \<noteq> bit_word ?b n" "p + 4 * of_nat k \<noteq> bit_word ?b n"
      using far(1) far(2) [OF n(2)] apart(2) apart(3) [OF n(2)] by (metis add_diff_cancel_left')+
    have dz: "disk z = disk (rw_swap_page WRITE (of_nat n) p u)"
      by (simp add: z_def s1_def)
    have "mem s2 (q + 4 * of_nat k) = mem r (q + 4 * of_nat k)"
      using ne by (simp add: s2_def t_def setbit_def)
    also have "\<dots> = disk z (swap_device z) (page_zones (of_nat n) (k div 256)) (k mod 256)"
      unfolding r_def using b1 s(2) k by (intro mem_after_read) simp_all
    also have "\<dots> = mem u (p + 4 * of_nat (256 * (k div 256) + k mod 256))"
      unfolding b1(3) dz u(4) [symmetric] using s(2) u(4) k by (intro disk_after_write) auto
    also have "\<dots> = mem s (p + 4 * of_nat k)"
      using ne by (simp add: u_def clrbit_def)
    finally show ?thesis .
  qed
  moreover have "swap_slot_refs s2 = swap_slot_refs s"
  proof
    fix m
    show "swap_slot_refs s2 m = swap_slot_refs s m"
    proof (cases "1 \<le> m \<and> m < SWAP_BITS")
      case True
      then have m: "m < SWAP_BITS"
        by simp
      have "test_bit_at ?b m s2 \<longleftrightarrow> test_bit_at ?b m t"
        using apart(3) [OF m] by (intro test_bit_at_cong) (simp add: s2_def)
      also have "\<dots> \<longleftrightarrow> m = n \<or> test_bit_at ?b m r"
        using test_bit_set_unset(2) [OF n(2) m, of ?b r] by (simp add: t_def setbit_def)
      also have "test_bit_at ?b m r \<longleftrightarrow> test_bit_at ?b m u"
        using far(2) [OF m] by (intro test_bit_at_cong) (simp add: r_def z_def mem_outside_page m1)
      also have "\<dots> \<longleftrightarrow> test_bit_at ?b m (snd (clrbit ?b n s))"
        using apart(3) [OF m] by (intro test_bit_at_cong) (simp add: u_def)
      also have "\<dots> \<longleftrightarrow> m \<noteq> n \<and> test_bit_at ?b m s"
        using test_bit_set_unset(1) [OF n(2) m, of ?b s] by (simp add: clrbit_def)
      finally have "test_bit_at ?b m s2 \<longleftrightarrow> test_bit_at ?b m s"
        using n(3) by blast
      moreover have "swap_bitmap s2 = ?b"
        using b1 by (simp add: s2_def t_def setbit_def)
      ultimately show ?thesis
        by (simp add: swap_slot_refs_def)
    qed (simp add: swap_slot_refs_def)
  qed
  ultimately show ?thesis
    using out map1 by auto
qed

lemma unat_bit_word:
  assumes "n < SWAP_BITS" "unat b + 4096 \<le> 2 ^ 32"
  shows "unat (bit_word b n) = unat b + 4 * (n div 32)"
proof -
  have n: "n div 32 < 1024"
    using assms(1) by (simp add: SWAP_BITS_def)
  then have "unat (4 * of_nat (n div 32) :: u32) = 4 * (n div 32)"
    by (simp add: unat_word_ariths unat_of_nat)
  with n assms(2) show ?thesis
    by (simp add: bit_word_def unat_word_ariths)
qed

definition mm_example :: mm where
  "mm_example = \<lparr>mem = ((\<lambda>a. 0)(64 := 0x200007, 0x200000 := 0x300047, 0x400000 := 2)),
     mem_map = (\<lambda>i. 1), HIGH_MEMORY = 0x1000000, last_pages = (\<lambda>i. 0), swap_bitmap = 0x400000,
     swap_device = 0x301, swap_file = NULL, dir_entry = 1024, page_entry = - 1,
     disk = (\<lambda>d b k. 0), swap_file_dev = 0, swap_bmap = (\<lambda>b. 0), entry_zf = True\<rparr>"

lemma mm_example_ok: "mm_ok mm_example"
  by (simp add: mm_ok_def mm_example_def mm_consts)

lemma mm_example_bit_word:
  assumes "n < SWAP_BITS"
  shows "\<not> bit_word 0x400000 n - 0x300000 < 4096" "bit_word 0x400000 n \<noteq> 0x200000"
proof -
  have n: "n div 32 < 1024"
    using assms by (simp add: SWAP_BITS_def)
  have u: "unat (bit_word 0x400000 n) = 0x400000 + 4 * (n div 32)"
    using unat_bit_word [OF assms, where b = "0x400000"] by simp
  then have "unat (bit_word 0x400000 n - 0x300000) = 0x100000 + 4 * (n div 32)"
    using n by (subst unat_sub) (simp_all add: word_le_nat_alt)
  then show "\<not> bit_word 0x400000 n - 0x300000 < 4096"
    by (simp add: word_less_nat_alt)
  have "unat (bit_word 0x400000 n) \<noteq> unat (0x200000 :: u32)"
    using u by simp
  then show "bit_word 0x400000 n \<noteq> 0x200000"
    by (metis (no_types))
qed

theorem swap_out_in_roundtrip_witness:
  "\<exists>s1 s2 q. try_to_swap_out 0x200000 mm_example = (True, s1) \<and> mem_map s1 512 = 0 \<and>
    swap_in 0x200000 s1 = Ret () s2 \<and> paging_page s2 q \<and> mem s2 0x200000 = q OR (PAGE_DIRTY OR 7)"
proof -
  have p: "frame (mem mm_example 0x200000) = 0x300000" "MAP_NR 0x300000 = 512"
    by (simp_all add: mm_example_def frame_def MAP_NR_def mm_consts)
  have "mm_ok mm_example" "swap_device mm_example \<noteq> 0"
    "swap_slot_free mm_example" "PAGE_PRESENT AND mem mm_example 0x200000 \<noteq> 0"
    "PAGE_DIRTY AND mem mm_example 0x200000 \<noteq> 0" "paging_page mm_example 0x300000"
    "\<not> mem mm_example 0x200000 - LOW_MEM > PAGING_MEMORY" "mem_map mm_example 512 = 1"
    "held mm_example a" "\<not> (0x200000 :: u32) - 0x300000 < 4096" for a
    using mm_example_ok
    by (auto simp: mm_example_def mm_consts PAGE_PRESENT_def PAGE_DIRTY_def paging_page_def held_def
        swap_slot_free_def test_bit_at_def bit_word_def SWAP_BITS_def bit_0 intro!: exI [of _ 1])
  moreover have "swap_bitmap mm_example = 0x400000"
    by (simp add: mm_example_def)
  ultimately show ?thesis
    using swap_out_in_roundtrip [where s = mm_example and a = "0x200000" and p = "0x300000"] p mm_example_bit_word by fastforce
qed

lemma mem_zero_page_map:
  "mem (zero_page p (s\<lparr>mem_map := f\<rparr>)) = (\<lambda>a. if a - p < 4096 then 0 else mem s a)"
  by (simp add: zero_page_def fun_eq_iff)

text \<open>
  C5. With a free page below \<open>HIGH_MEMORY\<close>, \<open>get_free_page\<close> returns the highest free page,
  gives it the reference count 1 and fills it with zeros; no other page or count changes.
\<close>
theorem get_free_page_fresh:
  assumes "page_free s"
  shows "\<exists>i < PAGING_PAGES. \<exists>s'. mem_map s i = 0 \<and>
    (\<forall>j. i < j \<and> j < PAGING_PAGES \<longrightarrow> mem_map s j \<noteq> 0) \<and>
    get_free_page s = (page_addr i, s') \<and> LOW_MEM \<le> page_addr i \<and> page_addr i < HIGH_MEMORY s \<and>
    mem_map s' = (mem_map s)(i := 1) \<and>
    mem s' = (\<lambda>a. if a - page_addr i < 4096 then 0 else mem s a)"
proof -
  from assms obtain i where "i < PAGING_PAGES" "mem_map s i = 0"
    "\<forall>j. i < j \<and> j < PAGING_PAGES \<longrightarrow> mem_map s j \<noteq> 0" "paging_page s (page_addr i)"
    "get_free_page s = (page_addr i, zero_page (page_addr i) (s\<lparr>mem_map := (mem_map s)(i := 1)\<rparr>))"
    by (rule get_free_page_first)
  then show ?thesis
    by (intro exI [of _ i]) (simp add: mem_zero_page_map paging_page_def)
qed

theorem get_free_page_fresh_witness:
  "\<exists>i < PAGING_PAGES. \<exists>s'. get_free_page (mm_example\<lparr>mem_map := (\<lambda>i. if i = 7 then 0 else 1)\<rparr>) = (page_addr i, s')"
proof -
  let ?s = "mm_example\<lparr>mem_map := (\<lambda>i. if i = 7 then 0 else 1)\<rparr>"
  have "page_addr 7 < HIGH_MEMORY ?s"
    by (simp add: page_addr_def mm_consts mm_example_def)
  then have "page_free ?s"
    by (auto simp: page_free_def mm_ok_def mm_example_def mm_consts)
  from get_free_page_fresh [OF this] show ?thesis
    by blast
qed

text \<open>
  The retry after a successful \<open>swap_out\<close> does not look at \<open>mem_map\<close>: when the zero flag is
  set it returns the first page of paging memory and clears it, whoever uses that page, and not
  the page that was just released.
\<close>
theorem get_free_page_retry:
  assumes "mm_ok s" "\<And>i. i < PAGING_PAGES \<Longrightarrow> mem_map s i \<noteq> 0"
    and "swap_out s = (True, s')" "entry_zf s'"
  shows "get_free_page s = (LOW_MEM, zero_page LOW_MEM (s'\<lparr>mem_map := (mem_map s')(0 := 1)\<rparr>))"
proof -
  have "scan_map (mem_map s) PAGING_PAGES = None"
    using assms(2) by (simp add: scan_map_None)
  moreover have "\<not> HIGH_MEMORY s \<le> LOW_MEM"
    using assms(1) by (simp add: mm_ok_def not_le)
  ultimately show ?thesis
    using assms(3,4) by (simp add: get_free_page_def get_free_page_again.simps movb1_def)
qed

theorem get_free_page_retry_witness:
  "\<exists>s'. swap_out (mm_example\<lparr>mem := (mem mm_example)(0x200000 := 0x300007)\<rparr>) = (True, s') \<and> mem_map s' 0 = 1 \<and>
     mem_map s' 512 = 0 \<and>
     fst (get_free_page (mm_example\<lparr>mem := (mem mm_example)(0x200000 := 0x300007)\<rparr>)) = LOW_MEM"
proof -
  let ?s = "mm_example\<lparr>mem := (mem mm_example)(0x200000 := 0x300007)\<rparr>"
  define s' where "s' = snd (swap_out ?s)"
  have "swap_out ?s = (True, s') \<and> mem_map s' 0 = 1 \<and> mem_map s' 512 = 0 \<and> entry_zf s'"
    unfolding s'_def
    by (simp add: swap_out_def VM_PAGES_def FIRST_VM_PAGE_def swap_out_loop.simps try_to_swap_out_def
        mm_example_def Let_def frame_def PAGE_PRESENT_def PAGE_DIRTY_def mm_consts free_page_def
        write_word_def)
  moreover have "mm_ok ?s" "mem_map ?s i \<noteq> 0" for i
    using mm_example_ok by (simp_all add: mm_ok_def mm_example_def)
  ultimately show ?thesis
    using get_free_page_retry [where s = ?s and s' = s'] by auto
qed

text \<open>
  Allocation invariant. \<open>mem_init\<close> with page-aligned bounds inside paging memory establishes
  it and frees exactly the pages between them.
\<close>
theorem mem_init_ok:
  assumes "0x100000 + 4096 * int i \<le> 0x100000 + 4096 * int j" "0 < j" "j \<le> PAGING_PAGES"
  shows "mm_ok (mem_init (0x100000 + 4096 * int i) (0x100000 + 4096 * int j) s) \<and>
    (\<forall>k < PAGING_PAGES.
       mem_map (mem_init (0x100000 + 4096 * int i) (0x100000 + 4096 * int j) s) k = 0 \<longleftrightarrow> i \<le> k \<and> k < j)"
proof -
  let ?s = "mem_init (0x100000 + 4096 * int i) (0x100000 + 4096 * int j) s"
  have ij: "i \<le> j"
    using assms(1) by simp
  have w: "of_int (0x100000 + 4096 * int k) = LOW_MEM + push_bit 12 (of_nat k)" for k
    by (simp add: LOW_MEM_def push_bit_eq_mult)
  have nr: "MAP_NR (of_int (0x100000 + 4096 * int i)) = i"
  proof (cases "i < PAGING_PAGES")
    case True
    then show ?thesis
      using MAP_NR_page_addr by (simp only: w page_addr_def)
  next
    case False
    then have "i = PAGING_PAGES"
      using ij assms(3) by simp
    then show ?thesis
      by (simp add: MAP_NR_def mm_consts)
  qed
  have n: "nat ((0x100000 + 4096 * int j - (0x100000 + 4096 * int i)) div 4096) = j - i"
    using ij by simp
  have map: "mem_map ?s k = 0 \<longleftrightarrow> i \<le> k \<and> k < j" if "k < PAGING_PAGES" for k
    using that ij assms(3) by (simp add: mem_init_def Let_def nr n USED_def del: of_int_add) linarith
  have h: "unat (HIGH_MEMORY ?s) = 0x100000 + 4096 * j"
    using assms(3) unfolding mem_init_def Let_def
    by (simp add: w LOW_MEM_def push_bit_eq_mult unat_word_ariths unat_of_nat mm_consts del: of_int_add)
  have "page_addr k < HIGH_MEMORY ?s" if "k < j" for k
    using that assms(3) h by (simp add: word_less_nat_alt unat_page_addr)
  moreover have "LOW_MEM < HIGH_MEMORY ?s" "HIGH_MEMORY ?s \<le> LOW_MEM + PAGING_MEMORY"
    using assms(2,3) h by (simp_all add: word_less_nat_alt word_le_nat_alt mm_consts)
  ultimately show ?thesis
    using map by (simp add: mm_ok_def)
qed

theorem mem_init_ok_witness:
  "mm_ok (mem_init 0x400000 0x1000000 mm_example) \<and>
   mem_map (mem_init 0x400000 0x1000000 mm_example) 1000 = 0"
  using mem_init_ok [where i = 768 and j = 3840 and s = mm_example] by (simp add: PAGING_PAGES_def)



text \<open>
  Freeing what was allocated: releasing the page that \<open>get_free_page\<close> returned restores all
  reference counts, and releasing the swap page that \<open>get_swap_page\<close> returned (the lowest free
  one) restores the bitmap.
\<close>
theorem alloc_free_pages:
  assumes "page_free s" "swap_slot_free s"
  shows "page_refs (free_page (fst (get_free_page s)) (snd (get_free_page s))) = page_refs s \<and>
    swap_slot_refs (swap_free (int (fst (get_swap_page s))) (snd (get_swap_page s))) = swap_slot_refs s \<and>
    test_bit_at (swap_bitmap s) (fst (get_swap_page s)) s \<and>
    (\<forall>n. 1 \<le> n \<and> n < fst (get_swap_page s) \<longrightarrow> \<not> test_bit_at (swap_bitmap s) n s)"
  using page_alloc.alloc_then_free [OF assms(1) prod.collapse [symmetric]]
    swap_alloc.alloc_then_free [OF assms(2) prod.collapse [symmetric]]
    get_swap_page_first [OF assms(2)] by (metis fst_conv)

theorem alloc_free_pages_witness:
  "swap_slot_refs (swap_free (int (fst (get_swap_page (mm_example\<lparr>mem_map := (\<lambda>i. 0)\<rparr>))))
      (snd (get_swap_page (mm_example\<lparr>mem_map := (\<lambda>i. 0)\<rparr>)))) = swap_slot_refs (mm_example\<lparr>mem_map := (\<lambda>i. 0)\<rparr>)"
proof -
  let ?s = "mm_example\<lparr>mem_map := (\<lambda>i. 0)\<rparr>"
  have "page_addr i < 0x1000000" if "i < PAGING_PAGES" for i
    using unat_page_addr [OF that] that by (simp add: word_less_nat_alt PAGING_PAGES_def)
  then have "page_free ?s"
    by (auto simp: page_free_def mm_ok_def mm_example_def mm_consts intro!: exI [of _ 0])
  moreover have "swap_slot_free ?s"
    by (auto simp: swap_slot_free_def test_bit_at_def bit_word_def SWAP_BITS_def bit_0 mm_example_def
        intro!: exI [of _ 1])
  ultimately show ?thesis
    using alloc_free_pages by blast
qed

end
