(* ===== verification/PageTables.thy ===== *)
theory PageTables
  imports Pages
begin

text \<open>
  mm/memory.c above the page allocator: freeing and copying page tables (exit and fork), mapping
  a page, and copy-on-write. A page directory or page table is the 1024 words at its address, and
  the directory is at address 0. A call that does not return (\<open>do_exit\<close>, \<open>panic\<close>) is an
  outcome of its own.
\<close>

section \<open>Freeing page tables\<close>

fun free_entries :: "nat \<Rightarrow> u32 \<Rightarrow> 'a mm_scheme \<Rightarrow> 'a mm_scheme" where
  "free_entries 0 pg_table s = s"
| "free_entries (Suc n) pg_table s =
     (let page = mem s pg_table
      in if page = 0 then free_entries n (pg_table + 4) s
         else let s = write_word pg_table 0 s
              in free_entries n (pg_table + 4)
                   (if 1 AND page \<noteq> 0 then free_page (frame page) s
                    else swap_free (uint (drop_bit 1 page)) s))"

fun free_dirs :: "nat \<Rightarrow> u32 \<Rightarrow> 'a mm_scheme \<Rightarrow> 'a mm_scheme" where
  "free_dirs 0 dir s = s"
| "free_dirs (Suc n) dir s =
     (let page_dir = mem s dir
      in if page_dir = 0 then free_dirs n (dir + 4) s
         else let s = write_word dir 0 s
              in if page_dir AND 1 = 0 then free_dirs n (dir + 4) s
                 else free_dirs n (dir + 4)
                        (free_page (frame page_dir) (free_entries 1024 (frame page_dir) s)))"

definition CHECK_LAST_NR :: nat where "CHECK_LAST_NR = 16"

definition free_page_tables :: "u32 \<Rightarrow> u32 \<Rightarrow> 'a mm_scheme \<Rightarrow> (int, 'a mm_scheme) outcome" where
  "free_page_tables from size' s =
     (if from AND 0x3fffff \<noteq> 0 then Panic s
      else if from = 0 then Panic s
      else let n = drop_bit 22 (size' + 0x3fffff);
               dir = drop_bit 20 from AND 0xffc;
               s = free_dirs (unat n) dir s
           in Ret 0 (s\<lparr>last_pages := (\<lambda>i. if i < CHECK_LAST_NR then 0 else last_pages s i)\<rparr>))"

section \<open>Copying page tables\<close>

text \<open>The inner loop of \<open>copy_page_tables\<close>; the result is whether memory sufficed.\<close>

fun copy_entries :: "nat \<Rightarrow> u32 \<Rightarrow> u32 \<Rightarrow> 'a mm_scheme \<Rightarrow> bool \<times> 'a mm_scheme" where
  "copy_entries 0 from_pt to_pt s = (True, s)"
| "copy_entries (Suc n) from_pt to_pt s =
     (let this_page = mem s from_pt
      in if this_page = 0 then copy_entries n (from_pt + 4) (to_pt + 4) s
         else if 1 AND this_page = 0 then
           (case get_free_page s of
              (new_page, s) \<Rightarrow>
                if new_page = 0 then (False, s)
                else let s = rw_swap_page READ (drop_bit 1 this_page) new_page s;
                         s = write_word to_pt this_page s
                     in copy_entries n (from_pt + 4) (to_pt + 4)
                          (write_word from_pt (new_page OR (PAGE_DIRTY OR 7)) s))
         else let this_page = this_page AND NOT 2;
                  s = write_word to_pt this_page s
              in copy_entries n (from_pt + 4) (to_pt + 4)
                   (if this_page > LOW_MEM then
                      let s = write_word from_pt this_page s;
                          i = unat (drop_bit 12 (this_page - LOW_MEM))
                      in s\<lparr>mem_map := (mem_map s)(i := mem_map s i + 1)\<rparr>
                    else s))"

fun copy_dirs :: "nat \<Rightarrow> bool \<Rightarrow> u32 \<Rightarrow> u32 \<Rightarrow> 'a mm_scheme \<Rightarrow> int \<times> 'a mm_scheme" where
  "copy_dirs 0 low_only from_dir to_dir s = (0, s)"
| "copy_dirs (Suc n) low_only from_dir to_dir s =
     (if mem s from_dir = 0 then copy_dirs n low_only (from_dir + 4) (to_dir + 4) s
      else if 1 AND mem s from_dir = 0 then
        copy_dirs n low_only (from_dir + 4) (to_dir + 4) (write_word from_dir 0 s)
      else let from_pt = frame (mem s from_dir)
           in (case get_free_page s of
                 (to_pt, s) \<Rightarrow>
                   if to_pt = 0 then (- 1, s)
                   else (case copy_entries (if low_only then 0xA0 else 1024) from_pt to_pt
                                (write_word to_dir (to_pt OR 7) s) of
                           (ok, s) \<Rightarrow> if ok then copy_dirs n low_only (from_dir + 4) (to_dir + 4) s
                                     else (- 1, s))))"

definition copy_page_tables :: "u32 \<Rightarrow> u32 \<Rightarrow> u32 \<Rightarrow> 'a mm_scheme \<Rightarrow> (int, 'a mm_scheme) outcome" where
  "copy_page_tables from to size' s =
     (if from AND 0x3fffff \<noteq> 0 \<or> to AND 0x3fffff \<noteq> 0 then Panic s
      else let from_dir = drop_bit 20 from AND 0xffc;
               to_dir = drop_bit 20 to AND 0xffc;
               n = drop_bit 22 (size' + 0x3fffff)
           in (case copy_dirs (unat n) (from = 0) from_dir to_dir s of (r, s) \<Rightarrow> Ret r s))"

section \<open>Mapping a page\<close>

definition dir_of :: "u32 \<Rightarrow> u32" where
  "dir_of address = drop_bit 20 address AND 0xffc"

definition entry_in :: "u32 \<Rightarrow> u32 \<Rightarrow> u32" where
  "entry_in page_table address = page_table + 4 * (drop_bit 12 address AND 0x3ff)"

text \<open>The part \<open>put_page\<close> and \<open>put_dirty_page\<close> have in common.\<close>

definition map_page :: "u32 \<Rightarrow> u32 \<Rightarrow> u32 \<Rightarrow> 'a mm_scheme \<Rightarrow> u32 \<times> 'a mm_scheme" where
  "map_page page address bits s =
     (if mem s (dir_of address) AND 1 \<noteq> 0 then
        (page, write_word (entry_in (frame (mem s (dir_of address))) address) (page OR bits) s)
      else (case get_free_page s of
              (tmp, s) \<Rightarrow>
                if tmp = 0 then (0, s)
                else (page, write_word (entry_in tmp address) (page OR bits)
                              (write_word (dir_of address) (tmp OR 7) s))))"

definition put_page :: "u32 \<Rightarrow> u32 \<Rightarrow> 'a mm_scheme \<Rightarrow> u32 \<times> 'a mm_scheme" where
  "put_page page address s =
     (if page < LOW_MEM \<or> page \<ge> HIGH_MEMORY s then (0, s)
      else if mem_map s (MAP_NR page) \<noteq> 1 then (0, s)
      else map_page page address 7 s)"

definition put_dirty_page :: "u32 \<Rightarrow> u32 \<Rightarrow> 'a mm_scheme \<Rightarrow> u32 \<times> 'a mm_scheme" where
  "put_dirty_page page address s = map_page page address (PAGE_DIRTY OR 7) s"

definition get_empty_page :: "u32 \<Rightarrow> 'a mm_scheme \<Rightarrow> (unit, 'a mm_scheme) outcome" where
  "get_empty_page address s =
     (case get_free_page s of
        (tmp, s) \<Rightarrow>
          if tmp = 0 then oom (free_page tmp s)
          else (case put_page tmp address s of
                  (r, s) \<Rightarrow> if r = 0 then oom (free_page tmp s) else Ret () s))"

section \<open>Copy on write\<close>

text \<open>
  \<open>un_wp_page\<close> from label \<open>repeat\<close>, with the local \<open>new_page\<close>: the entry is read again after the
  allocation, which may have swapped the page out.
\<close>

definition free_new :: "u32 \<Rightarrow> 'a mm_scheme \<Rightarrow> 'a mm_scheme" where
  "free_new new_page s = (if new_page \<noteq> 0 then free_page new_page s else s)"

function un_wp_loop :: "u32 \<Rightarrow> u32 \<Rightarrow> 'a mm_scheme \<Rightarrow> (unit, 'a mm_scheme) outcome" where
  "un_wp_loop new_page table_entry s =
     (let old_page = mem s table_entry;
          dirty = old_page AND PAGE_DIRTY
      in if old_page AND 1 = 0 then Ret () (free_new new_page s)
         else let old_page = frame old_page
              in if old_page \<ge> HIGH_MEMORY s then DoExit SIGSEGV (free_new new_page s)
                 else if old_page \<ge> LOW_MEM \<and> mem_map s (MAP_NR old_page) = 1 then
                   Ret () (free_new new_page (write_word table_entry (mem s table_entry OR 2) s))
                 else if new_page = 0 then
                   (case get_free_page s of
                      (new_page, s) \<Rightarrow>
                        if new_page = 0 then oom s else un_wp_loop new_page table_entry s)
                 else let s = copy_page old_page new_page s;
                          s = write_word table_entry (new_page OR dirty OR 7) s
                      in Ret () (free_page old_page s))"
  by pat_completeness auto
termination
  by (relation "measure (\<lambda>(p, t, s). if p = 0 then 1 else 0)") auto

declare un_wp_loop.simps [simp del]

definition un_wp_page :: "u32 \<Rightarrow> 'a mm_scheme \<Rightarrow> (unit, 'a mm_scheme) outcome" where
  "un_wp_page table_entry s = un_wp_loop 0 table_entry s"

definition write_verify :: "u32 \<Rightarrow> 'a mm_scheme \<Rightarrow> (unit, 'a mm_scheme) outcome" where
  "write_verify address s =
     (let page = mem s (drop_bit 20 address AND 0xffc)
      in if page AND 1 = 0 then Ret () s
         else let page = frame page + (drop_bit 10 address AND 0xffc)
              in if 3 AND mem s page = 1 then un_wp_page page s else Ret () s)"

section \<open>Pages do not overlap\<close>

lemma in_page_unique:
  assumes "i < PAGING_PAGES" "j < PAGING_PAGES" "a - page_addr i < 4096" "a - page_addr j < 4096"
  shows "i = j"
proof -
  have u: "unat a = 0x100000 + 4096 * k + unat (a - page_addr k) \<and> unat (a - page_addr k) < 4096"
    if "k < PAGING_PAGES" "a - page_addr k < 4096" for k
  proof -
    have "unat (a - page_addr k) < 4096"
      using that(2) by (simp add: word_less_nat_alt)
    moreover have "unat (page_addr k + (a - page_addr k)) = unat (page_addr k) + unat (a - page_addr k)"
      using unat_page_addr [OF that(1)] calculation that(1)
      by (subst unat_add_lem [THEN iffD1]) (simp_all add: PAGING_PAGES_def)
    ultimately show ?thesis
      using unat_page_addr [OF that(1)] by simp
  qed
  have "(unat a - 0x100000) div 4096 = k" if "k < PAGING_PAGES" "a - page_addr k < 4096" for k
    using u [OF that] by simp
  with assms show ?thesis
    by metis
qed

lemma page_offset: "k < 1024 \<Longrightarrow> 4 * of_nat k < (4096 :: u32)"
  by (simp add: word_less_nat_alt unat_word_ariths unat_of_nat)

text \<open>What copying a page and redirecting an entry to it does to memory.\<close>

lemma copied_page:
  assumes "i < PAGING_PAGES" "j < PAGING_PAGES" "i \<noteq> j" "\<not> a - page_addr i < 4096" "k < 1024"
  shows "mem (write_word a v (copy_page (page_addr j) (page_addr i) (zero_page (page_addr i) s)))
           (page_addr i + 4 * of_nat k) = mem s (page_addr j + 4 * of_nat k)"
proof -
  have "page_addr i + 4 * of_nat k \<noteq> a"
    using assms(4) page_offset [OF assms(5)] by auto
  moreover have "\<not> page_addr j + 4 * of_nat k - page_addr i < 4096"
    using in_page_unique [OF assms(1,2), of "page_addr j + 4 * of_nat k"] assms(3) page_offset [OF assms(5)]
    by auto
  ultimately show ?thesis
    using page_offset [OF assms(5)] by (simp add: copy_page_def zero_page_def)
qed

section \<open>Properties\<close>

text \<open>
  C7. Copy on write. When a present entry maps a paging page with more than one reference,
  \<open>un_wp_page\<close> gives the entry a fresh writable page with the same 1024 words and the same dirty
  bit; the shared page loses one reference and keeps its contents, and no memory outside the
  fresh page and the entry changes.
\<close>
theorem un_wp_page_shared:
  assumes "page_free s" "held s a" "mem s a AND 1 \<noteq> 0" "old = frame (mem s a)" "paging_page s old"
    and "1 < page_refs s (MAP_NR old)"
  shows "\<exists>q s'. un_wp_page a s = Ret () s' \<and> paging_page s q \<and> page_refs s (MAP_NR q) = 0 \<and>
    mem s' a = q OR (mem s a AND PAGE_DIRTY) OR 7 \<and>
    (\<forall>k < 1024. mem s' (q + 4 * of_nat k) = mem s (old + 4 * of_nat k)) \<and>
    page_refs s' = (page_refs s)(MAP_NR q := 1, MAP_NR old := page_refs s (MAP_NR old) - 1) \<and>
    (\<forall>b. b \<noteq> a \<and> \<not> b - q < 4096 \<longrightarrow> mem s' b = mem s b)"
proof -
  obtain i where i: "i < PAGING_PAGES" "mem_map s i = 0" "paging_page s (page_addr i)"
    "get_free_page s = (page_addr i, zero_page (page_addr i) (s\<lparr>mem_map := (mem_map s)(i := 1)\<rparr>))"
    by (rule get_free_page_first [OF assms(1)])
  define z where "z = zero_page (page_addr i) (s\<lparr>mem_map := (mem_map s)(i := 1)\<rparr>)"
  define w where "w = write_word a (page_addr i OR (mem s a AND PAGE_DIRTY) OR 7) (copy_page old (page_addr i) z)"
  have ok: "mm_ok s"
    using assms(1) by (simp add: page_free_def)
  define j where "j = MAP_NR old"
  have j: "page_addr j = old" "j < PAGING_PAGES"
    using assms(4,5) ok page_addr_MAP_NR [of "mem s a" "HIGH_MEMORY s"] MAP_NR_bound [of old "HIGH_MEMORY s"]
    by (auto simp: mm_ok_def paging_page_def j_def)
  have ij: "i \<noteq> j"
    using assms(6) i(2) by (auto simp: j_def page_refs_def)
  have far: "\<not> a - page_addr i < 4096"
    using assms(2) i(1,2) by (auto simp: held_def)
  have cnt: "mem_map s j \<noteq> 1" "unat (mem_map s j) \<noteq> 0"
    using assms(6) by (auto simp: page_refs_def j_def)
  have z: "mem z a = mem s a" "mem_map z = (mem_map s)(i := 1)" "HIGH_MEMORY z = HIGH_MEMORY s"
    using far by (simp_all add: z_def zero_page_def)
  have h: "\<not> HIGH_MEMORY s \<le> old"
    using assms(5) by (simp add: paging_page_def not_le)
  have pass: "un_wp_loop p a u = (if p = 0
      then (case get_free_page u of (q, u') \<Rightarrow> if q = 0 then oom u' else un_wp_loop q a u')
      else Ret () (free_page old (write_word a (p OR (mem s a AND PAGE_DIRTY) OR 7) (copy_page old p u))))"
    if "mem u a = mem s a" "HIGH_MEMORY u = HIGH_MEMORY s" "mem_map u j = mem_map s j" for p u
    using that assms(3-5) cnt h
    by (subst un_wp_loop.simps) (simp add: Let_def paging_page_def j_def)
  have run: "un_wp_page a s = Ret () (free_page old w)"
    using page_addr_pos [OF i(1)] i(4) z ij
    by (simp add: un_wp_page_def pass z_def [symmetric] w_def)
  have mw: "mem_map w = (mem_map s)(i := 1)" "HIGH_MEMORY w = HIGH_MEMORY s"
    using z by (simp_all add: w_def copy_page_def)
  have refs: "page_refs (free_page old w) = (page_refs s)(i := 1, j := page_refs s j - 1)"
    using page_alloc.free_drops [of w old] assms(5) mw ij cnt
    by (auto simp: paging_page_def page_refs_def j_def [symmetric] fun_eq_iff)
  have "mem w (page_addr i + 4 * of_nat k) = mem s (old + 4 * of_nat k)" if "k < 1024" for k
    using copied_page [OF i(1) j(2) ij far that, of _ "s\<lparr>mem_map := (mem_map s)(i := 1)\<rparr>"] j
    by (simp add: w_def z_def)
  moreover have "mem w b = mem s b" if "b \<noteq> a" "\<not> b - page_addr i < 4096" for b
    using that by (simp add: w_def z_def copy_page_def zero_page_def)
  moreover have "mem w a = page_addr i OR (mem s a AND PAGE_DIRTY) OR 7"
    by (simp add: w_def)
  moreover have "page_refs s i = 0" "MAP_NR (page_addr i) = i"
    using i(1,2) by (simp_all add: page_refs_def MAP_NR_page_addr)
  ultimately show ?thesis
    using run i(3) refs by (intro exI [of _ "page_addr i"] exI [of _ "free_page old w"]) (simp add: j_def)
qed

definition wp_example :: mm where
  "wp_example = mm_example\<lparr>mem := (mem mm_example)(0x200000 := 0x300045, 0x300008 := 42),
     mem_map := (\<lambda>i. 1)(7 := 0, 512 := 2)\<rparr>"

lemma wp_example_free: "page_free wp_example"
  by (auto simp: page_free_def mm_ok_def wp_example_def mm_example_def mm_consts page_addr_def
      intro!: exI [of _ 7])

theorem un_wp_page_shared_witness:
  "\<exists>q s'. un_wp_page 0x200000 wp_example = Ret () s' \<and> mem s' 0x200000 = q OR 0x40 OR 7 \<and>
     mem s' (q + 8) = 42 \<and> page_refs s' 512 = 1"
proof -
  have p: "frame (mem wp_example 0x200000) = 0x300000" "MAP_NR 0x300000 = 512"
    "page_refs wp_example 512 = 2"
    by (simp_all add: wp_example_def frame_def MAP_NR_def mm_consts page_refs_def)
  have "held wp_example 0x200000" "mem wp_example 0x200000 AND 1 \<noteq> 0" "paging_page wp_example 0x300000"
    by (auto simp: wp_example_def mm_example_def held_def page_addr_def mm_consts paging_page_def)
  from un_wp_page_shared [OF wp_example_free this(1,2) p(1) [symmetric] this(3)] p
  obtain q s' where "un_wp_page 0x200000 wp_example = Ret () s'"
    "mem s' 0x200000 = q OR (mem wp_example 0x200000 AND PAGE_DIRTY) OR 7"
    "\<forall>k < 1024. mem s' (q + 4 * of_nat k) = mem wp_example (0x300000 + 4 * of_nat k)"
    "page_refs s' = (page_refs wp_example)(MAP_NR q := 1, 512 := 1)"
    by auto
  moreover from this(3) [rule_format, of 2] have "mem s' (q + 8) = 42"
    by (simp add: wp_example_def)
  ultimately show ?thesis
    by (intro exI [of _ q] exI [of _ s']) (simp add: wp_example_def PAGE_DIRTY_def)
qed

end
