(* ===== verification/Tasks.thy ===== *)
theory Tasks
  imports PageTables
begin

text \<open>
  include/linux/sched.h and kernel/sched.c: the task table, the scheduler, wait queues, the
  kernel timers and the floppy motor timers.

  The kernel state extends the memory state. Task structures live in a total function from
  addresses: address 0 is mapped in the kernel, so following a null task pointer reads whatever
  lies there and is no error. \<open>switch_to\<close> is the change of \<open>current\<close>; what the other
  tasks then do is not part of a step, and a call that sleeps is modelled as the step up to
  \<open>schedule\<close> and the step after the task runs again.
\<close>

section \<open>State\<close>

record sigaction =
  sa_handler :: u32
  sa_mask :: u32
  sa_flags :: u32
  sa_restorer :: u32

record rlimit =
  rlim_cur :: int
  rlim_max :: int

record i387_struct =
  cwd :: u32
  swd :: u32
  twd :: u32
  fip :: u32
  fcs :: u32
  foo :: u32
  fos :: u32
  st_space :: "nat \<Rightarrow> u32"

record tss_struct =
  back_link :: u32
  esp0 :: u32
  ss0 :: u32
  cr3 :: u32
  eip :: u32
  eflags :: u32
  eax :: u32
  ecx :: u32
  edx :: u32
  ebx :: u32
  esp :: u32
  ebp :: u32
  esi :: u32
  edi :: u32
  es_reg :: u32
  cs_reg :: u32
  ss_reg :: u32
  ds_reg :: u32
  fs_reg :: u32
  gs_reg :: u32
  ldt_reg :: u32
  trace_bitmap :: u32
  i387 :: i387_struct

text \<open>
  The in-memory inode and the open file of include/linux/fs.h. The operation tables are numbers
  that stand for the addresses of the tables, and the wait queues of an inode are in
  \<open>waitq\<close> below.
\<close>

record inode =
  i_dev :: u16
  i_ino :: u16
  i_mode :: u16
  i_nlink :: u16
  i_uid :: u16
  i_gid :: u16
  i_rdev :: u16
  i_size :: int
  i_atime :: int
  i_mtime :: int
  i_ctime :: int
  i_data :: "nat \<Rightarrow> u32"
  i_op :: nat
  i_sb :: ptr
  i_count :: u16
  i_lock :: bool
  i_dirt :: bool
  i_pipe :: bool
  i_mount :: bool
  i_seek :: bool
  i_update :: bool

record file_struct =
  f_mode :: u16
  f_flags :: u16
  f_count :: u16
  f_inode :: ptr
  f_op :: nat
  f_pos :: int

record task_struct =
  t_state :: int
  t_counter :: int
  t_priority :: int
  t_signal :: u32
  t_sigaction :: "nat \<Rightarrow> sigaction"
  t_blocked :: u32
  t_exit_code :: int
  t_start_code :: u32
  t_end_code :: u32
  t_end_data :: u32
  t_brk :: u32
  t_start_stack :: u32
  t_pid :: int
  t_pgrp :: int
  t_session :: int
  t_leader :: int
  t_groups :: "nat \<Rightarrow> int"
  t_p_pptr :: ptr
  t_p_cptr :: ptr
  t_p_ysptr :: ptr
  t_p_osptr :: ptr
  t_uid :: u16
  t_euid :: u16
  t_suid :: u16
  t_gid :: u16
  t_egid :: u16
  t_sgid :: u16
  t_timeout :: u32
  t_alarm :: u32
  t_utime :: int
  t_stime :: int
  t_cutime :: int
  t_cstime :: int
  t_start_time :: u32
  t_rlim :: "nat \<Rightarrow> rlimit"
  t_flags :: u32
  t_used_math :: bool
  t_link_count :: int
  t_tty :: int
  t_umask :: u16
  t_pwd :: ptr
  t_root :: ptr
  t_executable :: ptr
  t_library :: ptr
  t_close_on_exec :: u32
  t_filp :: "nat \<Rightarrow> ptr"
  t_code_base :: u32
  t_data_base :: u32
  t_code_limit :: u32
  t_data_limit :: u32
  t_tss :: tss_struct

record timer_struct =
  tm_expires :: u32
  tm_fn :: nat

record kernel = mm +
  task :: "nat \<Rightarrow> ptr"
  tsk :: "ptr \<Rightarrow> task_struct"
  current :: ptr
  jiffies :: u32
  startup_time :: u32
  jiffies_offset :: int
  last_task_used_math :: ptr
  waitq :: "ptr \<Rightarrow> ptr"
  next_timer :: "(int \<times> nat) list"
  timer_active :: u32
  timer_table :: "nat \<Rightarrow> timer_struct"
  mon_timer :: "nat \<Rightarrow> int"
  moff_timer :: "nat \<Rightarrow> int"
  current_DOR :: u8
  fd_selected :: bool
  fd_dor :: u8
  wait_motor :: "nat \<Rightarrow> ptr"
  yields :: nat
  last_pid :: int
  tty_pgrp :: "int \<Rightarrow> int"
  tty_session :: "int \<Rightarrow> int"
  C_A_D :: bool
  tz_minuteswest :: int
  tz_dsttime :: int
  tz_firsttime :: bool
  nodename :: "nat \<Rightarrow> u8"
  fs_mem :: "u32 \<Rightarrow> u8"
  inodes :: "ptr \<Rightarrow> inode"
  files :: "ptr \<Rightarrow> file_struct"
  fpu :: i387_struct

text \<open>
  \<open>waitq\<close> is the contents of the wait-queue pointers by their addresses; \<open>next_timer\<close> is the
  chain of busy entries of \<open>timer_list\<close>, with the function of an entry as a number; \<open>fd_dor\<close> is
  the output register of the floppy controller; \<open>wait_motor i\<close> is the address of
  \<open>wait_motor[i]\<close>. \<open>yields\<close> counts the calls of \<open>schedule\<close> in the middle of a function: there
  other tasks may run, and the model goes on with the caller when it runs again. \<open>fs_mem\<close> is
  the current task's data segment as \<open>get_fs_long\<close> and \<open>put_fs_long\<close> see it. The bases and
  limits are those of the two user segments in the task's local descriptor table. \<open>fpu\<close> is what
  the mathematics coprocessor holds.
\<close>

definition NR_TASKS :: nat where "NR_TASKS = 64"
definition HZ :: int where "HZ = 100"
definition TASK_RUNNING :: int where "TASK_RUNNING = 0"
definition TASK_INTERRUPTIBLE :: int where "TASK_INTERRUPTIBLE = 1"
definition TASK_UNINTERRUPTIBLE :: int where "TASK_UNINTERRUPTIBLE = 2"
definition TASK_ZOMBIE :: int where "TASK_ZOMBIE = 3"
definition TASK_STOPPED :: int where "TASK_STOPPED = 4"
definition PF_PTRACED :: u32 where "PF_PTRACED = 0x10"
definition NR_OPEN :: nat where "NR_OPEN = 20"

definition cur :: "'a kernel_scheme \<Rightarrow> task_struct" where
  "cur s = tsk s (current s)"

definition upd_task :: "ptr \<Rightarrow> (task_struct \<Rightarrow> task_struct) \<Rightarrow> 'a kernel_scheme \<Rightarrow> 'a kernel_scheme" where
  "upd_task p f s = s\<lparr>tsk := (tsk s)(p := f (tsk s p))\<rparr>"

definition upd_cur :: "(task_struct \<Rightarrow> task_struct) \<Rightarrow> 'a kernel_scheme \<Rightarrow> 'a kernel_scheme" where
  "upd_cur f s = upd_task (current s) f s"

definition suser :: "'a kernel_scheme \<Rightarrow> bool" where
  "suser s \<longleftrightarrow> t_euid (cur s) = 0"

definition sigbit :: "nat \<Rightarrow> u32" where
  "sigbit n = push_bit (n - 1) 1"

text \<open>A call of \<open>schedule\<close> from which the caller returns.\<close>

definition yield_cpu :: "'a kernel_scheme \<Rightarrow> 'a kernel_scheme" where
  "yield_cpu s = s\<lparr>yields := yields s + 1\<rparr>"

text \<open>A loop \<open>for (p = &LAST_TASK ; p > &FIRST_TASK ; --p)\<close> over the slots 63 to 1.\<close>

fun for_slots :: "nat \<Rightarrow> (nat \<Rightarrow> 's \<Rightarrow> 's) \<Rightarrow> 's \<Rightarrow> 's" where
  "for_slots 0 f s = s"
| "for_slots (Suc i) f s = (if i = 0 then s else for_slots i f (f i s))"

section \<open>The coprocessor\<close>

text \<open>\<open>fninit\<close> resets the control, status and tag words and leaves the registers.\<close>

definition fninit :: "i387_struct \<Rightarrow> i387_struct" where
  "fninit f = f\<lparr>cwd := 0x37f, swd := 0, twd := 0xffff\<rparr>"

definition math_state_restore :: "'a kernel_scheme \<Rightarrow> 'a kernel_scheme" where
  "math_state_restore s =
     (if last_task_used_math s = current s then s
      else let s = (if last_task_used_math s \<noteq> NULL
                    then upd_task (last_task_used_math s) (\<lambda>t. t\<lparr>t_tss := (t_tss t)\<lparr>i387 := fpu s\<rparr>\<rparr>) s else s);
               s = s\<lparr>last_task_used_math := current s\<rparr>
           in if t_used_math (cur s) then s\<lparr>fpu := i387 (t_tss (cur s))\<rparr>
              else upd_cur (\<lambda>t. t\<lparr>t_used_math := True\<rparr>) (s\<lparr>fpu := fninit (fpu s)\<rparr>))"

section \<open>The scheduler\<close>

text \<open>The first loop of \<open>schedule\<close>: timeouts, alarms and signals of one task.\<close>

definition SIGALRM :: nat where "SIGALRM = 14"

definition check_task :: "u32 \<Rightarrow> task_struct \<Rightarrow> task_struct" where
  "check_task now t =
     (let t = (if t_timeout t \<noteq> 0 \<and> t_timeout t < now then
                 let t = t\<lparr>t_timeout := 0\<rparr>
                 in if t_state t = TASK_INTERRUPTIBLE then t\<lparr>t_state := TASK_RUNNING\<rparr> else t
               else t);
          t = (if t_alarm t \<noteq> 0 \<and> t_alarm t < now then
                 t\<lparr>t_signal := t_signal t OR sigbit SIGALRM, t_alarm := 0\<rparr>
               else t)
      in if t_signal t AND NOT (t_blocked t) \<noteq> 0 \<and> t_state t = TASK_INTERRUPTIBLE
         then t\<lparr>t_state := TASK_RUNNING\<rparr> else t)"

definition check_tasks :: "'a kernel_scheme \<Rightarrow> 'a kernel_scheme" where
  "check_tasks s = for_slots NR_TASKS
     (\<lambda>i s. if task s i \<noteq> NULL then upd_task (task s i) (check_task (jiffies s)) s else s) s"

text \<open>The choice of the next slot: \<open>c\<close> and \<open>next\<close> after looking at the slots below \<open>i\<close>.\<close>

fun pick :: "nat \<Rightarrow> int \<Rightarrow> nat \<Rightarrow> 'a kernel_scheme \<Rightarrow> int \<times> nat" where
  "pick 0 c nxt s = (c, nxt)"
| "pick (Suc i) c nxt s =
     (if i = 0 then (c, nxt)
      else if task s i = NULL then pick i c nxt s
      else let t = tsk s (task s i)
           in if t_state t = TASK_RUNNING \<and> t_counter t > c then pick i (t_counter t) i s
              else pick i c nxt s)"

definition recount_step :: "nat \<Rightarrow> 'a kernel_scheme \<Rightarrow> 'a kernel_scheme" where
  "recount_step i s =
     (if task s i \<noteq> NULL
      then upd_task (task s i) (\<lambda>t. t\<lparr>t_counter := t_counter t div 2 + t_priority t\<rparr>) s else s)"

definition recount :: "'a kernel_scheme \<Rightarrow> 'a kernel_scheme" where
  "recount s = for_slots NR_TASKS recount_step s"

partial_function (option) schedule_loop :: "'a kernel_scheme \<Rightarrow> (nat \<times> 'a kernel_scheme) option" where
  "schedule_loop s =
     (case pick NR_TASKS (- 1) 0 s of
        (c, nxt) \<Rightarrow> if c \<noteq> 0 then Some (nxt, s) else schedule_loop (recount s))"

definition switch_to :: "nat \<Rightarrow> 'a kernel_scheme \<Rightarrow> 'a kernel_scheme" where
  "switch_to n s = s\<lparr>current := task s n\<rparr>"

definition schedule :: "'a kernel_scheme \<Rightarrow> 'a kernel_scheme option" where
  "schedule s = map_option (\<lambda>(nxt, s). switch_to nxt s) (schedule_loop (check_tasks s))"

section \<open>Sleeping and waking\<close>

definition SIG_IGN :: u32 where "SIG_IGN = 1"

definition ignored_mask :: "task_struct \<Rightarrow> u32" where
  "ignored_mask t = fold (\<lambda>i m. if sa_handler (t_sigaction t i) = SIG_IGN then m OR push_bit i 1 else m)
     [0..<32] (t_blocked t)"

text \<open>\<open>sys_pause\<close> up to \<open>schedule\<close>, and after it with the saved \<open>old_blocked\<close>.\<close>

definition sys_pause_begin :: "'a kernel_scheme \<Rightarrow> u32 \<times> 'a kernel_scheme" where
  "sys_pause_begin s =
     (t_blocked (cur s),
      upd_cur (\<lambda>t. t\<lparr>t_blocked := ignored_mask t, t_state := TASK_INTERRUPTIBLE\<rparr>) s)"

definition sys_pause_end :: "u32 \<Rightarrow> 'a kernel_scheme \<Rightarrow> int \<times> 'a kernel_scheme" where
  "sys_pause_end old_blocked s = (- EINTR, upd_cur (\<lambda>t. t\<lparr>t_blocked := old_blocked\<rparr>) s)"

text \<open>
  \<open>__sleep_on\<close>: the queue step, which leaves the task \<open>tmp\<close> that was first in the queue with
  the sleeper, and the step after every return of \<open>schedule\<close>, which sleeps again (\<open>Inl\<close>) when
  another task has queued behind and wakes that one, or leaves the queue to \<open>tmp\<close>.
\<close>

definition sleep_begin :: "ptr \<Rightarrow> ptr \<Rightarrow> int \<Rightarrow> 'a kernel_scheme \<Rightarrow> (ptr, 'a kernel_scheme) outcome" where
  "sleep_begin init_task p state s =
     (if p = NULL then Ret NULL s
      else if current s = init_task then Panic s
      else let tmp = waitq s p;
               s = s\<lparr>waitq := (waitq s)(p := current s)\<rparr>
           in Ret tmp (upd_cur (\<lambda>t. t\<lparr>t_state := state\<rparr>) s))"

definition sleep_resume :: "ptr \<Rightarrow> ptr \<Rightarrow> 'a kernel_scheme \<Rightarrow> 'a kernel_scheme + 'a kernel_scheme" where
  "sleep_resume tmp p s =
     (if waitq s p \<noteq> NULL \<and> waitq s p \<noteq> current s then
        let s = upd_cur (\<lambda>t. t\<lparr>t_state := TASK_UNINTERRUPTIBLE\<rparr>) s
        in Inl (upd_task (waitq s p) (\<lambda>t. t\<lparr>t_state := 0\<rparr>) s)
      else let s = s\<lparr>waitq := (waitq s)(p := tmp)\<rparr>
           in Inr (if tmp \<noteq> NULL then upd_task tmp (\<lambda>t. t\<lparr>t_state := 0\<rparr>) s else s))"

definition interruptible_sleep_on where
  "interruptible_sleep_on init_task p s = sleep_begin init_task p TASK_INTERRUPTIBLE s"

definition sleep_on where
  "sleep_on init_task p s = sleep_begin init_task p TASK_UNINTERRUPTIBLE s"

definition wake_up :: "ptr \<Rightarrow> 'a kernel_scheme \<Rightarrow> 'a kernel_scheme" where
  "wake_up p s =
     (if p \<noteq> NULL \<and> waitq s p \<noteq> NULL then upd_task (waitq s p) (\<lambda>t. t\<lparr>t_state := 0\<rparr>) s else s)"

section \<open>Floppy motors\<close>

definition ticks_to_floppy_on :: "nat \<Rightarrow> 'a kernel_scheme \<Rightarrow> (int, 'a kernel_scheme) outcome" where
  "ticks_to_floppy_on nr s =
     (if nr > 3 then Panic s
      else let s = s\<lparr>moff_timer := (moff_timer s)(nr := 10000)\<rparr>;
               mask = push_bit nr 0x10 OR current_DOR s;
               mask = (if \<not> fd_selected s then (mask AND 0xFC) OR of_nat nr else mask)
           in if mask \<noteq> current_DOR s then
                let s = s\<lparr>fd_dor := mask\<rparr>;
                    mon = (if (mask XOR current_DOR s) AND 0xf0 \<noteq> 0 then HZ div 2
                           else if mon_timer s nr < 2 then 2 else mon_timer s nr)
                in Ret mon (s\<lparr>mon_timer := (mon_timer s)(nr := mon), current_DOR := mask\<rparr>)
              else Ret (mon_timer s nr) s)"

text \<open>One pass of the loop of \<open>floppy_on\<close>: done, or queued on the motor's wait queue.\<close>

definition floppy_on_pass :: "ptr \<Rightarrow> nat \<Rightarrow> 'a kernel_scheme \<Rightarrow> (ptr option, 'a kernel_scheme) outcome" where
  "floppy_on_pass init_task nr s =
     and_then (ticks_to_floppy_on nr s) (\<lambda>ticks s.
       if ticks = 0 then Ret None s
       else and_then (sleep_on init_task (wait_motor s nr) s) (\<lambda>tmp s. Ret (Some tmp) s))"

definition floppy_off :: "nat \<Rightarrow> 'a kernel_scheme \<Rightarrow> 'a kernel_scheme" where
  "floppy_off nr s = s\<lparr>moff_timer := (moff_timer s)(nr := 3 * HZ)\<rparr>"

definition floppy_timer_step :: "nat \<Rightarrow> 'a kernel_scheme \<Rightarrow> 'a kernel_scheme" where
  "floppy_timer_step i s =
     (let mask = push_bit i 0x10
      in if mask AND current_DOR s = 0 then s
         else if mon_timer s i \<noteq> 0 then
           let s = s\<lparr>mon_timer := (mon_timer s)(i := mon_timer s i - 1)\<rparr>
           in if mon_timer s i = 0 then wake_up (wait_motor s i) s else s
         else if moff_timer s i = 0 then
           let s = s\<lparr>current_DOR := current_DOR s AND NOT mask\<rparr> in s\<lparr>fd_dor := current_DOR s\<rparr>
         else s\<lparr>moff_timer := (moff_timer s)(i := moff_timer s i - 1)\<rparr>)"

definition do_floppy_timer :: "'a kernel_scheme \<Rightarrow> 'a kernel_scheme" where
  "do_floppy_timer s = fold floppy_timer_step [0, 1, 2, 3] s"

section \<open>Kernel timers\<close>

definition TIME_REQUESTS :: nat where "TIME_REQUESTS = 64"

text \<open>
  The insertion loop of \<open>add_timer\<close> on the chain: the new entry is put in front and moves back
  past every entry that is due earlier, giving each of those its own delay.
\<close>

fun timer_insert :: "int \<Rightarrow> nat \<Rightarrow> (int \<times> nat) list \<Rightarrow> (int \<times> nat) list" where
  "timer_insert j fn [] = [(j, fn)]"
| "timer_insert j fn ((k, g) # r) =
     (if k < j then (k, g) # timer_insert (j - k) fn r else (j, fn) # (k, g) # r)"

text \<open>\<open>run fn\<close> is the effect of calling the timer function \<open>fn\<close>; 0 is the null function.\<close>

definition add_timer ::
  "(nat \<Rightarrow> 'a kernel_scheme \<Rightarrow> 'a kernel_scheme) \<Rightarrow> int \<Rightarrow> nat \<Rightarrow> 'a kernel_scheme \<Rightarrow> (unit, 'a kernel_scheme) outcome" where
  "add_timer run j fn s =
     (if fn = 0 then Ret () s
      else if j \<le> 0 then Ret () (run fn s)
      else if length (next_timer s) \<ge> TIME_REQUESTS then Panic s
      else Ret () (s\<lparr>next_timer := timer_insert j fn (next_timer s)\<rparr>))"

text \<open>The loop over \<open>timer_table\<close>, from bit \<open>i\<close>.\<close>

function run_timer_table ::
  "(nat \<Rightarrow> 'a kernel_scheme \<Rightarrow> 'a kernel_scheme) \<Rightarrow> nat \<Rightarrow> 'a kernel_scheme \<Rightarrow> 'a kernel_scheme" where
  "run_timer_table run i s =
     (let mask = push_bit i 1
      in if i \<ge> 32 \<or> mask > timer_active s then s
         else if mask AND timer_active s = 0 then run_timer_table run (Suc i) s
         else if tm_expires (timer_table s i) > jiffies s then run_timer_table run (Suc i) s
         else run_timer_table run (Suc i)
                (run (tm_fn (timer_table s i)) (s\<lparr>timer_active := timer_active s AND NOT mask\<rparr>)))"
  by pat_completeness auto
termination
  by (relation "measure (\<lambda>(run, i, s). 32 - i)") auto

declare run_timer_table.simps [simp del]

text \<open>The loop over due entries of the chain; a function may add timers, so it need not end.\<close>

partial_function (option) run_timers ::
  "(nat \<Rightarrow> 'a kernel_scheme \<Rightarrow> 'a kernel_scheme) \<Rightarrow> 'a kernel_scheme \<Rightarrow> 'a kernel_scheme option" where
  "run_timers run s =
     (case next_timer s of
        [] \<Rightarrow> Some s
      | (j, fn) # r \<Rightarrow> if j \<le> 0 then run_timers run (run fn (s\<lparr>next_timer := r\<rparr>)) else Some s)"

definition do_timer ::
  "(nat \<Rightarrow> 'a kernel_scheme \<Rightarrow> 'a kernel_scheme) \<Rightarrow> bool \<Rightarrow> 'a kernel_scheme \<Rightarrow> 'a kernel_scheme option" where
  "do_timer run cpl s =
     (let s = run_timer_table run 0 s;
          s = (if cpl then upd_cur (\<lambda>t. t\<lparr>t_utime := t_utime t + 1\<rparr>) s
               else upd_cur (\<lambda>t. t\<lparr>t_stime := t_stime t + 1\<rparr>) s);
          s' = (case next_timer s of
                  [] \<Rightarrow> Some s
                | (j, fn) # r \<Rightarrow> run_timers run (s\<lparr>next_timer := (j - 1, fn) # r\<rparr>))
      in case s' of
           None \<Rightarrow> None
         | Some s \<Rightarrow>
             let s = (if current_DOR s AND 0xf0 \<noteq> 0 then do_floppy_timer s else s);
                 s = upd_cur (\<lambda>t. t\<lparr>t_counter := t_counter t - 1\<rparr>) s
             in if t_counter (cur s) > 0 then Some s
                else let s = upd_cur (\<lambda>t. t\<lparr>t_counter := 0\<rparr>) s
                     in if \<not> cpl then Some s else schedule s)"

section \<open>Simple system calls\<close>

definition sys_alarm :: "int \<Rightarrow> 'a kernel_scheme \<Rightarrow> u32 \<times> 'a kernel_scheme" where
  "sys_alarm seconds s =
     (let old = t_alarm (cur s);
          old = (if old \<noteq> 0 then (old - jiffies s) div of_int HZ else old)
      in (old, upd_cur (\<lambda>t. t\<lparr>t_alarm := (if seconds > 0 then jiffies s + of_int (HZ * seconds) else 0)\<rparr>) s))"

definition sys_getpid where "sys_getpid s = t_pid (cur s)"
definition sys_getppid where "sys_getppid s = t_pid (tsk s (t_p_pptr (cur s)))"
definition sys_getuid where "sys_getuid s = t_uid (cur s)"
definition sys_geteuid where "sys_geteuid s = t_euid (cur s)"
definition sys_getgid where "sys_getgid s = t_gid (cur s)"
definition sys_getegid where "sys_getegid s = t_egid (cur s)"

definition sys_nice :: "int \<Rightarrow> 'a kernel_scheme \<Rightarrow> int \<times> 'a kernel_scheme" where
  "sys_nice increment s =
     (if increment < 0 \<and> \<not> suser s then (- EPERM, s)
      else let prio = t_priority (cur s);
               increment = (if increment > prio then prio - 1 else increment)
           in (0, upd_cur (\<lambda>t. t\<lparr>t_priority := t_priority t - increment\<rparr>) s))"

section \<open>The scheduler's loops\<close>

lemma for_slots_inv:
  "P s \<Longrightarrow> (\<And>i s. 0 < i \<Longrightarrow> i < n \<Longrightarrow> P s \<Longrightarrow> P (f i s)) \<Longrightarrow> P (for_slots n f s)"
proof (induction n f s rule: for_slots.induct)
  case (2 i f s)
  show ?case
  proof (cases "i = 0")
    case False
    with "2.IH" "2.prems" show ?thesis
      by simp
  qed (use "2.prems" in simp)
qed simp

definition slot_runnable :: "'a kernel_scheme \<Rightarrow> nat \<Rightarrow> bool" where
  "slot_runnable s i \<longleftrightarrow> task s i \<noteq> NULL \<and> t_state (tsk s (task s i)) = TASK_RUNNING"

definition slot_counter :: "'a kernel_scheme \<Rightarrow> nat \<Rightarrow> int" where
  "slot_counter s i = t_counter (tsk s (task s i))"

lemma pick_max:
  assumes "pick n c nxt s = (c', nxt')"
  shows "c \<le> c' \<and> (\<forall>j. 0 < j \<and> j < n \<and> slot_runnable s j \<longrightarrow> slot_counter s j \<le> c') \<and>
    (c' = c \<and> nxt' = nxt \<or> 0 < nxt' \<and> nxt' < n \<and> slot_runnable s nxt' \<and> slot_counter s nxt' = c')"
  using assms
proof (induction n c nxt s rule: pick.induct)
  case (2 i c nxt s)
  consider "i = 0" | "i \<noteq> 0" "\<not> (slot_runnable s i \<and> slot_counter s i > c)"
    | "i \<noteq> 0" "slot_runnable s i" "slot_counter s i > c"
    by blast
  then show ?case
  proof cases
    case 1
    with "2.prems" show ?thesis
      by simp
  next
    case 2
    then have e: "pick (Suc i) c nxt s = pick i c nxt s"
      by (auto simp: slot_runnable_def slot_counter_def)
    from 2 have "pick i c nxt s = (c', nxt') \<Longrightarrow> c \<le> c' \<and> (\<forall>j. 0 < j \<and> j < i \<and> slot_runnable s j \<longrightarrow> slot_counter s j \<le> c') \<and>
      (c' = c \<and> nxt' = nxt \<or> 0 < nxt' \<and> nxt' < i \<and> slot_runnable s nxt' \<and> slot_counter s nxt' = c')"
      using "2.IH" by (cases "task s i = NULL") (auto simp: slot_runnable_def slot_counter_def)
    with 2 e "2.prems" show ?thesis
      by (auto simp: less_Suc_eq)
  next
    case 3
    then have e: "pick (Suc i) c nxt s = pick i (slot_counter s i) i s"
      by (simp add: slot_runnable_def slot_counter_def)
    from 3 have "pick i (slot_counter s i) i s = (c', nxt') \<Longrightarrow> slot_counter s i \<le> c' \<and>
      (\<forall>j. 0 < j \<and> j < i \<and> slot_runnable s j \<longrightarrow> slot_counter s j \<le> c') \<and>
      (c' = slot_counter s i \<and> nxt' = i \<or> 0 < nxt' \<and> nxt' < i \<and> slot_runnable s nxt' \<and> slot_counter s nxt' = c')"
      using "2.IH"(2) by (auto simp: slot_runnable_def slot_counter_def)
    with 3 e "2.prems" show ?thesis
      by (auto simp: less_Suc_eq)
  qed
qed simp

text \<open>Every task has a non-negative counter and a positive priority.\<close>

definition sched_ok :: "'a kernel_scheme \<Rightarrow> bool" where
  "sched_ok s \<longleftrightarrow> (\<forall>i. 0 < i \<and> i < NR_TASKS \<and> task s i \<noteq> NULL \<longrightarrow>
     0 \<le> slot_counter s i \<and> 0 < t_priority (tsk s (task s i)))"

lemma check_task_keeps [simp]:
  "t_counter (check_task now t) = t_counter t" "t_priority (check_task now t) = t_priority t"
  by (simp_all add: check_task_def Let_def)

lemma upd_task_simps [simp]:
  "task (upd_task p f s) = task s" "jiffies (upd_task p f s) = jiffies s" "current (upd_task p f s) = current s"
  "waitq (upd_task p f s) = waitq s" "tsk (upd_task p f s) = (tsk s)(p := f (tsk s p))"
  by (simp_all add: upd_task_def)

lemma check_tasks_keeps:
  "task (check_tasks s) = task s \<and> (\<forall>p. t_counter (tsk (check_tasks s) p) = t_counter (tsk s p) \<and>
     t_priority (tsk (check_tasks s) p) = t_priority (tsk s p))"
  unfolding check_tasks_def by (rule for_slots_inv) auto

lemma recount_keeps:
  "task (recount s) = task s \<and> (\<forall>p. t_state (tsk (recount s) p) = t_state (tsk s p) \<and>
     t_priority (tsk (recount s) p) = t_priority (tsk s p))"
  unfolding recount_def by (rule for_slots_inv) (auto simp: recount_step_def)

lemma recount_step_ok:
  assumes "sched_ok u" "0 < j" "j < NR_TASKS"
  shows "task (recount_step j u) = task u \<and> sched_ok (recount_step j u) \<and>
    (0 < slot_counter u i \<longrightarrow> 0 < i \<longrightarrow> i < NR_TASKS \<longrightarrow> task u i \<noteq> NULL \<longrightarrow> 0 < slot_counter (recount_step j u) i) \<and>
    (task u j \<noteq> NULL \<longrightarrow> 0 < slot_counter (recount_step j u) j)"
  using assms by (auto simp: recount_step_def sched_ok_def slot_counter_def)

lemma recount_positive:
  fixes s :: "'a kernel_scheme"
  assumes "sched_ok s" "0 < i" "i < NR_TASKS" "task s i \<noteq> NULL"
  shows "0 < slot_counter (recount s) i"
proof -
  have "0 < slot_counter (for_slots n recount_step u) i"
    if "task u = task s" "sched_ok u" "i < n" "n \<le> NR_TASKS" for n and u :: "'a kernel_scheme"
    using that
  proof (induction n arbitrary: u)
    case (Suc n)
    then have n: "0 < n"
      using assms(2) by simp
    define v where "v = recount_step n u"
    have v: "task v = task s" "sched_ok v" "i = n \<Longrightarrow> 0 < slot_counter v i"
      using recount_step_ok [of u n] Suc.prems n assms(4) by (auto simp: v_def)
    have "0 < slot_counter (for_slots n recount_step v) i"
    proof (cases "i = n")
      case True
      have "task w = task s \<and> sched_ok w \<and> 0 < slot_counter w i" if "w = for_slots n recount_step v" for w
        unfolding that
      proof (rule for_slots_inv)
        show "task v = task s \<and> sched_ok v \<and> 0 < slot_counter v i"
          using v True by blast
        fix k w
        assume k: "0 < k" "k < n" and w: "task w = task s \<and> sched_ok w \<and> 0 < slot_counter w i"
        then have "k < NR_TASKS"
          using Suc.prems by simp
        from recount_step_ok [OF _ k(1) this, of w i] w assms(2-4)
        show "task (recount_step k w) = task s \<and> sched_ok (recount_step k w) \<and> 0 < slot_counter (recount_step k w) i"
          by simp
      qed
      then show ?thesis
        by blast
    next
      case False
      with Suc v show ?thesis
        by simp
    qed
    with n show ?case
      by (simp add: v_def)
  qed simp
  with assms show ?thesis
    by (simp add: recount_def)
qed

lemma schedule_loop_ok:
  assumes "sched_ok s"
  shows "\<exists>nxt u. schedule_loop s = Some (nxt, u) \<and> task u = task s \<and>
    (\<forall>p. t_state (tsk u p) = t_state (tsk s p)) \<and>
    (if \<exists>j. 0 < j \<and> j < NR_TASKS \<and> slot_runnable s j
     then 0 < nxt \<and> nxt < NR_TASKS \<and> slot_runnable s nxt \<and> 0 < slot_counter u nxt \<and>
       (\<forall>j. 0 < j \<and> j < NR_TASKS \<and> slot_runnable s j \<longrightarrow> slot_counter u j \<le> slot_counter u nxt)
     else nxt = 0)"
proof -
  obtain c n where p: "pick NR_TASKS (- 1) 0 s = (c, n)"
    by fastforce
  note m = pick_max [OF p]
  have neg: "c = - 1 \<longleftrightarrow> \<not> (\<exists>j. 0 < j \<and> j < NR_TASKS \<and> slot_runnable s j)"
  proof
    assume "c = - 1"
    show "\<not> (\<exists>j. 0 < j \<and> j < NR_TASKS \<and> slot_runnable s j)"
    proof
      assume "\<exists>j. 0 < j \<and> j < NR_TASKS \<and> slot_runnable s j"
      then obtain j where j: "0 < j" "j < NR_TASKS" "slot_runnable s j"
        by blast
      then have "slot_counter s j \<le> c"
        using m by blast
      moreover have "0 \<le> slot_counter s j"
        using j assms unfolding sched_ok_def slot_runnable_def by blast
      ultimately show False
        using \<open>c = - 1\<close> by simp
    qed
  next
    assume "\<not> (\<exists>j. 0 < j \<and> j < NR_TASKS \<and> slot_runnable s j)"
    with m show "c = - 1"
      by blast
  qed
  show ?thesis
  proof (cases "c = 0")
    case False
    with p have "schedule_loop s = Some (n, s)"
      by (simp add: schedule_loop.simps)
    with False m neg show ?thesis
      by auto
  next
    case True
    let ?r = "recount s"
    obtain d k where q: "pick NR_TASKS (- 1) 0 ?r = (d, k)"
      by fastforce
    note mr = pick_max [OF q]
    have run: "slot_runnable ?r j = slot_runnable s j" for j
      using recount_keeps [of s] by (simp add: slot_runnable_def)
    obtain j where j: "0 < j" "j < NR_TASKS" "slot_runnable s j"
      using True neg by auto
    then have "0 < slot_counter ?r j"
      using assms by (intro recount_positive) (simp_all add: slot_runnable_def)
    with mr j run have "0 < d"
      by force
    with True p q have "schedule_loop s = Some (k, ?r)"
      by (simp add: schedule_loop.simps [of s] schedule_loop.simps [of ?r])
    with \<open>0 < d\<close> mr j run recount_keeps [of s] show ?thesis
      by auto
  qed
qed

section \<open>Properties\<close>

text \<open>
  C10. With non-negative counters and positive priorities \<open>schedule\<close> always decides, and it
  switches to a runnable task whose counter is the largest among all runnable tasks, or to the
  idle task when none is runnable.
\<close>
theorem schedule_ok:
  assumes "sched_ok s"
  shows "\<exists>nxt u. schedule s = Some u \<and> task u = task s \<and> current u = task s nxt \<and>
    (if \<exists>j. 0 < j \<and> j < NR_TASKS \<and> slot_runnable (check_tasks s) j
     then 0 < nxt \<and> nxt < NR_TASKS \<and> slot_runnable u nxt \<and>
       (\<forall>j. 0 < j \<and> j < NR_TASKS \<and> slot_runnable u j \<longrightarrow> slot_counter u j \<le> slot_counter u nxt)
     else nxt = 0)"
proof -
  have "sched_ok (check_tasks s)"
    using assms check_tasks_keeps [of s] by (simp add: sched_ok_def slot_counter_def)
  from schedule_loop_ok [OF this] obtain nxt u where u: "schedule_loop (check_tasks s) = Some (nxt, u)"
    "task u = task s" "\<forall>p. t_state (tsk u p) = t_state (tsk (check_tasks s) p)"
    "if \<exists>j. 0 < j \<and> j < NR_TASKS \<and> slot_runnable (check_tasks s) j
     then 0 < nxt \<and> nxt < NR_TASKS \<and> slot_runnable (check_tasks s) nxt \<and> 0 < slot_counter u nxt \<and>
       (\<forall>j. 0 < j \<and> j < NR_TASKS \<and> slot_runnable (check_tasks s) j \<longrightarrow> slot_counter u j \<le> slot_counter u nxt)
     else nxt = 0"
    using check_tasks_keeps [of s] by auto
  have run: "slot_runnable (switch_to nxt u) j = slot_runnable (check_tasks s) j" for j
    using u(2,3) check_tasks_keeps [of s] by (simp add: slot_runnable_def switch_to_def)
  have cnt: "slot_counter (switch_to nxt u) j = slot_counter u j" for j
    by (simp add: slot_counter_def switch_to_def)
  have "schedule s = Some (switch_to nxt u)"
    using u(1) by (simp add: schedule_def)
  moreover have "task (switch_to nxt u) = task s" "current (switch_to nxt u) = task s nxt"
    using u(2) by (simp_all add: switch_to_def)
  ultimately show ?thesis
    using u(4) by (intro exI [of _ nxt] exI [of _ "switch_to nxt u"]) (simp add: run cnt)
qed

text \<open>A small system for the examples: the idle task at 1000 and one process at 2000.\<close>

definition task_example :: task_struct where
  "task_example = \<lparr>t_state = 0, t_counter = 0, t_priority = 15, t_signal = 0,
     t_sigaction = (\<lambda>i. \<lparr>sa_handler = 0, sa_mask = 0, sa_flags = 0, sa_restorer = 0\<rparr>), t_blocked = 0, t_exit_code = 0,
     t_start_code = 0x04000000, t_end_code = 0x1000, t_end_data = 0x2000, t_brk = 0x3000, t_start_stack = 0x3bff000,
     t_pid = 1, t_pgrp = 1, t_session = 1, t_leader = 0, t_groups = (\<lambda>i. - 1), t_p_pptr = 1000, t_p_cptr = 0,
     t_p_ysptr = 0, t_p_osptr = 0, t_uid = 0, t_euid = 0, t_suid = 0, t_gid = 0, t_egid = 0, t_sgid = 0,
     t_timeout = 0, t_alarm = 0, t_utime = 0, t_stime = 0, t_cutime = 0, t_cstime = 0, t_start_time = 0,
     t_rlim = (\<lambda>i. \<lparr>rlim_cur = 0x7fffffff, rlim_max = 0x7fffffff\<rparr>), t_flags = 0, t_used_math = False, t_link_count = 0,
     t_tty = - 1, t_umask = 18, t_pwd = 0, t_root = 0, t_executable = 0, t_library = 0, t_close_on_exec = 0, t_filp = (\<lambda>i. 0),
     t_code_base = 0x04000000, t_data_base = 0x04000000, t_code_limit = 0x400000, t_data_limit = 0x4000000,
     t_tss = \<lparr>back_link = 0, esp0 = 0, ss0 = 0x10, cr3 = 0, eip = 0, eflags = 0, eax = 0, ecx = 0, edx = 0, ebx = 0,
       esp = 0, ebp = 0, esi = 0, edi = 0, es_reg = 0x17, cs_reg = 0x17, ss_reg = 0x17, ds_reg = 0x17, fs_reg = 0x17,
       gs_reg = 0x17, ldt_reg = 0x28, trace_bitmap = 0x80000000,
       i387 = \<lparr>cwd = 0, swd = 0, twd = 0, fip = 0, fcs = 0, foo = 0, fos = 0, st_space = (\<lambda>i. 0)\<rparr>\<rparr>\<rparr>"

definition kernel_example :: kernel where
  "kernel_example = mm.extend mm_example
     \<lparr>task = (\<lambda>i. 0)(0 := 1000, 1 := 2000), tsk = (\<lambda>p. task_example), current = 2000, jiffies = 100,
      startup_time = 0, jiffies_offset = 0, last_task_used_math = 0, waitq = (\<lambda>p. 0), next_timer = [],
      timer_active = 0, timer_table = (\<lambda>i. \<lparr>tm_expires = 0, tm_fn = 0\<rparr>), mon_timer = (\<lambda>i. 0),
      moff_timer = (\<lambda>i. 0), current_DOR = 0x0C, fd_selected = False, fd_dor = 0x0C, wait_motor = (\<lambda>i. i),
      yields = 0, last_pid = 1, tty_pgrp = (\<lambda>i. 0), tty_session = (\<lambda>i. 0), C_A_D = True,
      tz_minuteswest = 0, tz_dsttime = 0, tz_firsttime = True, nodename = (\<lambda>i. 0), fs_mem = (\<lambda>a. 0),
      inodes = (\<lambda>p. \<lparr>i_dev = 0, i_ino = 0, i_mode = 0, i_nlink = 0, i_uid = 0, i_gid = 0, i_rdev = 0, i_size = 0,
        i_atime = 0, i_mtime = 0, i_ctime = 0, i_data = (\<lambda>i. 0), i_op = 0, i_sb = 0, i_count = 0, i_lock = False,
        i_dirt = False, i_pipe = False, i_mount = False, i_seek = False, i_update = False\<rparr>),
      files = (\<lambda>p. \<lparr>f_mode = 0, f_flags = 0, f_count = 0, f_inode = 0, f_op = 0, f_pos = 0\<rparr>),
      fpu = \<lparr>cwd = 0, swd = 0, twd = 0, fip = 0, fcs = 0, foo = 0, fos = 0, st_space = (\<lambda>i. 0)\<rparr>\<rparr>"

lemma kernel_example_simps [simp]:
  "task kernel_example = (\<lambda>i. 0)(0 := 1000, 1 := 2000)" "tsk kernel_example = (\<lambda>p. task_example)"
  "current kernel_example = 2000" "jiffies kernel_example = 100" "waitq kernel_example = (\<lambda>p. 0)"
  by (simp_all add: kernel_example_def mm.defs)

lemma task_example_simps [simp]:
  "t_state task_example = 0" "t_counter task_example = 0" "t_priority task_example = 15"
  "t_signal task_example = 0" "t_blocked task_example = 0" "t_euid task_example = 0"
  "t_timeout task_example = 0" "t_alarm task_example = 0"
  by (simp_all add: task_example_def)

theorem schedule_ok_witness:
  "sched_ok kernel_example \<and> (\<exists>u. schedule kernel_example = Some u \<and> task u = task kernel_example)"
proof -
  have ok: "sched_ok kernel_example"
    by (auto simp: sched_ok_def slot_counter_def)
  from schedule_ok [OF ok] ok show ?thesis
    by blast
qed

text \<open>
  A state from which the loop of \<open>schedule\<close> cannot get away: some task is runnable, and all
  runnable tasks have the counter and the priority 0.
\<close>

definition sched_stuck :: "'a kernel_scheme \<Rightarrow> bool" where
  "sched_stuck s \<longleftrightarrow> (\<exists>j. 0 < j \<and> j < NR_TASKS \<and> slot_runnable s j) \<and>
     (\<forall>j. 0 < j \<and> j < NR_TASKS \<and> slot_runnable s j \<longrightarrow>
        slot_counter s j = 0 \<and> t_priority (tsk s (task s j)) = 0)"

lemma sched_stuck_pick:
  assumes "sched_stuck s" "pick NR_TASKS (- 1) 0 s = (c, n)"
  shows "c = 0"
proof -
  note m = pick_max [OF assms(2)]
  obtain j where "0 < j" "j < NR_TASKS" "slot_runnable s j" "slot_counter s j = 0"
    using assms(1) by (auto simp: sched_stuck_def)
  with m have "0 \<le> c"
    by force
  with m assms(1) show ?thesis
    by (auto simp: sched_stuck_def)
qed

lemma sched_stuck_recount:
  assumes "sched_stuck s"
  shows "sched_stuck (recount s)"
proof -
  let ?P = "\<lambda>u. task u = task s \<and> (\<forall>p. t_state (tsk u p) = t_state (tsk s p) \<and> t_priority (tsk u p) = t_priority (tsk s p)) \<and>
    (\<forall>j. 0 < j \<and> j < NR_TASKS \<and> slot_runnable s j \<longrightarrow> slot_counter u j = 0)"
  have "?P (recount s)"
    unfolding recount_def
  proof (rule for_slots_inv)
    show "?P s"
      using assms by (auto simp: sched_stuck_def)
    fix i u
    assume i: "0 < i" "i < NR_TASKS" and u: "?P u"
    show "?P (recount_step i u)"
    proof (intro conjI allI impI)
      fix j
      assume j: "0 < j \<and> j < NR_TASKS \<and> slot_runnable s j"
      with u assms have "slot_counter u j = 0" "t_priority (tsk u (task s j)) = 0"
        by (auto simp: sched_stuck_def)
      with u show "slot_counter (recount_step i u) j = 0"
        by (auto simp: recount_step_def slot_counter_def)
    qed (use u in \<open>auto simp: recount_step_def\<close>)
  qed
  then show ?thesis
    using assms by (auto simp: sched_stuck_def slot_runnable_def)
qed

lemma schedule_loop_stuck:
  assumes "sched_stuck s"
  shows "schedule_loop s = None"
proof -
  have "\<not> sched_stuck s" if "schedule_loop s = Some r" for r and s :: "'a kernel_scheme"
  proof (rule schedule_loop.raw_induct [OF _ that])
    fix f s r
    assume IH: "\<And>x r. f x = Some r \<Longrightarrow> \<not> sched_stuck x"
      and run: "(case pick NR_TASKS (- 1) 0 s of (c, nxt) \<Rightarrow> if c \<noteq> 0 then Some (nxt, s) else f (recount s)) = Some r"
    obtain c n where p: "pick NR_TASKS (- 1) 0 s = (c, n)"
      by fastforce
    show "\<not> sched_stuck s"
    proof
      assume stuck: "sched_stuck s"
      then have "c = 0"
        using p by (rule sched_stuck_pick)
      with p run have "f (recount s) = Some r"
        by simp
      then show False
        using IH sched_stuck_recount [OF stuck] by blast
    qed
  qed
  with assms show ?thesis
    by (cases "schedule_loop s") auto
qed

text \<open>
  \<open>sys_nice\<close> lets any user give a process the priority 0 (an increment equal to the
  priority). When that process is the only one and its time slice is used up, \<open>schedule\<close> never
  returns: the machine hangs.
\<close>
theorem nice_hangs_scheduler:
  assumes "0 < k" "k < NR_TASKS" "task s k = current s" "current s \<noteq> NULL"
    and "\<And>j. 0 < j \<Longrightarrow> j < NR_TASKS \<Longrightarrow> j \<noteq> k \<Longrightarrow> task s j = NULL"
    and "t_state (cur s) = TASK_RUNNING" "t_counter (cur s) = 0" "0 < t_priority (cur s)"
  shows "fst (sys_nice (t_priority (cur s)) s) = 0 \<and>
    schedule (snd (sys_nice (t_priority (cur s)) s)) = None"
proof -
  let ?s = "snd (sys_nice (t_priority (cur s)) s)"
  have nice: "sys_nice (t_priority (cur s)) s = (0, upd_cur (\<lambda>t. t\<lparr>t_priority := 0\<rparr>) s)"
    using assms(8) by (simp add: sys_nice_def upd_cur_def upd_task_def cur_def)
  let ?P = "\<lambda>u. task u = task s \<and> t_state (tsk u (current s)) = TASK_RUNNING"
  have "?P (check_tasks ?s)"
    unfolding check_tasks_def
  proof (rule for_slots_inv)
    show "?P ?s"
      using nice assms(6) by (simp add: upd_cur_def cur_def)
  qed (auto simp: check_task_def Let_def)
  moreover have "t_counter (tsk (check_tasks ?s) (current s)) = 0" "t_priority (tsk (check_tasks ?s) (current s)) = 0"
    using check_tasks_keeps [of ?s] nice assms(7) by (simp_all add: upd_cur_def cur_def)
  ultimately have "sched_stuck (check_tasks ?s)"
    using assms(1-5) unfolding sched_stuck_def slot_runnable_def slot_counter_def by metis
  then show ?thesis
    using nice by (simp add: schedule_def schedule_loop_stuck)
qed

theorem nice_hangs_scheduler_witness:
  "schedule (snd (sys_nice 15 kernel_example)) = None"
  using nice_hangs_scheduler [where s = kernel_example and k = 1]
  by (simp add: cur_def NR_TASKS_def TASK_RUNNING_def)

text \<open>The times, from now, at which the entries of the timer chain are due.\<close>

fun due_times :: "int \<Rightarrow> (int \<times> nat) list \<Rightarrow> (int \<times> nat) list" where
  "due_times base [] = []"
| "due_times base ((k, g) # r) = (base + k, g) # due_times (base + k) r"

definition span :: "(int \<times> nat) list \<Rightarrow> int" where
  "span ts = sum_list (map fst ts)"

lemma due_times_append: "due_times b (xs @ ys) = due_times b xs @ due_times (b + span xs) ys"
  by (induction xs arbitrary: b) (auto simp: span_def add.assoc)

lemma due_times_shift: "due_times (b + d) ts = map (\<lambda>(t, f). (t + d, f)) (due_times b ts)"
proof (induction ts arbitrary: b)
  case (Cons x r)
  then show ?case
    using Cons [of "b + fst x"] by (cases x) (simp add: algebra_simps)
qed simp

text \<open>
  A new timer is itself due at the right time, and so are the timers due before it; but
  every timer due after it is delayed, by exactly the time the new one has to wait after its
  predecessors, because the insertion does not take the new delay off its successor's.
\<close>
theorem timer_insert_times:
  assumes "0 < j"
  shows "\<exists>pre post. ts = pre @ post \<and> span pre < j \<and>
    due_times 0 (timer_insert j fn ts) = due_times 0 pre @ (j, fn) #
      map (\<lambda>(t, f). (t + (j - span pre), f)) (due_times (span pre) post)"
proof -
  have "\<exists>pre post. ts = pre @ post \<and> span pre < j \<and>
      timer_insert j fn ts = pre @ (j - span pre, fn) # post" if "0 < j" for j
    using that
  proof (induction j fn ts rule: timer_insert.induct)
    case (1 j fn)
    then show ?case
      by (simp add: span_def)
  next
    case (2 j fn k g r)
    show ?case
    proof (cases "k < j")
      case True
      with 2 obtain pre post where "r = pre @ post" "span pre < j - k"
        "timer_insert (j - k) fn r = pre @ (j - k - span pre, fn) # post"
        by auto
      with True show ?thesis
        by (intro exI [of _ "(k, g) # pre"] exI [of _ post]) (simp add: span_def algebra_simps)
    next
      case False
      with "2.prems" show ?thesis
        by (intro exI [of _ "[]"] exI [of _ "(k, g) # r"]) (simp add: span_def)
    qed
  qed
  from this [OF assms] obtain pre post where p: "ts = pre @ post" "span pre < j"
    "timer_insert j fn ts = pre @ (j - span pre, fn) # post"
    by blast
  have "due_times 0 (timer_insert j fn ts) = due_times 0 pre @ (j, fn) # due_times j post"
    unfolding p(3) by (simp add: due_times_append)
  moreover have "due_times j post = map (\<lambda>(t, f). (t + (j - span pre), f)) (due_times (span pre) post)"
    using due_times_shift [of "span pre" "j - span pre" post] by simp
  ultimately have "due_times 0 (timer_insert j fn ts) = due_times 0 pre @ (j, fn) #
      map (\<lambda>(t, f). (t + (j - span pre), f)) (due_times (span pre) post)"
    by (simp only:)
  then show ?thesis
    by (intro exI [of _ pre] exI [of _ post] conjI p(1,2))
qed

theorem timer_insert_times_witness:
  "\<exists>pre post. [(10, 1)] = pre @ post \<and> span pre < 4 \<and> due_times 0 (timer_insert 4 2 [(10, 1)]) = [(4, 2), (14, 1)]"
proof -
  have "due_times 0 (timer_insert 4 2 [(10, 1)]) = [(4, 2), (14, 1)]"
    by simp
  moreover have "0 < (4 :: int)"
    by simp
  note timer_insert_times [OF this, of "[(10, 1)]" 2]
  ultimately show ?thesis
    by (elim exE conjE) (intro exI conjI)
qed

text \<open>
  The sleepers of a queue run again one after the other, the last one to queue first; each holds
  the task queued before it as \<open>tmp\<close>.
\<close>

fun resume_chain :: "ptr \<Rightarrow> ptr list \<Rightarrow> 'a kernel_scheme \<Rightarrow> 'a kernel_scheme option" where
  "resume_chain p [] s = Some s"
| "resume_chain p (t # ts) s =
     (case sleep_resume (case ts of [] \<Rightarrow> NULL | u # _ \<Rightarrow> u) p (s\<lparr>current := t\<rparr>) of
        Inl s' \<Rightarrow> None
      | Inr s' \<Rightarrow> resume_chain p ts s')"

lemma resume_chain_wakes:
  assumes "distinct (t # ts)" "NULL \<notin> set (t # ts)" "waitq s p = t" "t_state (tsk s t) = 0"
  shows "\<exists>s'. resume_chain p (t # ts) s = Some s' \<and> waitq s' p = NULL \<and>
    (\<forall>u \<in> set (t # ts). t_state (tsk s' u) = 0) \<and> (\<forall>u. u \<notin> set (t # ts) \<longrightarrow> tsk s' u = tsk s u)"
  using assms
proof (induction ts arbitrary: t s)
  case Nil
  then show ?case
    by (simp add: sleep_resume_def)
next
  case (Cons u ts)
  let ?s = "upd_task u (\<lambda>t. t\<lparr>t_state := 0\<rparr>) (s\<lparr>current := t, waitq := (waitq s)(p := u)\<rparr>)"
  have step: "resume_chain p (t # u # ts) s = resume_chain p (u # ts) ?s"
    using Cons.prems by (simp add: sleep_resume_def)
  obtain s' where "resume_chain p (u # ts) ?s = Some s'" "waitq s' p = NULL"
    "\<forall>v \<in> set (u # ts). t_state (tsk s' v) = 0" "\<forall>v. v \<notin> set (u # ts) \<longrightarrow> tsk s' v = tsk ?s v"
    using Cons.IH [of u ?s] Cons.prems by auto
  with step Cons.prems show ?case
    by auto
qed

text \<open>
  C11. No sleeper is lost: after a \<open>wake_up\<close> on a queue of any length, the sleepers that run
  one after the other wake each other, and in the end all are runnable and the queue is empty.
\<close>
theorem wake_up_wakes_all:
  assumes "distinct (t # ts)" "NULL \<notin> set (t # ts)" "waitq s p = t" "p \<noteq> NULL"
  shows "\<exists>s'. resume_chain p (t # ts) (wake_up p s) = Some s' \<and> waitq s' p = NULL \<and>
    (\<forall>u \<in> set (t # ts). t_state (tsk s' u) = TASK_RUNNING) \<and>
    (\<forall>u. u \<notin> set (t # ts) \<longrightarrow> tsk s' u = tsk s u)"
proof -
  have "waitq (wake_up p s) p = t" "t_state (tsk (wake_up p s) t) = 0"
    using assms by (simp_all add: wake_up_def)
  from resume_chain_wakes [OF assms(1,2) this] obtain s' where s': "resume_chain p (t # ts) (wake_up p s) = Some s'"
    "waitq s' p = NULL" "\<forall>u \<in> set (t # ts). t_state (tsk s' u) = 0"
    "\<forall>u. u \<notin> set (t # ts) \<longrightarrow> tsk s' u = tsk (wake_up p s) u"
    by blast
  moreover have "tsk (wake_up p s) u = tsk s u" if "u \<notin> set (t # ts)" for u
    using that assms(3) by (simp add: wake_up_def)
  ultimately show ?thesis
    by (simp add: TASK_RUNNING_def)
qed

theorem wake_up_wakes_all_witness:
  "\<exists>s'. resume_chain 7 [2000, 3000] (wake_up 7 (kernel_example\<lparr>waitq := (\<lambda>p. 0)(7 := 2000)\<rparr>)) = Some s' \<and> waitq s' 7 = NULL"
  using wake_up_wakes_all [of 2000 "[3000]" "kernel_example\<lparr>waitq := (\<lambda>p. 0)(7 := 2000)\<rparr>" 7] by auto

end
