(* ===== verification/Exit.thy ===== *)
theory Exit
  imports Tasks
begin

text \<open>
  kernel/exit.c: sending signals, the process tree and its audit, what a dying process does to
  its relatives, and waiting for children. \<open>do_exit\<close> is modelled from the point where the files
  are closed and the inodes released (\<open>exit_notify\<close>). The loops over the task table follow the
  code in reading through null slots.
\<close>

definition SIGHUP :: int where "SIGHUP = 1"
definition SIGKILL :: int where "SIGKILL = 9"
definition SIGCHLD :: int where "SIGCHLD = 17"
definition SIGCONT :: int where "SIGCONT = 18"
definition SIGSTOP :: int where "SIGSTOP = 19"
definition SIGTTOU :: int where "SIGTTOU = 22"

section \<open>Signals\<close>

definition sig_mask :: "int \<Rightarrow> u32" where
  "sig_mask sig = push_bit (nat (sig - 1)) 1"

definition stop_mask :: u32 where
  "stop_mask = sig_mask 19 OR sig_mask 20 OR sig_mask 21 OR sig_mask 22"

text \<open>What the signal does to its receiver before the tracing test.\<close>

definition post_signal :: "int \<Rightarrow> task_struct \<Rightarrow> task_struct" where
  "post_signal sig t =
     (let t = (if sig = SIGKILL \<or> sig = SIGCONT then
                 t\<lparr>t_state := (if t_state t = TASK_STOPPED then TASK_RUNNING else t_state t),
                   t_exit_code := 0, t_signal := t_signal t AND NOT stop_mask\<rparr>
               else t);
          t = (if SIGSTOP \<le> sig \<and> sig \<le> SIGTTOU
               then t\<lparr>t_signal := t_signal t AND NOT (sig_mask SIGCONT)\<rparr> else t)
      in t\<lparr>t_signal := t_signal t OR sig_mask sig\<rparr>)"

definition send_sig :: "int \<Rightarrow> ptr \<Rightarrow> bool \<Rightarrow> 'a kernel_scheme \<Rightarrow> int \<times> 'a kernel_scheme" where
  "send_sig sig p priv s =
     (if p = NULL \<or> sig < 0 \<or> sig > 32 then (- EINVAL, s)
      else if \<not> priv \<and> t_euid (cur s) \<noteq> t_euid (tsk s p) \<and> \<not> suser s then (- EPERM, s)
      else if sig = 0 then (0, s)
      else let s = upd_task p (post_signal sig) s
           in if t_flags (tsk s p) AND PF_PTRACED \<noteq> 0 then
                let s = upd_task p (\<lambda>t. t\<lparr>t_exit_code := sig\<rparr>) s;
                    parent = t_p_pptr (tsk s p);
                    s = (if parent \<noteq> NULL \<and> t_state (tsk s parent) = TASK_INTERRUPTIBLE
                         then upd_task parent (\<lambda>t. t\<lparr>t_state := TASK_RUNNING\<rparr>) s else s);
                    s = (if t_state (tsk s p) = TASK_INTERRUPTIBLE \<or> t_state (tsk s p) = TASK_RUNNING
                         then upd_task p (\<lambda>t. t\<lparr>t_state := TASK_STOPPED\<rparr>) s else s)
                in (0, if p = current s then yield_cpu s else s)
              else (0, s))"

text \<open>The first slot from 63 down to 1 with a property.\<close>

fun find_slot :: "nat \<Rightarrow> (nat \<Rightarrow> bool) \<Rightarrow> nat option" where
  "find_slot 0 P = None"
| "find_slot (Suc i) P = (if i = 0 then None else if P i then Some i else find_slot i P)"

definition session_of_pgrp :: "int \<Rightarrow> 'a kernel_scheme \<Rightarrow> int" where
  "session_of_pgrp pgrp s =
     (case find_slot NR_TASKS (\<lambda>i. t_pgrp (tsk s (task s i)) = pgrp) of
        Some i \<Rightarrow> t_session (tsk s (task s i))
      | None \<Rightarrow> - 1)"

definition kill_pg_step :: "int \<Rightarrow> int \<Rightarrow> bool \<Rightarrow> nat \<Rightarrow> (nat \<times> int) \<times> 'a kernel_scheme \<Rightarrow> (nat \<times> int) \<times> 'a kernel_scheme" where
  "kill_pg_step pgrp sig priv i a =
     (case a of ((found, retval), s) \<Rightarrow>
        if t_pgrp (tsk s (task s i)) = pgrp then
          if sig \<noteq> 0 then
            (case send_sig sig (task s i) priv s of
               (err, s) \<Rightarrow> if err \<noteq> 0 then ((found, err), s) else ((found + 1, retval), s))
          else ((found + 1, retval), s)
        else a)"

definition kill_pg :: "int \<Rightarrow> int \<Rightarrow> bool \<Rightarrow> 'a kernel_scheme \<Rightarrow> int \<times> 'a kernel_scheme" where
  "kill_pg pgrp sig priv s =
     (if sig < 0 \<or> sig > 32 \<or> pgrp \<le> 0 then (- EINVAL, s)
      else (case for_slots NR_TASKS (kill_pg_step pgrp sig priv) ((0, - ESRCH), s) of
              ((found, retval), s) \<Rightarrow> (if found \<noteq> 0 then 0 else retval, s)))"

definition kill_proc :: "int \<Rightarrow> int \<Rightarrow> bool \<Rightarrow> 'a kernel_scheme \<Rightarrow> int \<times> 'a kernel_scheme" where
  "kill_proc pid sig priv s =
     (if sig < 0 \<or> sig > 32 then (- EINVAL, s)
      else (case find_slot NR_TASKS (\<lambda>i. t_pid (tsk s (task s i)) = pid) of
              Some i \<Rightarrow> if sig \<noteq> 0 then send_sig sig (task s i) priv s else (0, s)
            | None \<Rightarrow> (- ESRCH, s)))"

definition kill_all_step :: "int \<Rightarrow> nat \<Rightarrow> int \<times> 'a kernel_scheme \<Rightarrow> int \<times> 'a kernel_scheme" where
  "kill_all_step sig i a =
     (case a of (retval, s) \<Rightarrow>
        (case send_sig sig (task s i) False s of
           (err, s) \<Rightarrow> (if err \<noteq> 0 then err else retval, s)))"

definition sys_kill :: "int \<Rightarrow> int \<Rightarrow> 'a kernel_scheme \<Rightarrow> int \<times> 'a kernel_scheme" where
  "sys_kill pid sig s =
     (if pid = 0 then kill_pg (t_pid (cur s)) sig False s
      else if pid = - 1 then for_slots NR_TASKS (kill_all_step sig) (0, s)
      else if pid < 0 then kill_pg (- pid) sig False s
      else kill_proc pid sig False s)"

section \<open>The process tree\<close>

definition unlink_task :: "ptr \<Rightarrow> 'a kernel_scheme \<Rightarrow> 'a kernel_scheme" where
  "unlink_task p s =
     (let os = t_p_osptr (tsk s p);
          s = (if os \<noteq> NULL then upd_task os (\<lambda>t. t\<lparr>t_p_ysptr := t_p_ysptr (tsk s p)\<rparr>) s else s);
          ys = t_p_ysptr (tsk s p)
      in if ys \<noteq> NULL then upd_task ys (\<lambda>t. t\<lparr>t_p_osptr := t_p_osptr (tsk s p)\<rparr>) s
         else upd_task (t_p_pptr (tsk s p)) (\<lambda>t. t\<lparr>t_p_cptr := t_p_osptr (tsk s p)\<rparr>) s)"

definition slot_of :: "ptr \<Rightarrow> 'a kernel_scheme \<Rightarrow> nat option" where
  "slot_of p s = List.find (\<lambda>i. task s i = p) [1..<NR_TASKS]"

definition release :: "ptr \<Rightarrow> 'a kernel_scheme \<Rightarrow> (unit, 'a kernel_scheme) outcome" where
  "release p s =
     (if p = NULL then Ret () s
      else if p = current s then Ret () s
      else (case slot_of p s of
              None \<Rightarrow> Panic s
            | Some i \<Rightarrow> Ret () (yield_cpu (free_page (of_nat p)
                                (unlink_task p (s\<lparr>task := (task s)(i := NULL)\<rparr>))))))"

definition bad_task_ptr :: "ptr \<Rightarrow> 'a kernel_scheme \<Rightarrow> bool" where
  "bad_task_ptr p s \<longleftrightarrow> p \<noteq> NULL \<and> \<not> (\<exists>i < NR_TASKS. task s i = p)"

text \<open>Whether \<open>audit_ptree\<close> prints no warning about a task.\<close>

definition audit_task :: "ptr \<Rightarrow> 'a kernel_scheme \<Rightarrow> bool" where
  "audit_task p s \<longleftrightarrow>
     (let t = tsk s p
      in \<not> bad_task_ptr (t_p_pptr t) s \<and> \<not> bad_task_ptr (t_p_cptr t) s \<and>
         \<not> bad_task_ptr (t_p_ysptr t) s \<and> \<not> bad_task_ptr (t_p_osptr t) s \<and>
         t_p_pptr t \<noteq> p \<and> t_p_cptr t \<noteq> p \<and> t_p_ysptr t \<noteq> p \<and> t_p_osptr t \<noteq> p \<and>
         (t_p_osptr t \<noteq> NULL \<longrightarrow> t_p_pptr t = t_p_pptr (tsk s (t_p_osptr t)) \<and>
            t_p_ysptr (tsk s (t_p_osptr t)) = p) \<and>
         (t_p_ysptr t \<noteq> NULL \<longrightarrow> t_p_pptr t = t_p_pptr (tsk s (t_p_ysptr t)) \<and>
            t_p_osptr (tsk s (t_p_ysptr t)) = p) \<and>
         (t_p_cptr t \<noteq> NULL \<longrightarrow> t_p_pptr (tsk s (t_p_cptr t)) = p \<and>
            t_p_ysptr (tsk s (t_p_cptr t)) = NULL))"

definition audit_ptree :: "'a kernel_scheme \<Rightarrow> bool" where
  "audit_ptree s \<longleftrightarrow> (\<forall>i. 0 < i \<and> i < NR_TASKS \<and> task s i \<noteq> NULL \<longrightarrow> audit_task (task s i) s)"

section \<open>Process groups and exit\<close>

definition is_orphaned_pgrp :: "int \<Rightarrow> 'a kernel_scheme \<Rightarrow> bool" where
  "is_orphaned_pgrp pgrp s \<longleftrightarrow>
     find_slot NR_TASKS
       (\<lambda>i. let p = task s i; t = tsk s p; parent = tsk s (t_p_pptr t)
            in \<not> (p = NULL \<or> t_pgrp t \<noteq> pgrp \<or> t_state t = TASK_ZOMBIE \<or> t_pid parent = 1) \<and>
               t_pgrp parent \<noteq> pgrp \<and> t_session parent = t_session t) = None"

definition has_stopped_jobs :: "int \<Rightarrow> 'a kernel_scheme \<Rightarrow> bool" where
  "has_stopped_jobs pgrp s \<longleftrightarrow>
     find_slot NR_TASKS (\<lambda>i. t_pgrp (tsk s (task s i)) = pgrp \<and> t_state (tsk s (task s i)) = TASK_STOPPED) \<noteq> None"

definition hangup_pgrp :: "int \<Rightarrow> 'a kernel_scheme \<Rightarrow> 'a kernel_scheme" where
  "hangup_pgrp pgrp s = snd (kill_pg pgrp SIGCONT True (snd (kill_pg pgrp SIGHUP True s)))"

text \<open>One child given to init (\<open>task[1]\<close>), with the check for a process group that this orphans.\<close>

definition give_one :: "ptr \<Rightarrow> 'a kernel_scheme \<Rightarrow> 'a kernel_scheme" where
  "give_one p s =
     (let s = upd_task p (\<lambda>t. t\<lparr>t_flags := t_flags t AND NOT PF_PTRACED, t_p_pptr := task s 1\<rparr>) s;
          s = (if t_state (tsk s p) = TASK_ZOMBIE
               then upd_task (task s 1) (\<lambda>t. t\<lparr>t_signal := t_signal t OR sig_mask SIGCHLD\<rparr>) s else s);
          t = tsk s p
      in if t_pgrp t \<noteq> t_pgrp (cur s) \<and> t_session t = t_session (cur s) \<and>
            is_orphaned_pgrp (t_pgrp t) s \<and> has_stopped_jobs (t_pgrp t) s
         then hangup_pgrp (t_pgrp t) s else s)"

text \<open>
  The loop over the children: the last one links the whole sibling list in front of init's
  children. \<open>None\<close>: the sibling list does not end.
\<close>

partial_function (option) give_children :: "ptr \<Rightarrow> 'a kernel_scheme \<Rightarrow> 'a kernel_scheme option" where
  "give_children p s =
     (let s = give_one p s
      in if t_p_osptr (tsk s p) \<noteq> NULL then give_children (t_p_osptr (tsk s p)) s
         else let s = upd_task p (\<lambda>t. t\<lparr>t_p_osptr := t_p_cptr (tsk s (task s 1))\<rparr>) s;
                  s = upd_task (t_p_cptr (tsk s (task s 1))) (\<lambda>t. t\<lparr>t_p_ysptr := p\<rparr>) s;
                  s = upd_task (task s 1) (\<lambda>t. t\<lparr>t_p_cptr := t_p_cptr (cur s)\<rparr>) s
              in Some (upd_cur (\<lambda>t. t\<lparr>t_p_cptr := NULL\<rparr>) s))"

definition leave_session :: "'a kernel_scheme \<Rightarrow> 'a kernel_scheme" where
  "leave_session s =
     (if t_leader (cur s) \<noteq> 0 then
        let tty = t_tty (cur s);
            s = (if tty \<ge> 0 then
                   let s = (if tty_pgrp s tty > 0 then snd (kill_pg (tty_pgrp s tty) SIGHUP True s) else s)
                   in s\<lparr>tty_pgrp := (tty_pgrp s)(tty := 0), tty_session := (tty_session s)(tty := 0)\<rparr>
                 else s)
        in for_slots NR_TASKS
             (\<lambda>i s. if t_session (tsk s (task s i)) = t_session (cur s)
                    then upd_task (task s i) (\<lambda>t. t\<lparr>t_tty := - 1\<rparr>) s else s) s
      else s)"

definition exit_notify :: "int \<Rightarrow> 'a kernel_scheme \<Rightarrow> 'a kernel_scheme option" where
  "exit_notify code s =
     (let s = upd_cur (\<lambda>t. t\<lparr>t_state := TASK_ZOMBIE, t_exit_code := code\<rparr>) s;
          parent = tsk s (t_p_pptr (cur s));
          s = (if t_pgrp parent \<noteq> t_pgrp (cur s) \<and> t_session parent = t_session (cur s) \<and>
                  is_orphaned_pgrp (t_pgrp (cur s)) s \<and> has_stopped_jobs (t_pgrp (cur s)) s
               then hangup_pgrp (t_pgrp (cur s)) s else s);
          s = snd (send_sig SIGCHLD (t_p_pptr (cur s)) True s);
          s' = (if t_p_cptr (cur s) \<noteq> NULL then give_children (t_p_cptr (cur s)) s else Some s)
      in case s' of
           None \<Rightarrow> None
         | Some s \<Rightarrow>
             let s = leave_session s
             in schedule (if last_task_used_math s = current s then s\<lparr>last_task_used_math := NULL\<rparr> else s))"

definition sys_exit_code :: "int \<Rightarrow> int" where
  "sys_exit_code error_code = (error_code mod 256) * 256"

section \<open>Waiting for children\<close>

definition WNOHANG :: int where "WNOHANG = 1"
definition WUNTRACED :: int where "WUNTRACED = 2"

definition wait_for :: "int \<Rightarrow> task_struct \<Rightarrow> 'a kernel_scheme \<Rightarrow> bool" where
  "wait_for pid t s =
     (if pid > 0 then t_pid t = pid
      else if pid = 0 then t_pgrp t = t_pgrp (cur s)
      else if pid \<noteq> - 1 then t_pgrp t = - pid
      else True)"

text \<open>
  What the scan of the children finds: a stopped child, a dead one, or neither; with \<open>flag\<close>
  telling whether some child is still to be waited for.
\<close>

datatype wait_found = Stopped ptr | Dead ptr | Nothing bool

partial_function (option) wait_scan :: "int \<Rightarrow> bool \<Rightarrow> bool \<Rightarrow> ptr \<Rightarrow> 'a kernel_scheme \<Rightarrow> wait_found option" where
  "wait_scan pid untraced flag p s =
     (if p = NULL then Some (Nothing flag)
      else let t = tsk s p
           in if \<not> wait_for pid t s then wait_scan pid untraced flag (t_p_osptr t) s
              else if t_state t = TASK_STOPPED then
                if \<not> untraced \<or> t_exit_code t = 0 then wait_scan pid untraced flag (t_p_osptr t) s
                else Some (Stopped p)
              else if t_state t = TASK_ZOMBIE then Some (Dead p)
              else wait_scan pid untraced True (t_p_osptr t) s)"

text \<open>
  One pass of \<open>sys_waitpid\<close> from label \<open>repeat\<close>: done with a result and the status word stored,
  or asleep with SIGCHLD unblocked and the old mask kept; and the step after waking up, which
  goes back to \<open>repeat\<close> (\<open>None\<close>) or is interrupted.
\<close>

datatype wait_step = Waited int "int option" | Asleep u32

definition waitpid_pass :: "int \<Rightarrow> int \<Rightarrow> 'a kernel_scheme \<Rightarrow> (wait_step, 'a kernel_scheme) outcome option" where
  "waitpid_pass pid options s =
     (case wait_scan pid (options div 2 mod 2 = 1) False (t_p_cptr (cur s)) s of
        None \<Rightarrow> None
      | Some (Stopped p) \<Rightarrow>
          Some (Ret (Waited (t_pid (tsk s p)) (Some (t_exit_code (tsk s p) * 256 + 0x7f)))
                    (upd_task p (\<lambda>t. t\<lparr>t_exit_code := 0\<rparr>) s))
      | Some (Dead p) \<Rightarrow>
          let t = tsk s p;
              s = upd_cur (\<lambda>c. c\<lparr>t_cutime := t_cutime c + t_utime t, t_cstime := t_cstime c + t_stime t\<rparr>) s
          in Some (and_then (release p s) (\<lambda>_ s. Ret (Waited (t_pid t) (Some (t_exit_code t))) s))
      | Some (Nothing flag) \<Rightarrow>
          Some (if flag then
                  if options mod 2 = 1 then Ret (Waited 0 None) s
                  else Ret (Asleep (t_blocked (cur s)))
                         (upd_cur (\<lambda>t. t\<lparr>t_state := TASK_INTERRUPTIBLE,
                                        t_blocked := t_blocked t AND NOT (sig_mask SIGCHLD)\<rparr>) s)
                else Ret (Waited (- ECHILD) None) s))"

definition waitpid_resume :: "u32 \<Rightarrow> 'a kernel_scheme \<Rightarrow> int option \<times> 'a kernel_scheme" where
  "waitpid_resume oldblocked s =
     (let s = upd_cur (\<lambda>t. t\<lparr>t_blocked := oldblocked\<rparr>) s
      in if t_signal (cur s) AND NOT (t_blocked (cur s) OR sig_mask SIGCHLD) \<noteq> 0
         then (Some (- ERESTARTSYS), s) else (None, s))"

section \<open>Lemmas\<close>

lemma send_sig_task [simp]: "task (snd (send_sig sig p priv s)) = task s"
  by (simp add: send_sig_def Let_def yield_cpu_def)

lemma find_slot_Some:
  "find_slot n P = Some i \<Longrightarrow> 0 < i \<and> i < n \<and> P i \<and> (\<forall>j. i < j \<and> j < n \<longrightarrow> \<not> P j)"
  by (induction n) (auto split: if_splits simp: less_Suc_eq)

lemma find_slot_None: "find_slot n P = None \<longleftrightarrow> (\<forall>i. 0 < i \<and> i < n \<longrightarrow> \<not> P i)"
  by (induction n) (auto simp: less_Suc_eq)

section \<open>Properties\<close>



text \<open>
  \<open>kill(-1, sig)\<close> reports an error whenever the task table has an empty slot, even if the
  signal was delivered to every task there is.
\<close>
theorem kill_all_fails:
  assumes "0 < i" "i < NR_TASKS" "task s i = NULL"
  shows "fst (sys_kill (- 1) sig s) \<noteq> 0"
proof -
  let ?P = "\<lambda>n (a :: int \<times> 'a kernel_scheme). task (snd a) = task s \<and> (n \<le> i \<longrightarrow> fst a \<noteq> 0)"
  have step: "?P j (kill_all_step sig j a)" if "?P (Suc j) a" for j a
  proof (cases "j = i")
    case True
    with that assms(3) show ?thesis
      by (cases a) (simp add: kill_all_step_def send_sig_def)
  next
    case False
    obtain r u where u: "send_sig sig (task (snd a) j) False (snd a) = (r, u)"
      by fastforce
    have "task (snd (send_sig sig (task (snd a) j) False (snd a))) = task (snd a)"
      by (rule send_sig_task)
    with that have "task u = task s"
      unfolding u by simp
    with False u that show ?thesis
      by (cases a) (auto simp: kill_all_step_def)
  qed
  have "fst (for_slots n (kill_all_step sig) a) \<noteq> 0" if "?P n a" "n \<le> NR_TASKS" for n a
    using that
  proof (induction n arbitrary: a)
    case (Suc n)
    show ?case
    proof (cases "n = 0")
      case True
      with Suc.prems assms(1) show ?thesis
        by simp
    next
      case False
      with Suc.IH [OF step [OF Suc.prems(1)]] Suc.prems(2) show ?thesis
        by simp
    qed
  qed (use assms in simp)
  then show ?thesis
    using assms(2) by (simp add: sys_kill_def)
qed

theorem kill_all_fails_witness:
  "fst (sys_kill (- 1) 15 kernel_example) \<noteq> 0"
  using kill_all_fails [where s = kernel_example and i = 5] by (simp add: NR_TASKS_def)

section \<open>Release and the process tree\<close>

lemma tsk_free_page [simp]:
  "tsk (free_page q s) = tsk s" "task (free_page q s) = task s" "current (free_page q s) = current s"
  by (simp_all add: free_page_def Let_def)

text \<open>The links after \<open>unlink_task\<close>.\<close>

lemma unlink_links:
  assumes "t_p_osptr (tsk s p) \<noteq> p" "t_p_ysptr (tsk s p) \<noteq> p"
  shows "t_p_pptr (tsk (unlink_task p s) q) = t_p_pptr (tsk s q)"
    "t_p_ysptr (tsk (unlink_task p s) q) =
       (if q = t_p_osptr (tsk s p) \<and> q \<noteq> NULL then t_p_ysptr (tsk s p) else t_p_ysptr (tsk s q))"
    "t_p_osptr (tsk (unlink_task p s) q) =
       (if q = t_p_ysptr (tsk s p) \<and> q \<noteq> NULL then t_p_osptr (tsk s p) else t_p_osptr (tsk s q))"
    "t_p_cptr (tsk (unlink_task p s) q) =
       (if q = t_p_pptr (tsk s p) \<and> t_p_ysptr (tsk s p) = NULL then t_p_osptr (tsk s p) else t_p_cptr (tsk s q))"
  using assms by (auto simp: unlink_task_def Let_def)

lemma slot_of_Some: "slot_of p s = Some i \<Longrightarrow> 0 < i \<and> i < NR_TASKS \<and> task s i = p"
  by (auto simp: slot_of_def find_Some_iff)

lemma tsk_task_update: "tsk (s\<lparr>task := f\<rparr>) = tsk s"
  by simp

text \<open>
  Taking \<open>p\<close> out of a doubly linked list keeps the link of any other \<open>q\<close> in one direction
  (\<open>f\<close>) and back (\<open>g\<close>); used for both directions of the sibling list.
\<close>

lemma unlink_sibling:
  fixes f g f' g' par :: "ptr \<Rightarrow> ptr"
  assumes "f p \<noteq> NULL \<longrightarrow> par p = par (f p) \<and> g (f p) = p"
    and "g p \<noteq> NULL \<longrightarrow> par p = par (g p) \<and> f (g p) = p"
    and "f q \<noteq> NULL \<longrightarrow> par q = par (f q) \<and> g (f q) = q"
    and "q \<noteq> p" "q \<noteq> NULL"
    and f': "\<And>x. f' x = (if x = g p \<and> x \<noteq> NULL then f p else f x)"
    and g': "\<And>x. g' x = (if x = f p \<and> x \<noteq> NULL then g p else g x)"
  shows "f' q \<noteq> NULL \<longrightarrow> par q = par (f' q) \<and> g' (f' q) = q"
proof (cases "q = g p")
  case True
  with assms show ?thesis
    by (simp add: f' g')
next
  case False
  then have "f' q = f q"
    by (simp add: f')
  moreover have "f q \<noteq> f p" if "f q \<noteq> NULL"
    using that assms(1,3,4) by auto
  ultimately show ?thesis
    using assms(3) by (simp add: g')
qed

lemma unlink_child:
  fixes f g g' ch ch' par :: "ptr \<Rightarrow> ptr"
  assumes "f p \<noteq> NULL \<longrightarrow> par p = par (f p) \<and> g (f p) = p"
    and "ch q \<noteq> NULL \<longrightarrow> par (ch q) = q \<and> g (ch q) = NULL" "p \<noteq> NULL"
    and ch': "ch' q = (if q = par p \<and> g p = NULL then f p else ch q)"
    and g': "\<And>x. g' x = (if x = f p \<and> x \<noteq> NULL then g p else g x)"
  shows "ch' q \<noteq> NULL \<longrightarrow> par (ch' q) = q \<and> g' (ch' q) = NULL"
proof (cases "q = par p \<and> g p = NULL")
  case True
  then have "ch' q = f p"
    unfolding ch' by (rule if_P)
  moreover have "par (f p) = q \<and> g' (f p) = NULL" if "f p \<noteq> NULL"
    using that assms(1) True by (simp add: g')
  ultimately show ?thesis
    by simp
next
  case False
  then have "ch' q = ch q"
    unfolding ch' by (rule if_not_P)
  moreover have "ch q \<noteq> f p" if "ch q \<noteq> NULL"
    using that assms(1-3) by auto
  ultimately show ?thesis
    using assms(2) by (simp add: g')
qed

lemma audit_task_parts:
  assumes "audit_task q s"
  shows "t_p_pptr (tsk s q) \<noteq> q" "t_p_cptr (tsk s q) \<noteq> q" "t_p_ysptr (tsk s q) \<noteq> q" "t_p_osptr (tsk s q) \<noteq> q"
    "\<not> bad_task_ptr (t_p_pptr (tsk s q)) s" "\<not> bad_task_ptr (t_p_cptr (tsk s q)) s"
    "\<not> bad_task_ptr (t_p_ysptr (tsk s q)) s" "\<not> bad_task_ptr (t_p_osptr (tsk s q)) s"
    "t_p_osptr (tsk s q) \<noteq> NULL \<longrightarrow> t_p_pptr (tsk s q) = t_p_pptr (tsk s (t_p_osptr (tsk s q))) \<and>
       t_p_ysptr (tsk s (t_p_osptr (tsk s q))) = q"
    "t_p_ysptr (tsk s q) \<noteq> NULL \<longrightarrow> t_p_pptr (tsk s q) = t_p_pptr (tsk s (t_p_ysptr (tsk s q))) \<and>
       t_p_osptr (tsk s (t_p_ysptr (tsk s q))) = q"
    "t_p_cptr (tsk s q) \<noteq> NULL \<longrightarrow> t_p_pptr (tsk s (t_p_cptr (tsk s q))) = q \<and> t_p_ysptr (tsk s (t_p_cptr (tsk s q))) = NULL"
  using assms by (auto simp: audit_task_def Let_def)

lemma audit_task_unlinked:
  assumes p: "audit_task p s" and q: "audit_task q s"
    and "task s i = p" "p \<noteq> NULL" "q \<noteq> p" "q \<noteq> NULL" "t_p_pptr (tsk s q) \<noteq> p"
    and "t_p_osptr (tsk s p) = NULL \<or> t_p_osptr (tsk s p) \<noteq> t_p_ysptr (tsk s p)"
  shows "audit_task q (unlink_task p (s\<lparr>task := (task s)(i := NULL)\<rparr>))"
proof -
  define u where "u = unlink_task p (s\<lparr>task := (task s)(i := NULL)\<rparr>)"
  define f where "f = (\<lambda>x. t_p_osptr (tsk s x))"
  define g where "g = (\<lambda>x. t_p_ysptr (tsk s x))"
  define ch where "ch = (\<lambda>x. t_p_cptr (tsk s x))"
  define par where "par = (\<lambda>x. t_p_pptr (tsk s x))"
  note folds = fun_cong [OF f_def, symmetric] fun_cong [OF g_def, symmetric]
    fun_cong [OF ch_def, symmetric] fun_cong [OF par_def, symmetric]
  note pa = audit_task_parts [OF p, unfolded folds]
  note qa = audit_task_parts [OF q, unfolded folds]
  have links: "t_p_pptr (tsk u x) = par x"
    "t_p_ysptr (tsk u x) = (if x = f p \<and> x \<noteq> NULL then g p else g x)"
    "t_p_osptr (tsk u x) = (if x = g p \<and> x \<noteq> NULL then f p else f x)"
    "t_p_cptr (tsk u x) = (if x = par p \<and> g p = NULL then f p else ch x)" for x
    using unlink_links [of "s\<lparr>task := (task s)(i := NULL)\<rparr>" p x, folded u_def, unfolded tsk_task_update folds, OF pa(4,3)] .
  have good: "\<not> bad_task_ptr x u" if "\<not> bad_task_ptr x s" "x \<noteq> p" for x
    using that assms(3) by (auto simp: bad_task_ptr_def u_def unlink_task_def Let_def)
  have choice: "\<not> bad_task_ptr (if b then x else y) u"
    if "\<not> bad_task_ptr x s" "x \<noteq> p" "\<not> bad_task_ptr y s" "y = p \<Longrightarrow> b" for b x y
    using that good by (cases b) auto
  have "\<not> bad_task_ptr (t_p_cptr (tsk u q)) u"
    unfolding links by (rule choice [OF pa(8,4) qa(6)]) (use qa(11) assms(4) in auto)
  moreover have "\<not> bad_task_ptr (t_p_ysptr (tsk u q)) u"
    unfolding links by (rule choice [OF pa(7,3) qa(7)]) (use qa(10) assms(4,6) in auto)
  moreover have "\<not> bad_task_ptr (t_p_osptr (tsk u q)) u"
    unfolding links by (rule choice [OF pa(8,4) qa(8)]) (use qa(9) assms(4,6) in auto)
  moreover have pick: "(if b then x else y) \<noteq> q" if "b \<Longrightarrow> x \<noteq> q" "y \<noteq> q" for b x y
    using that by (cases b) auto
  have "f p \<noteq> q" if "q = par p \<and> g p = NULL"
  proof
    assume "f p = q"
    with pa(9) assms(6) have "par p = par q"
      by auto
    with that qa(1) show False
      by simp
  qed
  then have "t_p_cptr (tsk u q) \<noteq> q"
    unfolding links by (rule pick [OF _ qa(2)])
  moreover have "f p \<noteq> q" if "q = g p \<and> q \<noteq> NULL"
    using that assms(8) [unfolded folds] by (elim conjE disjE) (simp_all only: simp_thms not_sym)
  then have "t_p_osptr (tsk u q) \<noteq> q"
    unfolding links by (rule pick [OF _ qa(4)])
  moreover have "g p \<noteq> q" if "q = f p \<and> q \<noteq> NULL"
    using that assms(8) [unfolded folds] by (elim conjE disjE) (simp_all only: simp_thms not_sym)
  then have "t_p_ysptr (tsk u q) \<noteq> q"
    unfolding links by (rule pick [OF _ qa(3)])
  moreover note unlink_sibling [OF pa(9,10) qa(9) assms(5,6) links(3,2)]
    unlink_sibling [OF pa(10,9) qa(10) assms(5,6) links(2,3)]
    unlink_child [where f = f and g = g and par = par and ch = ch and p = p and q = q
      and ch' = "\<lambda>x. t_p_cptr (tsk u x)" and g' = "\<lambda>x. t_p_ysptr (tsk u x)", OF pa(9) qa(11) assms(4) links(4,2)]
  moreover have "par q \<noteq> p"
    using assms(7) by (simp add: par_def)
  then have "\<not> bad_task_ptr (par q) u"
    using good qa(5) by blast
  ultimately show ?thesis
    using qa(1) unfolding u_def [symmetric] audit_task_def Let_def links(1) by blast
qed

text \<open>
  C13. \<open>release\<close> of a dead child keeps the rules that \<open>audit_ptree\<close> checks for every task that
  stays, and takes the task out of the table.
\<close>
theorem release_keeps_audit:
  assumes "audit_ptree s" "slot_of p s = Some i" "p \<noteq> NULL" "p \<noteq> current s"
    and "\<And>j. j < NR_TASKS \<Longrightarrow> task s j = p \<Longrightarrow> j = i"
    and "\<And>j. j < NR_TASKS \<Longrightarrow> task s j \<noteq> NULL \<Longrightarrow> t_p_pptr (tsk s (task s j)) \<noteq> p"
    and "t_p_osptr (tsk s p) = NULL \<or> t_p_osptr (tsk s p) \<noteq> t_p_ysptr (tsk s p)"
  shows "\<exists>s'. release p s = Ret () s' \<and> audit_ptree s' \<and> slot_of p s' = None \<and>
    task s' = (task s)(i := NULL)"
proof -
  note i = slot_of_Some [OF assms(2)]
  define u where "u = unlink_task p (s\<lparr>task := (task s)(i := NULL)\<rparr>)"
  have task: "task u = (task s)(i := NULL)"
    by (simp add: u_def unlink_task_def Let_def)
  have p: "audit_task p s"
    using assms(1,3) i unfolding audit_ptree_def by blast
  have "audit_task (task u j) u" if j: "0 < j" "j < NR_TASKS" "task u j \<noteq> NULL" for j
  proof -
    have "j \<noteq> i" "task u j = task s j"
      using j(3) unfolding task by (auto split: if_splits)
    with j assms(1,5,6) show ?thesis
      unfolding u_def audit_ptree_def
      by (intro audit_task_unlinked [OF p]) (use i assms(3,7) in auto)
  qed
  then have "audit_ptree u"
    unfolding audit_ptree_def by blast
  moreover have "audit_task q (yield_cpu (free_page r v)) = audit_task q v" for q r and v :: "'a kernel_scheme"
    by (simp add: audit_task_def bad_task_ptr_def yield_cpu_def)
  moreover have "release p s = Ret () (yield_cpu (free_page (of_nat p) u))"
    using assms(2-4) by (simp add: release_def u_def)
  moreover have "slot_of p (yield_cpu (free_page (of_nat p) u)) = None"
    unfolding slot_of_def find_None_iff using assms(3,5) by (auto simp: yield_cpu_def task)
  ultimately show ?thesis
    by (simp add: audit_ptree_def yield_cpu_def task)
qed

text \<open>Init at 2000 with one dead child at 3000.\<close>

definition family_example :: kernel where
  "family_example = kernel_example
     \<lparr>task := (\<lambda>i. 0)(0 := 1000, 1 := 2000, 2 := 3000),
      tsk := (\<lambda>p. task_example)
        (2000 := task_example\<lparr>t_p_cptr := 3000\<rparr>,
         3000 := task_example\<lparr>t_pid := 2, t_p_pptr := 2000, t_state := TASK_ZOMBIE\<rparr>)\<rparr>"

lemma family_example_simps [simp]:
  "task family_example i = (if i = 0 then 1000 else if i = 1 then 2000 else if i = 2 then 3000 else 0)"
  "tsk family_example p = (if p = 2000 then task_example\<lparr>t_p_cptr := 3000\<rparr>
     else if p = 3000 then task_example\<lparr>t_pid := 2, t_p_pptr := 2000, t_state := TASK_ZOMBIE\<rparr> else task_example)"
  "current family_example = 2000"
  by (simp_all add: family_example_def)

lemma family_example_audit: "audit_ptree family_example"
proof -
  have "\<not> bad_task_ptr 0 family_example" "\<not> bad_task_ptr 1000 family_example"
    "\<not> bad_task_ptr 2000 family_example" "\<not> bad_task_ptr 3000 family_example"
    unfolding bad_task_ptr_def NR_TASKS_def not_not de_Morgan_conj
    by (blast, intro disjI2 exI [of _ 0], simp, intro disjI2 exI [of _ 1], simp, intro disjI2 exI [of _ 2], simp)
  then show ?thesis
    by (auto simp: audit_ptree_def audit_task_def Let_def task_example_def)
qed

lemma slot_of_unique:
  assumes "i < NR_TASKS" "0 < i" "task s i = p" "\<And>j. j < i \<Longrightarrow> 0 < j \<Longrightarrow> task s j \<noteq> p"
  shows "slot_of p s = Some i"
  unfolding slot_of_def find_Some_iff
  using assms by (intro exI [of _ "i - 1"]) (auto simp: nth_append)

theorem release_keeps_audit_witness:
  "\<exists>s'. release 3000 family_example = Ret () s' \<and> audit_ptree s' \<and> slot_of 3000 s' = None"
proof -
  have "slot_of 3000 family_example = Some 2"
    by (rule slot_of_unique) (auto simp: NR_TASKS_def)
  moreover have "j = 2" if "task family_example j = 3000" for j
    using that by (simp split: if_splits)
  moreover have "t_p_pptr (tsk family_example q) \<noteq> 3000" for q
    by (simp add: task_example_def)
  moreover have "t_p_osptr (tsk family_example 3000) = NULL"
    by (simp add: task_example_def)
  ultimately show ?thesis
    using release_keeps_audit [OF family_example_audit, of 3000 2]
    by (simp del: family_example_simps(1,2)) blast
qed

text \<open>Signals leave the four family links of every task alone.\<close>

definition family :: "'a kernel_scheme \<Rightarrow> ptr \<Rightarrow> ptr \<times> ptr \<times> ptr \<times> ptr" where
  "family s p = (let t = tsk s p in (t_p_pptr t, t_p_cptr t, t_p_ysptr t, t_p_osptr t))"

lemma family_if: "family x = f \<Longrightarrow> family y = f \<Longrightarrow> family (if b then x else y) = f"
  by simp

lemma family_upd_task:
  assumes "\<And>t. t_p_pptr (g t) = t_p_pptr t" "\<And>t. t_p_cptr (g t) = t_p_cptr t"
    "\<And>t. t_p_ysptr (g t) = t_p_ysptr t" "\<And>t. t_p_osptr (g t) = t_p_osptr t" "family s = f"
  shows "family (upd_task q g s) = f"
  using assms(1-4) by (simp add: family_def fun_eq_iff Let_def flip: assms(5))

lemma family_yield: "family s = f \<Longrightarrow> family (yield_cpu s) = f"
  by (auto simp: family_def yield_cpu_def)

lemmas family_intros = family_if family_upd_task family_yield

lemma post_signal_links [simp]:
  "t_p_pptr (post_signal sig t) = t_p_pptr t" "t_p_cptr (post_signal sig t) = t_p_cptr t"
  "t_p_ysptr (post_signal sig t) = t_p_ysptr t" "t_p_osptr (post_signal sig t) = t_p_osptr t"
  by (simp_all add: post_signal_def Let_def)

lemma family_send_sig: "family (snd (send_sig sig p priv s)) = family s"
  unfolding send_sig_def Let_def if_distrib [of snd] snd_conv
  by (intro family_intros refl) simp_all

lemma current_send_sig: "current (snd (send_sig sig p priv s)) = current s"
  by (simp add: send_sig_def Let_def yield_cpu_def)

lemma kill_pg_keeps:
  fixes s :: "'a kernel_scheme"
  shows "family (snd (kill_pg pgrp sig priv s)) = family s \<and> task (snd (kill_pg pgrp sig priv s)) = task s \<and>
    current (snd (kill_pg pgrp sig priv s)) = current s"
proof (cases "sig < 0 \<or> sig > 32 \<or> pgrp \<le> 0")
  case False
  define inv where "inv = (\<lambda>a :: (nat \<times> int) \<times> 'a kernel_scheme. family (snd a) = family s \<and> task (snd a) = task s \<and> current (snd a) = current s)"
  have "inv (for_slots NR_TASKS (kill_pg_step pgrp sig priv) ((0, - ESRCH), s))"
  proof (rule for_slots_inv)
    fix i and a :: "(nat \<times> int) \<times> 'a kernel_scheme"
    assume "inv a"
    moreover have "kill_pg_step pgrp sig priv i a = a \<or> snd (kill_pg_step pgrp sig priv i a) = snd a \<or>
        snd (kill_pg_step pgrp sig priv i a) = snd (send_sig sig (task (snd a) i) priv (snd a))"
      by (auto simp: kill_pg_step_def split: prod.splits)
    ultimately show "inv (kill_pg_step pgrp sig priv i a)"
      unfolding inv_def by (elim disjE) (simp_all add: family_send_sig current_send_sig)
  qed (simp add: inv_def)
  with False show ?thesis
    by (auto simp: kill_pg_def inv_def split: prod.splits)
qed (auto simp: kill_pg_def)

lemma hangup_keeps:
  "family (hangup_pgrp pgrp s) = family s" "task (hangup_pgrp pgrp s) = task s"
  "current (hangup_pgrp pgrp s) = current s"
  by (simp_all add: hangup_pgrp_def kill_pg_keeps)

text \<open>A sibling list: the tasks from \<open>p\<close> on, linked from younger to older.\<close>

fun sibling_list :: "(ptr \<Rightarrow> ptr) \<Rightarrow> ptr \<Rightarrow> ptr list \<Rightarrow> bool" where
  "sibling_list os p [] \<longleftrightarrow> False"
| "sibling_list os p [x] \<longleftrightarrow> p = x \<and> x \<noteq> NULL \<and> os x = NULL"
| "sibling_list os p (x # y # ys) \<longleftrightarrow> p = x \<and> x \<noteq> NULL \<and> os x = y \<and> sibling_list os y (y # ys)"

lemma give_one_keeps:
  "family (give_one p s) = (family s)(p := (case family s p of (_, c, y, os) \<Rightarrow> (task s 1, c, y, os)))"
  "task (give_one p s) = task s" "current (give_one p s) = current s"
proof -
  define u where "u = upd_task p (\<lambda>t. t\<lparr>t_flags := t_flags t AND NOT PF_PTRACED, t_p_pptr := task s 1\<rparr>) s"
  define v where "v = (if t_state (tsk u p) = TASK_ZOMBIE
    then upd_task (task u 1) (\<lambda>t. t\<lparr>t_signal := t_signal t OR sig_mask SIGCHLD\<rparr>) u else u)"
  have u: "family u = (family s)(p := (case family s p of (_, c, y, os) \<Rightarrow> (task s 1, c, y, os)))"
    by (simp add: u_def family_def fun_eq_iff Let_def)
  have v: "family v = family u" "task v = task s" "current v = current s"
    unfolding v_def by ((intro family_intros refl; simp), simp_all add: u_def)
  have g: "give_one p s = v \<or> give_one p s = hangup_pgrp (t_pgrp (tsk v p)) v"
    by (simp add: give_one_def Let_def v_def u_def)
  from g show "family (give_one p s) = (family s)(p := (case family s p of (_, c, y, os) \<Rightarrow> (task s 1, c, y, os)))"
    by (elim disjE) (simp_all only: hangup_keeps v u)
  from g show "task (give_one p s) = task s" "current (give_one p s) = current s"
    by (elim disjE; simp only: hangup_keeps v)+
qed

lemma give_one_links:
  "t_p_pptr (tsk (give_one p s) q) = (if q = p then task s 1 else t_p_pptr (tsk s q))"
  "t_p_cptr (tsk (give_one p s) q) = t_p_cptr (tsk s q)"
  "t_p_ysptr (tsk (give_one p s) q) = t_p_ysptr (tsk s q)"
  "t_p_osptr (tsk (give_one p s) q) = t_p_osptr (tsk s q)"
  using fun_cong [OF give_one_keeps(1), of p s q] by (auto simp: family_def Let_def split: if_splits)

lemma sibling_list_cong:
  "sibling_list os p xs \<Longrightarrow> (\<And>x. x \<in> set xs \<Longrightarrow> os' x = os x) \<Longrightarrow> sibling_list os' p xs"
  by (induction os p xs rule: sibling_list.induct) auto

text \<open>The last child, alone: its links into init's family.\<close>

lemma give_last:
  assumes "t_p_osptr (tsk s p) = NULL" "p \<noteq> task s 1" "p \<noteq> current s" "task s 1 \<noteq> current s"
    "t_p_cptr (tsk s (task s 1)) = old" "old \<noteq> p"
  obtains s' where "give_children p s = Some s'" "t_p_osptr (tsk s' p) = old" "t_p_ysptr (tsk s' old) = p"
    "t_p_cptr (tsk s' (task s 1)) = t_p_cptr (cur s)" "t_p_cptr (tsk s' (current s)) = NULL"
    "\<And>z. t_p_pptr (tsk s' z) = (if z = p then task s 1 else t_p_pptr (tsk s z))"
    "\<And>z. z \<noteq> p \<Longrightarrow> t_p_osptr (tsk s' z) = t_p_osptr (tsk s z)"
proof -
  define u where "u = give_one p s"
  have u: "t_p_pptr (tsk u q) = (if q = p then task s 1 else t_p_pptr (tsk s q))"
    "t_p_cptr (tsk u q) = t_p_cptr (tsk s q)" "t_p_osptr (tsk u q) = t_p_osptr (tsk s q)"
    "task u = task s" "current u = current s" for q
    by (simp_all add: u_def give_one_links give_one_keeps)
  define v where "v = upd_task old (\<lambda>t. t\<lparr>t_p_ysptr := p\<rparr>) (upd_task p (\<lambda>t. t\<lparr>t_p_osptr := old\<rparr>) u)"
  define w where "w = upd_cur (\<lambda>t. t\<lparr>t_p_cptr := NULL\<rparr>) (upd_task (task s 1) (\<lambda>t. t\<lparr>t_p_cptr := t_p_cptr (cur s)\<rparr>) v)"
  have "give_children p s = Some w"
    using assms by (subst give_children.simps) (simp add: u_def [symmetric] u v_def w_def Let_def cur_def)
  then show thesis
    by (rule that) (use assms in \<open>simp_all add: w_def v_def upd_cur_def u\<close>)
qed

text \<open>
  The children of a dying process (a sibling list that does not hold init or the process
  itself): the loop ends, every one of them has init as its parent, the last one is linked in
  front of init's former children, init's youngest child is the first of them, and the process
  has none left. The link back is written through init's old child pointer also when init had
  no child, that is into the structure at address 0.
\<close>
theorem orphans_go_to_init:
  assumes "sibling_list (\<lambda>x. t_p_osptr (tsk s x)) p xs" "distinct xs" "task s 1 \<notin> set xs" "current s \<notin> set xs"
    "task s 1 \<noteq> current s" "t_p_cptr (tsk s (task s 1)) = old" "old \<notin> set xs"
  shows "\<exists>s'. give_children p s = Some s' \<and>
    (\<forall>x. t_p_pptr (tsk s' x) = (if x \<in> set xs then task s 1 else t_p_pptr (tsk s x))) \<and>
    t_p_osptr (tsk s' (last xs)) = old \<and> t_p_ysptr (tsk s' old) = last xs \<and>
    (\<forall>x. x \<noteq> last xs \<longrightarrow> t_p_osptr (tsk s' x) = t_p_osptr (tsk s x)) \<and>
    t_p_cptr (tsk s' (task s 1)) = t_p_cptr (cur s) \<and> t_p_cptr (tsk s' (current s)) = NULL"
  using assms
proof (induction xs arbitrary: p s)
  case (Cons x xs)
  show ?case
  proof (cases xs)
    case Nil
    with Cons.prems have "p = x" "t_p_osptr (tsk s x) = NULL" "x \<noteq> task s 1" "x \<noteq> current s" "old \<noteq> x"
      by auto
    moreover from this obtain s' where "give_children x s = Some s'" "t_p_osptr (tsk s' x) = old" "t_p_ysptr (tsk s' old) = x"
      "t_p_cptr (tsk s' (task s 1)) = t_p_cptr (cur s)" "t_p_cptr (tsk s' (current s)) = NULL"
      "\<And>z. t_p_pptr (tsk s' z) = (if z = x then task s 1 else t_p_pptr (tsk s z))"
      "\<And>z. z \<noteq> x \<Longrightarrow> t_p_osptr (tsk s' z) = t_p_osptr (tsk s z)"
      using give_last [of s x old] Cons.prems(5,6) by blast
    ultimately show ?thesis
      using Nil by (intro exI [of _ s']) (simp add: Nil)
  next
    case (Cons y ys)
    define u where "u = give_one p s"
    have u: "t_p_pptr (tsk u q) = (if q = p then task s 1 else t_p_pptr (tsk s q))"
      "t_p_cptr (tsk u q) = t_p_cptr (tsk s q)" "t_p_osptr (tsk u q) = t_p_osptr (tsk s q)"
      "task u = task s" "current u = current s" "cur u = tsk u (current s)" for q
      by (simp_all add: u_def give_one_links give_one_keeps cur_def)
    have p: "p = x" "t_p_osptr (tsk s p) = y" "y \<noteq> NULL" "sibling_list (\<lambda>x. t_p_osptr (tsk u x)) y xs"
      using Cons.prems(1) Cons by (auto simp: u elim: sibling_list.elims)
    have "give_children p s = give_children y u"
      using p(2,3) by (subst give_children.simps) (simp add: Let_def u_def [symmetric] u)
    moreover have "t_p_cptr (cur u) = t_p_cptr (cur s)"
      by (simp add: u cur_def)
    ultimately show ?thesis
      using Cons.IH [of u y] Cons.prems p Cons by (auto simp: u)
  qed
qed simp

definition orphans_example :: kernel where
  "orphans_example = kernel_example
     \<lparr>task := (\<lambda>i. 0)(0 := 1000, 1 := 2000, 2 := 3000, 3 := 4000, 4 := 5000), current := 3000,
      tsk := (\<lambda>p. task_example)(2000 := task_example\<lparr>t_p_cptr := 3000\<rparr>, 3000 := task_example\<lparr>t_p_cptr := 5000\<rparr>,
        5000 := task_example\<lparr>t_p_pptr := 3000, t_p_osptr := 4000\<rparr>, 4000 := task_example\<lparr>t_p_pptr := 3000, t_p_ysptr := 5000\<rparr>)\<rparr>"

theorem orphans_go_to_init_witness:
  "\<exists>s'. give_children 5000 orphans_example = Some s' \<and> t_p_pptr (tsk s' 4000) = 2000 \<and>
     t_p_pptr (tsk s' 5000) = 2000 \<and> t_p_osptr (tsk s' 4000) = 3000 \<and> t_p_cptr (tsk s' 2000) = 5000"
  using orphans_go_to_init [where s = orphans_example and p = 5000 and xs = "[5000, 4000]" and old = 3000]
  by (auto simp: orphans_example_def task_example_def cur_def)

end
