(* ===== verification/Userspace.thy ===== *)
theory Userspace
  imports Tasks
begin

text \<open>
  include/asm/segment.h and \<open>verify_area\<close> of kernel/fork.c: how a system call reads and writes
  the memory of its caller. The data segment is \<open>fs_mem\<close>; a multi-byte access is little
  endian and wraps at the end of the address space.
\<close>

section \<open>Access through the fs segment\<close>

definition get_fs_byte :: "u32 \<Rightarrow> 'a kernel_scheme \<Rightarrow> u8" where
  "get_fs_byte addr s = fs_mem s addr"

definition get_fs_word :: "u32 \<Rightarrow> 'a kernel_scheme \<Rightarrow> u16" where
  "get_fs_word addr s = ucast (fs_mem s addr) OR push_bit 8 (ucast (fs_mem s (addr + 1)))"

definition get_fs_long :: "u32 \<Rightarrow> 'a kernel_scheme \<Rightarrow> u32" where
  "get_fs_long addr s =
     ucast (fs_mem s addr) OR push_bit 8 (ucast (fs_mem s (addr + 1))) OR
     push_bit 16 (ucast (fs_mem s (addr + 2))) OR push_bit 24 (ucast (fs_mem s (addr + 3)))"

definition put_fs_byte :: "u8 \<Rightarrow> u32 \<Rightarrow> 'a kernel_scheme \<Rightarrow> 'a kernel_scheme" where
  "put_fs_byte val addr s = s\<lparr>fs_mem := (fs_mem s)(addr := val)\<rparr>"

definition put_fs_word :: "u16 \<Rightarrow> u32 \<Rightarrow> 'a kernel_scheme \<Rightarrow> 'a kernel_scheme" where
  "put_fs_word val addr s =
     s\<lparr>fs_mem := (fs_mem s)(addr := ucast val, addr + 1 := ucast (drop_bit 8 val))\<rparr>"

definition put_fs_long :: "u32 \<Rightarrow> u32 \<Rightarrow> 'a kernel_scheme \<Rightarrow> 'a kernel_scheme" where
  "put_fs_long val addr s =
     s\<lparr>fs_mem := (fs_mem s)(addr := ucast val, addr + 1 := ucast (drop_bit 8 val),
        addr + 2 := ucast (drop_bit 16 val), addr + 3 := ucast (drop_bit 24 val))\<rparr>"

text \<open>Writes go to user memory and nowhere else.\<close>

lemma put_fs_fields [simp]:
  "tsk (put_fs_long v a s) = tsk s" "current (put_fs_long v a s) = current s"
  "tsk (put_fs_byte w a s) = tsk s" "current (put_fs_byte w a s) = current s"
  "tsk (put_fs_word x a s) = tsk s" "current (put_fs_word x a s) = current s"
  "startup_time (put_fs_long v a s) = startup_time s" "jiffies (put_fs_long v a s) = jiffies s"
  "jiffies_offset (put_fs_long v a s) = jiffies_offset s"
  by (simp_all add: put_fs_long_def put_fs_byte_def put_fs_word_def)

lemma fs_mem_put_fs_long:
  "fs_mem (put_fs_long v a s) b =
     (if b = a + 3 then ucast (drop_bit 24 v) else if b = a + 2 then ucast (drop_bit 16 v)
      else if b = a + 1 then ucast (drop_bit 8 v) else if b = a then ucast v else fs_mem s b)"
  by (simp add: put_fs_long_def)

lemma get_put_fs_long: "get_fs_long a (put_fs_long v a s) = v"
proof -
  have "a + 3 \<noteq> a" "a + 2 \<noteq> a" "a + 1 \<noteq> a" "a + 2 \<noteq> a + 3" "a + 1 \<noteq> a + 3" "a + 1 \<noteq> a + 2"
    by (simp_all add: word_eq_iff_unsigned)
  then have bytes: "get_fs_long a (put_fs_long v a s) = ucast (ucast v :: u8) OR push_bit 8 (ucast (ucast (drop_bit 8 v) :: u8)) OR
      push_bit 16 (ucast (ucast (drop_bit 16 v) :: u8)) OR push_bit 24 (ucast (ucast (drop_bit 24 v) :: u8))"
    by (simp add: get_fs_long_def fs_mem_put_fs_long)
  show ?thesis
    unfolding bytes
  proof (rule bit_word_eqI)
    fix n assume "n < LENGTH(32)"
    then consider "n < 8" | "8 \<le> n" "n < 16" | "16 \<le> n" "n < 24" | "24 \<le> n" "n < 32"
      by fastforce
    then show "bit (ucast (ucast v :: u8) OR push_bit 8 (ucast (ucast (drop_bit 8 v) :: u8)) OR
        push_bit 16 (ucast (ucast (drop_bit 16 v) :: u8)) OR push_bit 24 (ucast (ucast (drop_bit 24 v) :: u8)) :: u32) n = bit v n"
      by cases (simp_all add: bit_simps less_diff_conv2)
  qed
qed

lemma get_put_fs_byte: "get_fs_byte a (put_fs_byte v a s) = v"
  by (simp add: get_fs_byte_def put_fs_byte_def)

section \<open>Making an area writable\<close>

text \<open>\<open>verify_area\<close> un-shares each page of the area before the kernel writes to it.\<close>

function verify_pages :: "int \<Rightarrow> u32 \<Rightarrow> 'a mm_scheme \<Rightarrow> (unit, 'a mm_scheme) outcome" where
  "verify_pages n start s =
     (if n > 0 then and_then (write_verify start s) (\<lambda>_. verify_pages (n - 4096) (start + 4096))
      else Ret () s)"
  by pat_completeness auto
termination
  by (relation "measure (\<lambda>(n, _, _). nat n)") auto

declare verify_pages.simps [simp del]

definition verify_area :: "u32 \<Rightarrow> int \<Rightarrow> 'a kernel_scheme \<Rightarrow> (unit, 'a kernel_scheme) outcome" where
  "verify_area addr n s =
     verify_pages (n + uint (addr AND 0xfff)) ((addr AND 0xfffff000) + t_data_base (cur s)) s"

end
