(* ===== verification/Sysinfo.thy ===== *)
theory Sysinfo
  imports Exit Userspace
begin

text \<open>
  kernel/sys.c: identities and groups, sessions, the clock, resource limits and usage, the
  system's name. An argument that is an \<open>int\<close> in C is an \<open>int\<close> here, and storing it in a
  16-bit identity truncates it.
\<close>

definition NGROUPS :: nat where "NGROUPS = 32"
definition NOGROUP :: int where "NOGROUP = - 1"
definition MAXHOSTNAMELEN :: nat where "MAXHOSTNAMELEN = 8"
definition RLIM_NLIMITS :: int where "RLIM_NLIMITS = 6"
definition RUSAGE_SELF :: int where "RUSAGE_SELF = 0"
definition RUSAGE_CHILDREN :: int where "RUSAGE_CHILDREN = - 1"

section \<open>Calls that are not there\<close>

definition sys_ftime :: int where "sys_ftime = - ENOSYS"
definition sys_break :: int where "sys_break = - ENOSYS"
definition sys_stty :: int where "sys_stty = - ENOSYS"
definition sys_gtty :: int where "sys_gtty = - ENOSYS"
definition sys_prof :: int where "sys_prof = - ENOSYS"
definition sys_acct :: int where "sys_acct = - ENOSYS"
definition sys_phys :: int where "sys_phys = - ENOSYS"
definition sys_lock :: int where "sys_lock = - ENOSYS"
definition sys_mpx :: int where "sys_mpx = - ENOSYS"
definition sys_ulimit :: int where "sys_ulimit = - ENOSYS"

section \<open>Reboot\<close>

text \<open>\<open>None\<close>: \<open>hard_reset_now\<close> was called and the machine starts anew.\<close>

definition sys_reboot :: "u32 \<Rightarrow> u32 \<Rightarrow> u32 \<Rightarrow> 'a kernel_scheme \<Rightarrow> (int \<times> 'a kernel_scheme) option" where
  "sys_reboot magic magic_too flag s =
     (if \<not> suser s then Some (- EPERM, s)
      else if magic \<noteq> 0xfee1dead \<or> magic_too \<noteq> 672274793 then Some (- EINVAL, s)
      else if flag = 0x01234567 then None
      else if flag = 0x89ABCDEF then Some (0, s\<lparr>C_A_D := True\<rparr>)
      else if flag = 0 then Some (0, s\<lparr>C_A_D := False\<rparr>)
      else Some (- EINVAL, s))"

definition ctrl_alt_del :: "'a kernel_scheme \<Rightarrow> 'a kernel_scheme option" where
  "ctrl_alt_del s = (if C_A_D s then None else Some s)"

section \<open>Identities\<close>

definition sys_setregid :: "int \<Rightarrow> int \<Rightarrow> 'a kernel_scheme \<Rightarrow> int \<times> 'a kernel_scheme" where
  "sys_setregid rgid egid s =
     (case if rgid > 0 then
             if uint (t_gid (cur s)) = rgid \<or> suser s then Some (upd_cur (\<lambda>t. t\<lparr>t_gid := of_int rgid\<rparr>) s) else None
           else Some s of
        None \<Rightarrow> (- EPERM, s)
      | Some s \<Rightarrow>
          if egid > 0 then
            if uint (t_gid (cur s)) = egid \<or> uint (t_egid (cur s)) = egid \<or> suser s then
              (0, upd_cur (\<lambda>t. t\<lparr>t_egid := of_int egid, t_sgid := of_int egid\<rparr>) s)
            else (- EPERM, s)
          else (0, s))"

definition sys_setgid :: "int \<Rightarrow> 'a kernel_scheme \<Rightarrow> int \<times> 'a kernel_scheme" where
  "sys_setgid gid s =
     (if suser s then (0, upd_cur (\<lambda>t. t\<lparr>t_gid := of_int gid, t_egid := of_int gid, t_sgid := of_int gid\<rparr>) s)
      else if gid = uint (t_gid (cur s)) \<or> gid = uint (t_sgid (cur s)) then
        (0, upd_cur (\<lambda>t. t\<lparr>t_egid := of_int gid\<rparr>) s)
      else (- EPERM, s))"

definition sys_setreuid :: "int \<Rightarrow> int \<Rightarrow> 'a kernel_scheme \<Rightarrow> int \<times> 'a kernel_scheme" where
  "sys_setreuid ruid euid s =
     (let old_ruid = t_uid (cur s)
      in case if ruid > 0 then
                if uint (t_euid (cur s)) = ruid \<or> uint old_ruid = ruid \<or> suser s
                then Some (upd_cur (\<lambda>t. t\<lparr>t_uid := of_int ruid\<rparr>) s) else None
              else Some s of
           None \<Rightarrow> (- EPERM, s)
         | Some s \<Rightarrow>
             if euid > 0 then
               if uint old_ruid = euid \<or> uint (t_euid (cur s)) = euid \<or> suser s then
                 (0, upd_cur (\<lambda>t. t\<lparr>t_euid := of_int euid, t_suid := of_int euid\<rparr>) s)
               else (- EPERM, upd_cur (\<lambda>t. t\<lparr>t_uid := old_ruid\<rparr>) s)
             else (0, s))"

definition sys_setuid :: "int \<Rightarrow> 'a kernel_scheme \<Rightarrow> int \<times> 'a kernel_scheme" where
  "sys_setuid uid s =
     (if suser s then (0, upd_cur (\<lambda>t. t\<lparr>t_uid := of_int uid, t_euid := of_int uid, t_suid := of_int uid\<rparr>) s)
      else if uid = uint (t_uid (cur s)) \<or> uid = uint (t_suid (cur s)) then
        (0, upd_cur (\<lambda>t. t\<lparr>t_euid := of_int uid\<rparr>) s)
      else (- EPERM, s))"

section \<open>Clocks\<close>

definition CURRENT_TIME :: "'a kernel_scheme \<Rightarrow> u32" where
  "CURRENT_TIME s = startup_time s + (jiffies s + of_int (jiffies_offset s)) div 100"

definition CT_TO_SECS :: "u32 \<Rightarrow> u32" where "CT_TO_SECS x = x div 100"
definition CT_TO_USECS :: "u32 \<Rightarrow> u32" where "CT_TO_USECS x = x mod 100 * 1000000 div 100"

definition sys_time :: "u32 \<Rightarrow> 'a kernel_scheme \<Rightarrow> (u32, 'a kernel_scheme) outcome" where
  "sys_time tloc s =
     (let i = CURRENT_TIME s
      in if tloc \<noteq> 0 then and_then (verify_area tloc 4 s) (\<lambda>_ s. Ret i (put_fs_long i tloc s)) else Ret i s)"

definition sys_stime :: "u32 \<Rightarrow> 'a kernel_scheme \<Rightarrow> int \<times> 'a kernel_scheme" where
  "sys_stime tptr s =
     (if \<not> suser s then (- EPERM, s)
      else (0, s\<lparr>startup_time := get_fs_long tptr s - jiffies s div 100, jiffies_offset := 0\<rparr>))"

definition sys_times :: "u32 \<Rightarrow> 'a kernel_scheme \<Rightarrow> (u32, 'a kernel_scheme) outcome" where
  "sys_times tbuf s =
     (if tbuf \<noteq> 0 then
        and_then (verify_area tbuf 16 s)
          (\<lambda>_ s. let s = put_fs_long (of_int (t_utime (cur s))) tbuf s;
                     s = put_fs_long (of_int (t_stime (cur s))) (tbuf + 4) s;
                     s = put_fs_long (of_int (t_cutime (cur s))) (tbuf + 8) s;
                     s = put_fs_long (of_int (t_cstime (cur s))) (tbuf + 12) s
                 in Ret (jiffies s) s)
      else Ret (jiffies s) s)"

definition adjust_clock :: "'a kernel_scheme \<Rightarrow> 'a kernel_scheme" where
  "adjust_clock s = s\<lparr>startup_time := startup_time s + of_int (tz_minuteswest s * 60)\<rparr>"

definition sys_gettimeofday :: "u32 \<Rightarrow> u32 \<Rightarrow> 'a kernel_scheme \<Rightarrow> (int, 'a kernel_scheme) outcome" where
  "sys_gettimeofday tv tz s =
     and_then
       (if tv \<noteq> 0 then
          and_then (verify_area tv 8 s)
            (\<lambda>_ s. let t = jiffies s + of_int (jiffies_offset s);
                       s = put_fs_long (startup_time s + CT_TO_SECS t) tv s
                   in Ret () (put_fs_long (CT_TO_USECS t) (tv + 4) s))
        else Ret () s)
       (\<lambda>_ s. if tz \<noteq> 0 then
          and_then (verify_area tz 8 s)
            (\<lambda>_ s. Ret 0 (put_fs_long (of_int (tz_dsttime s)) (tz + 4)
                            (put_fs_long (of_int (tz_minuteswest s)) tz s)))
        else Ret 0 s)"

text \<open>The value stored in the \<open>int\<close> variable \<open>jiffies_offset\<close> is the signed reading.\<close>

definition set_clock :: "u32 \<Rightarrow> u32 \<Rightarrow> 'a kernel_scheme \<Rightarrow> 'a kernel_scheme" where
  "set_clock sec usec s =
     s\<lparr>startup_time := sec - jiffies s div 100,
       jiffies_offset := sint (of_int (sint (usec * 100) sdiv 1000000) - jiffies s mod 100)\<rparr>"

definition sys_settimeofday :: "u32 \<Rightarrow> u32 \<Rightarrow> 'a kernel_scheme \<Rightarrow> int \<times> 'a kernel_scheme" where
  "sys_settimeofday tv tz s =
     (if \<not> suser s then (- EPERM, s)
      else let s = (if tz \<noteq> 0 then
                      let s = s\<lparr>tz_minuteswest := sint (get_fs_long tz s), tz_dsttime := sint (get_fs_long (tz + 4) s)\<rparr>
                      in if tz_firsttime s then
                           let s = s\<lparr>tz_firsttime := False\<rparr> in if tv = 0 then adjust_clock s else s
                         else s
                    else s);
               s = (if tv \<noteq> 0 then set_clock (get_fs_long tv s) (get_fs_long (tv + 4) s) s else s)
           in (0, s))"

section \<open>Break, process groups and sessions\<close>

definition sys_brk :: "u32 \<Rightarrow> 'a kernel_scheme \<Rightarrow> u32 \<times> 'a kernel_scheme" where
  "sys_brk end_data_seg s =
     (let s = (if end_data_seg \<ge> t_end_code (cur s) \<and> end_data_seg < t_start_stack (cur s) - 16384
               then upd_cur (\<lambda>t. t\<lparr>t_brk := end_data_seg\<rparr>) s else s)
      in (t_brk (cur s), s))"

definition sys_setpgid :: "int \<Rightarrow> int \<Rightarrow> 'a kernel_scheme \<Rightarrow> int \<times> 'a kernel_scheme" where
  "sys_setpgid pid pgid s =
     (let pid = (if pid = 0 then t_pid (cur s) else pid);
          pgid = (if pgid = 0 then t_pid (cur s) else pgid)
      in if pgid < 0 then (- EINVAL, s)
         else case List.find (\<lambda>i. task s i \<noteq> NULL \<and> t_pid (tsk s (task s i)) = pid \<and>
                      (t_p_pptr (tsk s (task s i)) = current s \<or> task s i = current s)) [0..<NR_TASKS] of
                None \<Rightarrow> (- ESRCH, s)
              | Some i \<Rightarrow>
                  let t = tsk s (task s i)
                  in if t_leader t \<noteq> 0 then (- EPERM, s)
                     else if t_session t \<noteq> t_session (cur s) \<or>
                             pgid \<noteq> pid \<and> session_of_pgrp pgid s \<noteq> t_session (cur s) then (- EPERM, s)
                     else (0, upd_task (task s i) (\<lambda>t. t\<lparr>t_pgrp := pgid\<rparr>) s))"

definition sys_getpgrp where "sys_getpgrp s = t_pgrp (cur s)"

definition sys_setsid :: "'a kernel_scheme \<Rightarrow> int \<times> 'a kernel_scheme" where
  "sys_setsid s =
     (if t_leader (cur s) \<noteq> 0 \<and> \<not> suser s then (- EPERM, s)
      else let s = upd_cur (\<lambda>t. t\<lparr>t_leader := 1, t_pgrp := t_pid t, t_session := t_pid t, t_tty := - 1\<rparr>) s
           in (t_pgrp (cur s), s))"

section \<open>Supplementary groups\<close>

function getgroups_loop :: "nat \<Rightarrow> int \<Rightarrow> u32 \<Rightarrow> 'a kernel_scheme \<Rightarrow> int \<times> 'a kernel_scheme" where
  "getgroups_loop i gidsetsize grouplist s =
     (if i < NGROUPS \<and> t_groups (cur s) i \<noteq> NOGROUP then
        if gidsetsize \<noteq> 0 then
          if int i \<ge> gidsetsize then (- EINVAL, s)
          else getgroups_loop (i + 1) gidsetsize (grouplist + 2) (put_fs_word (of_int (t_groups (cur s) i)) grouplist s)
        else getgroups_loop (i + 1) gidsetsize (grouplist + 2) s
      else (int i, s))"
  by pat_completeness auto
termination
  by (relation "measure (\<lambda>(i, _). NGROUPS - i)") auto

declare getgroups_loop.simps [simp del]

definition sys_getgroups :: "int \<Rightarrow> u32 \<Rightarrow> 'a kernel_scheme \<Rightarrow> (int, 'a kernel_scheme) outcome" where
  "sys_getgroups gidsetsize grouplist s =
     and_then (if gidsetsize \<noteq> 0 then verify_area grouplist (2 * gidsetsize) s else Ret () s)
       (\<lambda>_ s. case getgroups_loop 0 gidsetsize grouplist s of (r, s) \<Rightarrow> Ret r s)"

fun setgroups_loop :: "nat \<Rightarrow> nat \<Rightarrow> u32 \<Rightarrow> 'a kernel_scheme \<Rightarrow> 'a kernel_scheme" where
  "setgroups_loop 0 i grouplist s = s"
| "setgroups_loop (Suc n) i grouplist s =
     setgroups_loop n (i + 1) (grouplist + 2)
       (upd_cur (\<lambda>t. t\<lparr>t_groups := (t_groups t)(i := uint (get_fs_word grouplist s))\<rparr>) s)"

definition sys_setgroups :: "int \<Rightarrow> u32 \<Rightarrow> 'a kernel_scheme \<Rightarrow> int \<times> 'a kernel_scheme" where
  "sys_setgroups gidsetsize grouplist s =
     (if \<not> suser s then (- EPERM, s)
      else if gidsetsize > int NGROUPS then (- EINVAL, s)
      else let i = nat gidsetsize;
               s = setgroups_loop i 0 grouplist s
           in (0, if i < NGROUPS then upd_cur (\<lambda>t. t\<lparr>t_groups := (t_groups t)(i := NOGROUP)\<rparr>) s else s))"

function in_groups :: "nat \<Rightarrow> u16 \<Rightarrow> (nat \<Rightarrow> int) \<Rightarrow> bool" where
  "in_groups i grp groups =
     (if i < NGROUPS then
        if groups i = NOGROUP then False
        else if groups i = uint grp then True
        else in_groups (i + 1) grp groups
      else False)"
  by pat_completeness auto
termination
  by (relation "measure (\<lambda>(i, _). NGROUPS - i)") auto

declare in_groups.simps [simp del]

definition in_group_p :: "u16 \<Rightarrow> 'a kernel_scheme \<Rightarrow> bool" where
  "in_group_p grp s \<longleftrightarrow> grp = t_egid (cur s) \<or> in_groups 0 grp (t_groups (cur s))"

section \<open>The system's name\<close>

text \<open>
  \<open>thisname\<close> is five arrays of nine characters; \<open>nodename\<close> is the one that changes.
\<close>

definition field9 :: "string \<Rightarrow> nat \<Rightarrow> u8" where
  "field9 str i = (if i < length str then of_char (str ! i) else 0)"

definition thisname :: "(nat \<Rightarrow> u8) \<Rightarrow> nat \<Rightarrow> u8" where
  "thisname node i =
     (if i < 9 then field9 ''Linux'' i
      else if i < 18 then node (i - 9)
      else if i < 27 then field9 ''0'' (i - 18)
      else if i < 36 then field9 ''0.12'' (i - 27)
      else field9 ''i386'' (i - 36))"

fun put_bytes :: "nat \<Rightarrow> (nat \<Rightarrow> u8) \<Rightarrow> u32 \<Rightarrow> 'a kernel_scheme \<Rightarrow> 'a kernel_scheme" where
  "put_bytes 0 f name s = s"
| "put_bytes (Suc n) f name s = put_fs_byte (f n) (name + of_nat n) (put_bytes n f name s)"

definition sys_uname :: "u32 \<Rightarrow> 'a kernel_scheme \<Rightarrow> (int, 'a kernel_scheme) outcome" where
  "sys_uname name s =
     (if name = 0 then Ret (- 99) s
      else and_then (verify_area name 45 s) (\<lambda>_ s. Ret 0 (put_bytes 45 (thisname (nodename s)) name s)))"

text \<open>The loop of \<open>sys_sethostname\<close>: the new name and the index where it stopped.\<close>

function sethost_loop :: "nat \<Rightarrow> int \<Rightarrow> u32 \<Rightarrow> (nat \<Rightarrow> u8) \<Rightarrow> 'a kernel_scheme \<Rightarrow> nat \<times> (nat \<Rightarrow> u8)" where
  "sethost_loop i len name node s =
     (if int i < len then
        let c = get_fs_byte (name + of_nat i) s;
            node = node(i := c)
        in if c = 0 then (i, node) else sethost_loop (i + 1) len name node s
      else (i, node))"
  by pat_completeness auto
termination
  by (relation "measure (\<lambda>(i, len, _). nat len - i)") auto

declare sethost_loop.simps [simp del]

definition sys_sethostname :: "u32 \<Rightarrow> int \<Rightarrow> 'a kernel_scheme \<Rightarrow> int \<times> 'a kernel_scheme" where
  "sys_sethostname name len s =
     (if \<not> suser s then (- EPERM, s)
      else if len > int MAXHOSTNAMELEN then (- EINVAL, s)
      else (case sethost_loop 0 len name (nodename s) s of
              (i, node) \<Rightarrow>
                (0, s\<lparr>nodename := (if node i \<noteq> 0 then node((if i > MAXHOSTNAMELEN then MAXHOSTNAMELEN else i) := 0) else node)\<rparr>)))"

section \<open>Resource limits and usage\<close>

text \<open>
  \<open>current->rlim[resource]\<close>. The bound on \<open>resource\<close> is tested from above only, and an index
  from -1 to -5 reaches the fields of the task structure before the array: the five pairs of
  words from the user identities to the start time, as the structure lays them out. \<open>None\<close>: an
  index below that, which the model leaves out.
\<close>

definition join16 :: "u16 \<Rightarrow> u16 \<Rightarrow> u32" where
  "join16 lo hi = of_int (uint lo + 65536 * uint hi)"

definition words_rlimit :: "u32 \<Rightarrow> u32 \<Rightarrow> rlimit" where
  "words_rlimit a b = \<lparr>rlim_cur = sint a, rlim_max = sint b\<rparr>"

definition rlim_at :: "task_struct \<Rightarrow> int \<Rightarrow> rlimit option" where
  "rlim_at t i =
     (if 0 \<le> i then Some (t_rlim t (nat i))
      else if i = - 1 then Some (words_rlimit (of_int (t_cstime t)) (t_start_time t))
      else if i = - 2 then Some (words_rlimit (of_int (t_stime t)) (of_int (t_cutime t)))
      else if i = - 3 then Some (words_rlimit (t_alarm t) (of_int (t_utime t)))
      else if i = - 4 then Some (words_rlimit (join16 (t_egid t) (t_sgid t)) (t_timeout t))
      else if i = - 5 then Some (words_rlimit (join16 (t_uid t) (t_euid t)) (join16 (t_suid t) (t_gid t)))
      else None)"

definition set_rlim_at :: "int \<Rightarrow> rlimit \<Rightarrow> task_struct \<Rightarrow> task_struct" where
  "set_rlim_at i r t =
     (let a = of_int (rlim_cur r) :: u32; b = of_int (rlim_max r) :: u32
      in if 0 \<le> i then t\<lparr>t_rlim := (t_rlim t)(nat i := r)\<rparr>
         else if i = - 1 then t\<lparr>t_cstime := sint a, t_start_time := b\<rparr>
         else if i = - 2 then t\<lparr>t_stime := sint a, t_cutime := sint b\<rparr>
         else if i = - 3 then t\<lparr>t_alarm := a, t_utime := sint b\<rparr>
         else if i = - 4 then t\<lparr>t_egid := ucast a, t_sgid := ucast (drop_bit 16 a), t_timeout := b\<rparr>
         else t\<lparr>t_uid := ucast a, t_euid := ucast (drop_bit 16 a), t_suid := ucast b, t_gid := ucast (drop_bit 16 b)\<rparr>)"

definition sys_getrlimit :: "int \<Rightarrow> u32 \<Rightarrow> 'a kernel_scheme \<Rightarrow> (int, 'a kernel_scheme) outcome option" where
  "sys_getrlimit resource rlim s =
     (if resource \<ge> RLIM_NLIMITS then Some (Ret (- EINVAL) s)
      else (case rlim_at (cur s) resource of
              None \<Rightarrow> None
            | Some r \<Rightarrow>
                Some (and_then (verify_area rlim 8 s)
                  (\<lambda>_ s. Ret 0 (put_fs_long (of_int (rlim_max r)) (rlim + 4) (put_fs_long (of_int (rlim_cur r)) rlim s))))))"

definition sys_setrlimit :: "int \<Rightarrow> u32 \<Rightarrow> 'a kernel_scheme \<Rightarrow> (int \<times> 'a kernel_scheme) option" where
  "sys_setrlimit resource rlim s =
     (if resource \<ge> RLIM_NLIMITS then Some (- EINVAL, s)
      else (case rlim_at (cur s) resource of
              None \<Rightarrow> None
            | Some old \<Rightarrow>
                let new = words_rlimit (get_fs_long rlim s) (get_fs_long (rlim + 4) s)
                in if (rlim_cur new > rlim_max old \<or> rlim_max new > rlim_max old) \<and> \<not> suser s
                   then Some (- EPERM, s)
                   else Some (0, upd_cur (set_rlim_at resource new) s)))"

text \<open>The structure \<open>rusage\<close> is eighteen words, of which the first four are filled in.\<close>

definition rusage_word :: "int \<Rightarrow> int \<Rightarrow> nat \<Rightarrow> u32" where
  "rusage_word utime stime i =
     (if i = 0 then of_int (utime sdiv HZ)
      else if i = 1 then of_int (utime smod HZ * 1000000 sdiv HZ)
      else if i = 2 then of_int (stime sdiv HZ)
      else if i = 3 then of_int (stime smod HZ * 1000000 sdiv HZ)
      else 0)"

fun put_longs :: "nat \<Rightarrow> (nat \<Rightarrow> u32) \<Rightarrow> u32 \<Rightarrow> 'a kernel_scheme \<Rightarrow> 'a kernel_scheme" where
  "put_longs 0 f dest s = s"
| "put_longs (Suc n) f dest s = put_fs_long (f n) (dest + 4 * of_nat n) (put_longs n f dest s)"

definition sys_getrusage :: "int \<Rightarrow> u32 \<Rightarrow> 'a kernel_scheme \<Rightarrow> (int, 'a kernel_scheme) outcome" where
  "sys_getrusage who ru s =
     (if who \<noteq> RUSAGE_SELF \<and> who \<noteq> RUSAGE_CHILDREN then Ret (- EINVAL) s
      else and_then (verify_area ru 72 s)
        (\<lambda>_ s. Ret 0 (put_longs 18
                 (if who = RUSAGE_SELF then rusage_word (t_utime (cur s)) (t_stime (cur s))
                  else rusage_word (t_cutime (cur s)) (t_cstime (cur s))) ru s)))"

definition sys_umask :: "int \<Rightarrow> 'a kernel_scheme \<Rightarrow> int \<times> 'a kernel_scheme" where
  "sys_umask m s = (uint (t_umask (cur s)), upd_cur (\<lambda>t. t\<lparr>t_umask := of_int m AND 0x1ff\<rparr>) s)"

section \<open>Identity changes\<close>

lemma cur_upd_cur [simp]: "cur (upd_cur f s) = f (cur s)" "current (upd_cur f s) = current s"
  by (simp_all add: cur_def upd_cur_def)

definition uids :: "'a kernel_scheme \<Rightarrow> u16 set" where
  "uids s = {t_uid (cur s), t_euid (cur s), t_suid (cur s)}"

definition gids :: "'a kernel_scheme \<Rightarrow> u16 set" where
  "gids s = {t_gid (cur s), t_egid (cur s), t_sgid (cur s)}"

text \<open>What a task can make of its identities with the four calls, in any order.\<close>

inductive id_reach :: "'a kernel_scheme \<Rightarrow> 'a kernel_scheme \<Rightarrow> bool" where
  start: "id_reach s s"
| setuid: "id_reach s t \<Longrightarrow> id_reach s (snd (sys_setuid u t))"
| setreuid: "id_reach s t \<Longrightarrow> id_reach s (snd (sys_setreuid r e t))"
| setgid: "id_reach s t \<Longrightarrow> id_reach s (snd (sys_setgid g t))"
| setregid: "id_reach s t \<Longrightarrow> id_reach s (snd (sys_setregid r e t))"

lemma of_int_uint_eq: "uint (x :: u16) = k \<Longrightarrow> of_int k = x"
  by (auto simp: word_of_int_uint)

lemma uint_pos_iff: "0 < uint x \<longleftrightarrow> x \<noteq> 0"
  using uint_0_iff [of x] uint_ge_0 [of x] by linarith

lemma sys_setuid_ids:
  "\<not> suser s \<Longrightarrow> uids (snd (sys_setuid u s)) \<subseteq> uids s \<and> gids (snd (sys_setuid u s)) = gids s"
  by (auto simp: sys_setuid_def uids_def gids_def)

lemma sys_setgid_ids:
  "\<not> suser s \<Longrightarrow> uids (snd (sys_setgid g s)) = uids s \<and> gids (snd (sys_setgid g s)) \<subseteq> gids s"
  by (auto simp: sys_setgid_def uids_def gids_def)

lemma sys_setreuid_ids:
  "\<not> suser s \<Longrightarrow> uids (snd (sys_setreuid r e s)) \<subseteq> uids s \<and> gids (snd (sys_setreuid r e s)) = gids s"
  by (auto simp: sys_setreuid_def uids_def gids_def suser_def Let_def)

lemma sys_setregid_ids:
  "\<not> suser s \<Longrightarrow> uids (snd (sys_setregid r e s)) = uids s \<and> gids (snd (sys_setregid r e s)) \<subseteq> gids s"
  by (auto simp: sys_setregid_def uids_def gids_def suser_def dest: of_int_uint_eq)

lemmas set_id_ids = sys_setuid_ids sys_setgid_ids sys_setreuid_ids sys_setregid_ids

lemma suser_uids: "0 \<notin> uids s \<Longrightarrow> \<not> suser s"
  by (auto simp: uids_def suser_def)

text \<open>
  C14. No escape from one's identities: a task none of whose three user ids is root's can call
  setuid, setreuid, setgid and setregid with any arguments and in any order, and holds only
  user and group ids that it held at the start; in particular it never becomes superuser.
\<close>
theorem ids_confined:
  assumes "id_reach s t" "0 \<notin> uids s"
  shows "uids t \<subseteq> uids s \<and> gids t \<subseteq> gids s \<and> \<not> suser t"
proof -
  have "uids t \<subseteq> uids s \<and> gids t \<subseteq> gids s"
    using assms
  proof (induction rule: id_reach.induct)
    case (setuid s t u)
    then show ?case using suser_uids [of t] sys_setuid_ids [of t u] by blast
  next
    case (setreuid s t r e)
    then show ?case using suser_uids [of t] sys_setreuid_ids [of t r e] by blast
  next
    case (setgid s t g)
    then show ?case using suser_uids [of t] sys_setgid_ids [of t g] by blast
  next
    case (setregid s t r e)
    then show ?case using suser_uids [of t] sys_setregid_ids [of t r e] by blast
  qed simp
  with assms(2) suser_uids [of t] show ?thesis
    by blast
qed

definition user_example :: kernel where
  "user_example = upd_cur (\<lambda>t. t\<lparr>t_uid := 5, t_euid := 6, t_suid := 6, t_gid := 7, t_egid := 7, t_sgid := 7\<rparr>) kernel_example"

lemma cur_user_example: "cur user_example = task_example\<lparr>t_uid := 5, t_euid := 6, t_suid := 6, t_gid := 7, t_egid := 7, t_sgid := 7\<rparr>"
  by (simp add: user_example_def) (simp add: cur_def)

theorem ids_confined_witness:
  "uids (snd (sys_setreuid 6 5 user_example)) \<subseteq> {5, 6} \<and> \<not> suser (snd (sys_setreuid 6 5 user_example))"
proof -
  have "id_reach user_example (snd (sys_setreuid 6 5 user_example))"
    by (intro id_reach.intros)
  moreover have "uids user_example = {5, 6}"
    by (simp add: uids_def cur_user_example)
  ultimately show ?thesis
    using ids_confined [of user_example] by simp
qed

text \<open>
  A program that runs as root and has swapped its effective user id away cannot swap it back:
  setreuid with effective id 0 succeeds, but takes the 0 for "leave it alone", so the task
  keeps its unprivileged effective id and the saved one.
\<close>
lemma setreuid_no_way_back:
  assumes "t_uid (cur s) = 0" "t_euid (cur s) \<noteq> 0"
  shows "\<exists>s'. sys_setreuid (uint (t_euid (cur s))) 0 s = (0, s') \<and> \<not> suser s' \<and>
    t_uid (cur s') = t_euid (cur s) \<and> t_euid (cur s') = t_euid (cur s) \<and> t_suid (cur s') = t_suid (cur s)"
proof -
  have "0 < uint (t_euid (cur s))"
    using assms(2) by (simp add: uint_pos_iff)
  with assms show ?thesis
    by (simp add: sys_setreuid_def suser_def)
qed

lemma setreuid_no_way_back_witness:
  "\<exists>s'. sys_setreuid 6 0 (upd_cur (\<lambda>t. t\<lparr>t_uid := 0\<rparr>) user_example) = (0, s') \<and> \<not> suser s'"
  using setreuid_no_way_back [of "upd_cur (\<lambda>t. t\<lparr>t_uid := 0\<rparr>) user_example"] by (auto simp: cur_user_example)

section \<open>A resource index below zero\<close>

lemma sint_join16: "hi < 0x8000 \<Longrightarrow> sint (join16 lo hi) = uint lo + 65536 * uint hi"
proof -
  assume "hi < 0x8000"
  then have "uint hi < 0x8000" "uint lo < 65536"
    using uint_lt2p [of lo] by (simp_all add: word_less_def)
  then show ?thesis
    unfolding join16_def sint_uint32 by (subst (1 2 3) uint_of_int32) auto
qed

text \<open>
  The resource limit of index -5 is the word pair that holds the identities: an unprivileged
  task whose group id has its top bit clear writes zeros there and is superuser, with all four
  ids 0. The check against the old limit passes because the saved user id and the group id read
  as a non-negative maximum.
\<close>
theorem setrlimit_makes_root:
  assumes "t_gid (cur s) < 0x8000" "get_fs_long a s = 0" "get_fs_long (a + 4) s = 0"
  shows "\<exists>s'. sys_setrlimit (- 5) a s = Some (0, s') \<and> suser s' \<and>
    t_uid (cur s') = 0 \<and> t_euid (cur s') = 0 \<and> t_suid (cur s') = 0 \<and> t_gid (cur s') = 0"
proof -
  have "0 \<le> sint (join16 (t_suid (cur s)) (t_gid (cur s)))"
    using assms(1) by (simp add: sint_join16)
  then show ?thesis
    using assms by (simp add: sys_setrlimit_def rlim_at_def words_rlimit_def RLIM_NLIMITS_def set_rlim_at_def suser_def)
qed

theorem setrlimit_makes_root_witness:
  "\<not> suser user_example \<and> (\<exists>s'. sys_setrlimit (- 5) 0 user_example = Some (0, s') \<and> suser s')"
proof -
  have "get_fs_long a user_example = 0" for a
    by (simp add: get_fs_long_def user_example_def upd_cur_def upd_task_def kernel_example_def mm.defs)
  then show ?thesis
    using setrlimit_makes_root [of user_example 0] by (auto simp: cur_user_example suser_def)
qed

section \<open>The clock\<close>

text \<open>
  C15. Setting the clock and reading it back at once gives the time that was set, to the tick: the
  seconds and the microseconds rounded down to a hundredth of a second, as long as the tick
  counter is not within its last second before it wraps.
\<close>
theorem clock_roundtrip:
  assumes "usec < 1000000" "uint (jiffies s) < 2 ^ 32 - 200"
  shows "(let u = set_clock sec usec s; t = jiffies u + of_int (jiffies_offset u)
     in startup_time u + CT_TO_SECS t = sec \<and> CT_TO_USECS t = usec - usec mod 10000) \<and>
     CURRENT_TIME (set_clock sec usec s) = sec"
proof -
  define j u where "j = uint (jiffies s)" and "u = uint usec"
  have b: "0 \<le> j" "j < 2 ^ 32 - 200" "0 \<le> u" "u < 1000000"
    using assms by (simp_all add: j_def u_def word_less_def)
  have us: "usec = of_int u" and js: "jiffies s = of_int j"
    by (simp_all add: j_def u_def)
  have m: "usec * 100 = of_int (u * 100)" "uint (of_int (u * 100) :: u32) = u * 100"
    using b by (simp add: us) (rule uint_of_int32, use b in auto)
  have ticks: "sint (usec * 100) sdiv 1000000 = u div 10000"
    using b unfolding m(1) sint_uint32 m(2) by simp
  have jm: "jiffies s mod 100 = of_int (j mod 100)" "jiffies s div 100 = of_int (j div 100)"
    by (simp_all add: word_div_def word_mod_def j_def)
  define k where "k = j div 100 * 100 + u div 10000"
  have t: "jiffies s + (of_int (u div 10000) - jiffies s mod 100) = of_int k"
  proof -
    have "jiffies s + (of_int (u div 10000) - jiffies s mod 100)
        = of_int j + (of_int (u div 10000) - of_int (j mod 100))"
      unfolding jm(1) by (simp add: js)
    also have "\<dots> = of_int (j + (u div 10000 - j mod 100))"
      by simp
    also have "j + (u div 10000 - j mod 100) = k"
      unfolding k_def by (simp add: algebra_simps minus_mod_eq_mult_div [symmetric])
    finally show ?thesis .
  qed
  have kb: "0 \<le> k" "k < 2 ^ 32" "k div 100 = j div 100" "k mod 100 = u div 10000"
    using b by (auto simp: k_def)
  have uk: "uint (of_int k :: u32) = k"
    using kb(1,2) by (rule uint_of_int32)
  have secs: "(of_int k :: u32) div 100 = jiffies s div 100"
    unfolding jm(2) by (simp add: word_div_def uk kb(3))
  have "(of_int k :: u32) mod 100 = of_int (u div 10000)"
    by (simp add: word_mod_def uk kb(4))
  then have "CT_TO_USECS (of_int k) = of_int (u div 10000 * 1000000) div 100"
    by (simp add: CT_TO_USECS_def)
  also have "\<dots> = of_int (u div 10000 * 10000)"
    using b by (subst word_div_def, subst uint_of_int32) simp_all
  also have "u div 10000 * 10000 = u - u mod 10000"
    by (simp add: minus_mod_eq_div_mult)
  also have "(of_int (u - u mod 10000) :: u32) = usec - usec mod 10000"
    by (simp add: us word_mod_def) (simp add: u_def)
  finally have usecs: "CT_TO_USECS (of_int k) = usec - usec mod 10000" .
  then show ?thesis
    by (simp add: set_clock_def Let_def CURRENT_TIME_def CT_TO_SECS_def ticks t secs usecs)
qed

theorem clock_roundtrip_witness:
  "startup_time (set_clock 700000000 123456 kernel_example) + CT_TO_SECS 112 = 700000000 \<and> CT_TO_USECS 112 = 120000"
proof -
  have "jiffies (set_clock 700000000 123456 kernel_example) +
      of_int (jiffies_offset (set_clock 700000000 123456 kernel_example)) = 112"
    by (simp add: set_clock_def)
  then show ?thesis
    using clock_roundtrip [of 123456 kernel_example 700000000] by (simp add: Let_def)
qed

end
