(* ===== verification/MemFrame.thy ===== *)
theory MemFrame
  imports PageTables
begin

text \<open>
  The memory operations change the memory part of the state and nothing else: the fields that a
  larger state adds (\<open>mm.more\<close>) come back as they were. The collection \<open>frame_simps\<close> holds one
  rule per operation; \<open>out_more\<close> states it for results that may end the task.
\<close>

named_theorems frame_simps

lemma more_write_word [frame_simps]: "mm.more (write_word a v s) = mm.more s"
  by (simp add: write_word_def)

lemma more_zero_page [frame_simps]: "mm.more (zero_page p s) = mm.more s"
  by (simp add: zero_page_def)

lemma more_copy_page [frame_simps]: "mm.more (copy_page p q s) = mm.more s"
  by (simp add: copy_page_def)

lemma more_free_page [frame_simps]: "mm.more (free_page p s) = mm.more s"
  by (simp add: free_page_def Let_def)

lemma more_setbit [frame_simps]: "mm.more (snd (setbit a n s)) = mm.more s"
  by (simp add: setbit_def more_write_word Let_def)

lemma more_clrbit [frame_simps]: "mm.more (snd (clrbit a n s)) = mm.more s"
  by (simp add: clrbit_def more_write_word Let_def)

lemma more_rw_swap_page [frame_simps]: "mm.more (rw_swap_page rw n p s) = mm.more s"
  by (simp add: rw_swap_page_def transfer_page_def Let_def split: direction.split)

lemma more_get_swap_page_loop: "mm.more (snd (get_swap_page_loop n s)) = mm.more s"
proof (induction n s rule: get_swap_page_loop.induct)
  case (1 n s)
  show ?case
  proof (cases "n < SWAP_BITS")
    case True
    with 1 more_clrbit [of "swap_bitmap s" n s] show ?thesis
      by (subst get_swap_page_loop.simps) (auto split: prod.splits)
  qed (subst get_swap_page_loop.simps, simp)
qed

lemma more_get_swap_page [frame_simps]: "mm.more (snd (get_swap_page s)) = mm.more s"
  by (simp add: get_swap_page_def more_get_swap_page_loop)

lemma more_swap_free [frame_simps]: "mm.more (swap_free n s) = mm.more s"
  by (simp add: swap_free_def more_setbit)

lemma more_try_to_swap_out [frame_simps]: "mm.more (snd (try_to_swap_out a s)) = mm.more s"
proof -
  obtain n u where u: "get_swap_page s = (n, u)"
    by fastforce
  then have "mm.more u = mm.more s"
    using more_get_swap_page [of s] by simp
  then show ?thesis
    by (simp add: try_to_swap_out_def Let_def u frame_simps)
qed

lemma more_swap_out_loop: "mm.more (snd (swap_out_loop pos counter s)) = mm.more s"
proof (induction pos counter s rule: swap_out_loop.induct)
  case (1 counter s)
  show ?case
  proof (cases "counter > 0")
    case True
    with "1.IH" show ?thesis
      by (subst swap_out_loop.simps) (simp only: Let_def if_True split: if_split, auto simp: Let_def)
  qed (subst swap_out_loop.simps, simp)
next
  case (2 t counter s)
  show ?case
  proof (cases "counter > 0")
    case True
    obtain b u where u: "try_to_swap_out (t + 4 * of_int (page_entry s + 1)) (s\<lparr>page_entry := page_entry s + 1\<rparr>) = (b, u)"
      by fastforce
    then have "mm.more u = mm.more s"
      using more_try_to_swap_out [of "t + 4 * of_int (page_entry s + 1)" "s\<lparr>page_entry := page_entry s + 1\<rparr>"] by simp
    with True u "2.IH" show ?thesis
      by (subst swap_out_loop.simps) (auto simp: Let_def split: bool.splits)
  qed (subst swap_out_loop.simps, simp)
qed

lemma more_swap_out [frame_simps]: "mm.more (snd (swap_out s)) = mm.more s"
  by (simp add: swap_out_def more_swap_out_loop)

lemma more_movb1 [frame_simps]: "mm.more (movb1 d s) = mm.more s"
  by (simp add: movb1_def more_write_word split: edi.split)

lemma more_get_free_page_again: "mm.more (snd (get_free_page_again d s)) = mm.more s"
proof (induction d s rule: get_free_page_again.induct)
  case (1 d s)
  obtain b u where u: "swap_out s = (b, u)"
    by fastforce
  then have "mm.more u = mm.more s"
    using more_swap_out [of s] by simp
  with 1 u show ?case
    by (subst get_free_page_again.simps) (auto simp: Let_def frame_simps split: bool.splits)
qed

lemma more_get_free_page [frame_simps]: "mm.more (snd (get_free_page s)) = mm.more s"
proof -
  obtain b u where u: "swap_out s = (b, u)"
    by fastforce
  then have "mm.more u = mm.more s"
    using more_swap_out [of s] by simp
  with u show ?thesis
    by (simp add: get_free_page_def Let_def more_get_free_page_again frame_simps split: option.split bool.split)
qed

lemma more_get_free_page_eq: "get_free_page s = (p, u) \<Longrightarrow> mm.more u = mm.more s"
  using more_get_free_page [of s] by simp

lemma more_free_entries [frame_simps]: "mm.more (free_entries n a s) = mm.more s"
  by (induction n a s rule: free_entries.induct) (simp_all add: Let_def frame_simps)

lemma more_free_dirs [frame_simps]: "mm.more (free_dirs n a s) = mm.more s"
  by (induction n a s rule: free_dirs.induct) (simp_all add: Let_def frame_simps)

lemma more_copy_entries [frame_simps]: "mm.more (snd (copy_entries n a b s)) = mm.more s"
proof (induction n a b s rule: copy_entries.induct)
  case (2 n a b s)
  obtain p u where "get_free_page s = (p, u)"
    by fastforce
  with 2 more_get_free_page_eq [OF this] show ?case
    by (auto simp: Let_def frame_simps)
qed simp

lemma more_copy_dirs [frame_simps]: "mm.more (snd (copy_dirs n l a b s)) = mm.more s"
proof (induction n l a b s rule: copy_dirs.induct)
  case (2 n l a b s)
  obtain p u where u: "get_free_page s = (p, u)"
    by fastforce
  obtain k v where v: "copy_entries (if l then 0xA0 else 1024) (frame (mem s a)) p (write_word b (p OR 7) u) = (k, v)"
    by fastforce
  then have "mm.more v = mm.more s"
    using more_copy_entries [of "if l then 0xA0 else 1024" "frame (mem s a)" p "write_word b (p OR 7) u"]
      more_get_free_page_eq [OF u] by (simp add: more_write_word)
  with 2 u v more_get_free_page_eq [OF u] show ?case
    by (auto simp: Let_def frame_simps)
qed simp

text \<open>The state of an outcome.\<close>

fun out_state :: "('r, 's) outcome \<Rightarrow> 's" where
  "out_state (Ret r s) = s"
| "out_state (DoExit c s) = s"
| "out_state (Panic s) = s"

lemma more_free_page_tables [frame_simps]: "mm.more (out_state (free_page_tables a n s)) = mm.more s"
  by (simp add: free_page_tables_def Let_def frame_simps)

lemma more_copy_page_tables [frame_simps]: "mm.more (out_state (copy_page_tables a b n s)) = mm.more s"
proof -
  define k where "k = unat (drop_bit 22 (n + 0x3fffff))"
  show ?thesis
    using more_copy_dirs [of k "a = 0" "dir_of a" "dir_of b" s]
    by (auto simp: copy_page_tables_def Let_def k_def dir_of_def split: prod.split)
qed

end
