(* ===== verification/Fork.thy ===== *)
theory Fork
  imports Exit Userspace MemFrame
begin

text \<open>
  kernel/fork.c: a new process. The child's task structure is a fresh page, a copy of the
  parent's with its own pid, times and registers; its address space is a copy of the parent's
  page tables. The descriptors in the global descriptor table are not part of the state.
\<close>

section \<open>The address space of the child\<close>

definition copy_mem :: "nat \<Rightarrow> ptr \<Rightarrow> 'a kernel_scheme \<Rightarrow> (int, 'a kernel_scheme) outcome" where
  "copy_mem nr p s =
     (let code_limit = t_code_limit (cur s); data_limit = t_data_limit (cur s);
          old_code_base = t_code_base (cur s); old_data_base = t_data_base (cur s)
      in if old_data_base \<noteq> old_code_base then Panic s
         else if data_limit < code_limit then Panic s
         else let new_base = of_nat nr * TASK_SIZE;
                  s = upd_task p (\<lambda>t. t\<lparr>t_start_code := new_base, t_code_base := new_base, t_data_base := new_base\<rparr>) s
              in and_then (copy_page_tables old_data_base new_base data_limit s)
                   (\<lambda>r s. if r \<noteq> 0 then and_then (free_page_tables new_base data_limit s) (\<lambda>_ s. Ret (- ENOMEM) s)
                          else Ret 0 s))"

section \<open>A free slot and a free number\<close>

definition pid_used :: "int \<Rightarrow> 'a kernel_scheme \<Rightarrow> bool" where
  "pid_used pid s \<longleftrightarrow>
     (\<exists>i < NR_TASKS. task s i \<noteq> NULL \<and> (t_pid (tsk s (task s i)) = pid \<or> t_pgrp (tsk s (task s i)) = pid))"

text \<open>\<open>last_pid\<close> is a 32-bit \<open>long\<close>: after the largest value it is negative, and set to 1.\<close>

definition next_pid :: "int \<Rightarrow> int" where
  "next_pid pid = (let pid = (if pid = 2 ^ 31 - 1 then - (2 ^ 31) else pid + 1) in if pid < 0 then 1 else pid)"

partial_function (option) find_pid :: "int \<Rightarrow> 'a kernel_scheme \<Rightarrow> int option" where
  "find_pid pid s = (let pid = next_pid pid in if pid_used pid s then find_pid pid s else Some pid)"

definition find_empty_process :: "'a kernel_scheme \<Rightarrow> (nat option \<times> 'a kernel_scheme) option" where
  "find_empty_process s =
     map_option (\<lambda>pid. (List.find (\<lambda>i. task s i = NULL) [1..<NR_TASKS], s\<lparr>last_pid := pid\<rparr>))
       (find_pid (last_pid s) s)"

section \<open>The system call\<close>

text \<open>The registers on the kernel stack, which are the arguments of \<open>sys_fork\<close>.\<close>

record pt_regs =
  r_ebx :: u32
  r_ecx :: u32
  r_edx :: u32
  r_esi :: u32
  r_edi :: u32
  r_ebp :: u32
  r_eax :: u32
  r_ds :: u32
  r_es :: u32
  r_fs :: u32
  r_gs :: u32
  r_orig_eax :: u32
  r_eip :: u32
  r_cs :: u32
  r_eflags :: u32
  r_esp :: u32
  r_ss :: u32

definition LDT_selector :: "nat \<Rightarrow> u32" where
  "LDT_selector n = push_bit 4 (of_nat n) + 40"

definition child_tss :: "pt_regs \<Rightarrow> nat \<Rightarrow> ptr \<Rightarrow> tss_struct \<Rightarrow> tss_struct" where
  "child_tss r nr p t =
     t\<lparr>back_link := 0, esp0 := 4096 + of_nat p, ss0 := 0x10, eip := r_eip r, eflags := r_eflags r, eax := 0,
       ecx := r_ecx r, edx := r_edx r, ebx := r_ebx r, esp := r_esp r, ebp := r_ebp r, esi := r_esi r, edi := r_edi r,
       es_reg := r_es r AND 0xffff, cs_reg := r_cs r AND 0xffff, ss_reg := r_ss r AND 0xffff,
       ds_reg := r_ds r AND 0xffff, fs_reg := r_fs r AND 0xffff, gs_reg := r_gs r AND 0xffff,
       ldt_reg := LDT_selector nr, trace_bitmap := 0x80000000\<rparr>"

definition child_task :: "pt_regs \<Rightarrow> nat \<Rightarrow> ptr \<Rightarrow> 'a kernel_scheme \<Rightarrow> task_struct" where
  "child_task r nr p s =
     (let t = cur s
      in t\<lparr>t_state := TASK_UNINTERRUPTIBLE, t_pid := last_pid s, t_counter := t_priority t, t_signal := 0, t_alarm := 0,
           t_leader := 0, t_utime := 0, t_stime := 0, t_cutime := 0, t_cstime := 0, t_start_time := jiffies s,
           t_tss := child_tss r nr p (t_tss t)\<rparr>)"

definition count_inode :: "ptr \<Rightarrow> 'a kernel_scheme \<Rightarrow> 'a kernel_scheme" where
  "count_inode i s =
     (if i \<noteq> NULL then s\<lparr>inodes := (inodes s)(i := (inodes s i)\<lparr>i_count := i_count (inodes s i) + 1\<rparr>)\<rparr> else s)"

definition count_file :: "ptr \<Rightarrow> 'a kernel_scheme \<Rightarrow> 'a kernel_scheme" where
  "count_file f s =
     (if f \<noteq> NULL then s\<lparr>files := (files s)(f := (files s f)\<lparr>f_count := f_count (files s f) + 1\<rparr>)\<rparr> else s)"

definition share_files :: "ptr \<Rightarrow> 'a kernel_scheme \<Rightarrow> 'a kernel_scheme" where
  "share_files p s =
     (let s = fold (\<lambda>i. count_file (t_filp (tsk s p) i)) [0..<NR_OPEN] s;
          s = count_inode (t_pwd (cur s)) s;
          s = count_inode (t_root (cur s)) s;
          s = count_inode (t_executable (cur s)) s
      in count_inode (t_library (cur s)) s)"

definition link_child :: "ptr \<Rightarrow> 'a kernel_scheme \<Rightarrow> 'a kernel_scheme" where
  "link_child p s =
     (let s = upd_task p (\<lambda>t. t\<lparr>t_p_pptr := current s, t_p_cptr := NULL, t_p_ysptr := NULL,
                               t_p_osptr := t_p_cptr (cur s)\<rparr>) s;
          os = t_p_osptr (tsk s p);
          s = (if os \<noteq> NULL then upd_task os (\<lambda>t. t\<lparr>t_p_ysptr := p\<rparr>) s else s)
      in upd_cur (\<lambda>t. t\<lparr>t_p_cptr := p\<rparr>) s)"

definition sys_fork :: "pt_regs \<Rightarrow> 'a kernel_scheme \<Rightarrow> (int, 'a kernel_scheme) outcome option" where
  "sys_fork r s =
     (case get_free_page s of
        (page, s) \<Rightarrow>
          if page = 0 then Some (Ret (- EAGAIN) s)
          else (case find_empty_process s of
                  None \<Rightarrow> None
                | Some (None, s) \<Rightarrow> Some (Ret (- EAGAIN) (free_page page s))
                | Some (Some nr, s) \<Rightarrow>
                    let p = unat page;
                        s = s\<lparr>task := (task s)(nr := p)\<rparr>;
                        s = upd_task p (\<lambda>_. child_task r nr p s) s;
                        s = (if last_task_used_math s = current s
                             then upd_task p (\<lambda>t. t\<lparr>t_tss := (t_tss t)\<lparr>i387 := fpu s\<rparr>\<rparr>) s else s)
                    in Some (and_then (copy_mem nr p s)
                         (\<lambda>e s. if e \<noteq> 0 then Ret (- EAGAIN) (free_page page (s\<lparr>task := (task s)(nr := NULL)\<rparr>))
                                else let s = link_child p (share_files p s);
                                         s = upd_task p (\<lambda>t. t\<lparr>t_state := TASK_RUNNING\<rparr>) s
                                     in Ret (t_pid (tsk s p)) s))))"

section \<open>Finding a number ends\<close>

lemma next_pid_mod: "0 \<le> pid \<Longrightarrow> pid < 2 ^ 31 \<Longrightarrow> next_pid pid = 1 + pid mod (2 ^ 31 - 1)"
  by (cases "pid = 2 ^ 31 - 1") (simp_all add: next_pid_def)

lemma next_pid_range: "0 \<le> pid \<Longrightarrow> pid < 2 ^ 31 \<Longrightarrow> 1 \<le> next_pid pid \<and> next_pid pid < 2 ^ 31"
  by (auto simp: next_pid_def Let_def)

lemma next_pid_iter:
  assumes "0 \<le> pid" "pid < 2 ^ 31"
  shows "(next_pid ^^ Suc k) pid = 1 + (pid + int k) mod (2 ^ 31 - 1)"
proof (induction k)
  case (Suc k)
  let ?m = "2 ^ 31 - 1 :: int"
  have "(next_pid ^^ Suc (Suc k)) pid = next_pid (1 + (pid + int k) mod ?m)"
    using Suc by simp
  also have "\<dots> = 1 + (1 + (pid + int k) mod ?m) mod ?m"
    by (rule next_pid_mod) (auto intro: order_less_le_trans [OF add_strict_left_mono [OF pos_mod_bound]])
  also have "\<dots> = 1 + (pid + int (Suc k)) mod ?m"
    by (simp add: mod_add_right_eq algebra_simps)
  finally show ?case .
qed (use assms next_pid_mod in simp)

lemma used_pids_few: "finite {pid. pid_used pid s} \<and> card {pid. pid_used pid s} \<le> 128"
proof -
  let ?A = "(\<lambda>i. t_pid (tsk s (task s i))) ` {..<NR_TASKS} \<union> (\<lambda>i. t_pgrp (tsk s (task s i))) ` {..<NR_TASKS}"
  have "{pid. pid_used pid s} \<subseteq> ?A"
    by (auto simp: pid_used_def)
  moreover have "card ?A \<le> 64 + 64"
    by (rule order_trans [OF card_Un_le]) (intro add_mono order_trans [OF card_image_le]; simp add: NR_TASKS_def)
  moreover have "finite ?A"
    by simp
  ultimately show ?thesis
    using card_mono [of ?A "{pid. pid_used pid s}"] finite_subset by fastforce
qed

lemma find_pid_iter:
  "\<forall>j \<le> k. pid_used ((next_pid ^^ Suc j) pid) s \<Longrightarrow> find_pid pid s = find_pid ((next_pid ^^ Suc k) pid) s"
proof (induction k arbitrary: pid)
  case 0
  then show ?case
    by (subst find_pid.simps) simp
next
  case (Suc k)
  have "find_pid pid s = find_pid (next_pid pid) s"
    using Suc.prems by (subst find_pid.simps) (auto dest: spec [of _ 0])
  also have "\<dots> = find_pid ((next_pid ^^ Suc k) (next_pid pid)) s"
    by (rule Suc.IH) (use Suc.prems in \<open>auto simp: funpow_swap1 dest: spec [of _ "Suc _"]\<close>)
  finally show ?case
    by (simp add: funpow_swap1)
qed

lemma find_pid_ends:
  assumes "0 \<le> pid" "pid < 2 ^ 31"
  shows "\<exists>q. find_pid pid s = Some q \<and> \<not> pid_used q s \<and> 1 \<le> q \<and> q < 2 ^ 31"
proof -
  let ?f = "\<lambda>k. (next_pid ^^ Suc k) pid"
  have m: "0 < (2 ^ 31 - 1 :: int)"
    by simp
  have range: "1 \<le> ?f k \<and> ?f k < 2 ^ 31" for k
    unfolding next_pid_iter [OF assms]
    using pos_mod_bound [OF m, of "pid + int k"] pos_mod_sign [OF m, of "pid + int k"]
    by (intro conjI) linarith+
  have "\<exists>k. \<not> pid_used (?f k) s"
  proof (rule ccontr)
    assume "\<not> ?thesis"
    then have "?f ` {..128} \<subseteq> {pid. pid_used pid s}"
      by blast
    then have "card (?f ` {..128}) \<le> 128"
      by (rule order_trans [OF card_mono [OF used_pids_few [THEN conjunct1]] used_pids_few [THEN conjunct2]])
    moreover have "inj_on ?f {..128}"
    proof (rule inj_onI)
      fix j k :: nat
      assume jk: "j \<in> {..128}" "k \<in> {..128}" and "?f j = ?f k"
      then have "(pid + int j) mod (2 ^ 31 - 1) = (pid + int k) mod (2 ^ 31 - 1)"
        by (simp only: next_pid_iter [OF assms])
      then have "(2 ^ 31 - 1) dvd (pid + int j) - (pid + int k)"
        by (rule mod_eq_dvd_iff [THEN iffD1])
      then show "j = k"
        using jk dvd_imp_le_int [of "int j - int k" "2 ^ 31 - 1"]
        by (cases "j = k") auto
    qed
    ultimately show False
      by (simp add: card_image)
  qed
  then obtain k where k: "\<not> pid_used (?f k) s" "\<forall>j < k. pid_used (?f j) s"
    using exists_least_iff [of "\<lambda>k. \<not> pid_used (?f k) s"] by blast
  have "find_pid pid s = Some (?f k)"
  proof (cases k)
    case 0
    with k show ?thesis
      by (subst find_pid.simps) simp
  next
    case (Suc j)
    then have "find_pid pid s = find_pid (?f j) s"
      using k(2) by (intro find_pid_iter) auto
    with k(1) Suc show ?thesis
      by (subst (asm) (2) find_pid.simps) simp
  qed
  with k(1) range [of k] show ?thesis
    by blast
qed

text \<open>
  C16. \<open>find_empty_process\<close> always ends: at most 128 numbers are pids or groups of the 64 tasks,
  so among 129 successors one is free. The number it leaves in \<open>last_pid\<close> is positive and no
  task has it as pid or group, and the slot is the lowest free one other than slot 0.
\<close>
theorem find_empty_process_ok:
  assumes "0 \<le> last_pid s" "last_pid s < 2 ^ 31"
  shows "\<exists>pid slot. find_empty_process s = Some (slot, s\<lparr>last_pid := pid\<rparr>) \<and> 1 \<le> pid \<and> pid < 2 ^ 31 \<and>
    \<not> pid_used pid s \<and>
    (case slot of Some nr \<Rightarrow> 0 < nr \<and> nr < NR_TASKS \<and> task s nr = NULL \<and> (\<forall>j. 0 < j \<and> j < nr \<longrightarrow> task s j \<noteq> NULL)
     | None \<Rightarrow> \<forall>j. 0 < j \<and> j < NR_TASKS \<longrightarrow> task s j \<noteq> NULL)"
proof -
  obtain q where q: "find_pid (last_pid s) s = Some q" "\<not> pid_used q s" "1 \<le> q" "q < 2 ^ 31"
    using find_pid_ends [OF assms] by blast
  have slot: "case List.find (\<lambda>i. task s i = NULL) [1..<NR_TASKS] of
      Some nr \<Rightarrow> 0 < nr \<and> nr < NR_TASKS \<and> task s nr = NULL \<and> (\<forall>j. 0 < j \<and> j < nr \<longrightarrow> task s j \<noteq> NULL)
     | None \<Rightarrow> \<forall>j. 0 < j \<and> j < NR_TASKS \<longrightarrow> task s j \<noteq> NULL"
  proof (cases "List.find (\<lambda>i. task s i = NULL) [1..<NR_TASKS]")
    case (Some nr)
    then obtain k where k: "k < NR_TASKS - 1" "nr = Suc k" "task s nr = NULL" "\<forall>j < k. task s (Suc j) \<noteq> NULL"
      by (auto simp: find_Some_iff)
    have "task s j \<noteq> NULL" if "0 < j" "j < nr" for j
      using that k(2,4) by (cases j) auto
    with Some k show ?thesis
      by auto
  next
    case None
    then have "\<forall>j. 0 < j \<and> j < NR_TASKS \<longrightarrow> task s j \<noteq> NULL"
      by (auto simp: find_None_iff)
    with None show ?thesis
      by simp
  qed
  show ?thesis
    unfolding find_empty_process_def q(1) using q slot by (intro exI conjI) auto
qed

theorem find_empty_process_ok_witness:
  "\<exists>pid slot. find_empty_process kernel_example = Some (slot, kernel_example\<lparr>last_pid := pid\<rparr>) \<and> 1 \<le> pid"
  using find_empty_process_ok [of kernel_example] by (auto simp: kernel_example_def mm.defs)

section \<open>The child in the process tree\<close>

lemma kernel_fields_more:
  fixes s t :: "'a kernel_scheme"
  assumes "mm.more s = mm.more t"
  shows "task s = task t" "tsk s = tsk t" "current s = current t" "last_pid s = last_pid t"
    "jiffies s = jiffies t" "last_task_used_math s = last_task_used_math t" "family s = family t"
proof -
  show a: "task s = task t" "tsk s = tsk t" "current s = current t" "last_pid s = last_pid t"
    "jiffies s = jiffies t" "last_task_used_math s = last_task_used_math t"
    using assms by (cases s; cases t; simp)+
  show "family s = family t"
    by (simp add: family_def a fun_eq_iff)
qed

text \<open>The four links after \<open>link_child\<close>.\<close>

lemma link_child_links:
  assumes "p \<noteq> current s" "t_p_cptr (cur s) \<noteq> p"
  shows "t_p_pptr (tsk (link_child p s) q) = (if q = p then current s else t_p_pptr (tsk s q))"
    "t_p_cptr (tsk (link_child p s) q) = (if q = current s then p else if q = p then NULL else t_p_cptr (tsk s q))"
    "t_p_ysptr (tsk (link_child p s) q) =
       (if q = p then NULL else if q = t_p_cptr (cur s) \<and> q \<noteq> NULL then p else t_p_ysptr (tsk s q))"
    "t_p_osptr (tsk (link_child p s) q) = (if q = p then t_p_cptr (cur s) else t_p_osptr (tsk s q))"
    "task (link_child p s) = task s"
  using assms by (auto simp: link_child_def Let_def upd_cur_def cur_def)

text \<open>
  Linking a task \<open>p\<close> that is in no slot of \<open>s\<close> and to which no audited task points. The links of
  \<open>u\<close> are those of \<open>s\<close> except at \<open>p\<close> itself, and \<open>u\<close> has \<open>p\<close> in a slot that was empty.
\<close>

lemma audit_link_child_old:
  assumes q: "audit_task q s" and c: "audit_task (current s) s"
    and p: "p \<noteq> NULL" "\<And>i. i < NR_TASKS \<Longrightarrow> task s i \<noteq> p"
    and in_table: "q \<noteq> p" "q \<noteq> NULL" "current s \<noteq> p" "i < NR_TASKS" "task s i = current s" "current s \<noteq> NULL"
    and u: "task u = (task s)(nr := p)" "task s nr = NULL" "nr < NR_TASKS" "current u = current s"
      "\<And>x. x \<noteq> p \<Longrightarrow> family u x = family s x"
  shows "audit_task q (link_child p u)"
proof -
  define os where "os = t_p_cptr (tsk s (current s))"
  note qa = audit_task_parts [OF q] and ca = audit_task_parts [OF c, folded os_def]
  have np: "x \<noteq> p" if "\<not> bad_task_ptr x s" for x
    using that p by (auto simp: bad_task_ptr_def)
  have fam: "t_p_pptr (tsk u x) = t_p_pptr (tsk s x)" "t_p_cptr (tsk u x) = t_p_cptr (tsk s x)"
    "t_p_ysptr (tsk u x) = t_p_ysptr (tsk s x)" "t_p_osptr (tsk u x) = t_p_osptr (tsk s x)" if "x \<noteq> p" for x
    using u(5) [OF that] by (simp_all add: family_def Let_def)
  have os: "os \<noteq> p" "t_p_cptr (cur u) = os"
    using np [OF ca(6)] fam(2) [OF in_table(3)] u(4) by (simp_all add: os_def cur_def)
  note L = link_child_links [of p u, unfolded u(4) os(2), OF in_table(3) [symmetric] os(1)]
  have good: "\<not> bad_task_ptr x (link_child p u)" if "\<not> bad_task_ptr x s" for x
    using that u(2,3) by (auto simp: bad_task_ptr_def L u(1))
  have goodp: "\<not> bad_task_ptr p (link_child p u)"
    using u(3) by (auto simp: bad_task_ptr_def L u(1))
  have l: "t_p_pptr (tsk (link_child p u) x) = t_p_pptr (tsk s x)"
    "t_p_cptr (tsk (link_child p u) x) = (if x = current s then p else t_p_cptr (tsk s x))"
    "t_p_ysptr (tsk (link_child p u) x) = (if x = os \<and> x \<noteq> NULL then p else t_p_ysptr (tsk s x))"
    "t_p_osptr (tsk (link_child p u) x) = t_p_osptr (tsk s x)" if "x \<noteq> p" for x
    using that fam [OF that] by (simp_all add: L)
  have lp: "t_p_pptr (tsk (link_child p u) p) = current s" "t_p_ysptr (tsk (link_child p u) p) = NULL"
    "t_p_osptr (tsk (link_child p u) p) = os"
    by (simp_all add: L)
  have nps: "t_p_osptr (tsk s q) \<noteq> p" "t_p_ysptr (tsk s q) \<noteq> p" "t_p_cptr (tsk s q) \<noteq> p"
    using np [OF qa(8)] np [OF qa(7)] np [OF qa(6)] .
  have "t_p_osptr (tsk s q) \<noteq> os" if "t_p_osptr (tsk s q) \<noteq> NULL"
    using that qa(9) ca(11) in_table(2) by auto
  then have a: "t_p_osptr (tsk s q) \<noteq> NULL \<longrightarrow> t_p_pptr (tsk (link_child p u) q) = t_p_pptr (tsk (link_child p u) (t_p_osptr (tsk s q))) \<and>
      t_p_ysptr (tsk (link_child p u) (t_p_osptr (tsk s q))) = q"
    using qa(9) by (simp add: l in_table(1) nps)
  have b: "t_p_ysptr (tsk (link_child p u) q) \<noteq> NULL \<longrightarrow>
      t_p_pptr (tsk (link_child p u) q) = t_p_pptr (tsk (link_child p u) (t_p_ysptr (tsk (link_child p u) q))) \<and>
      t_p_osptr (tsk (link_child p u) (t_p_ysptr (tsk (link_child p u) q))) = q"
    using qa(10) ca(11) in_table(1,2) by (cases "q = os") (simp_all add: l nps lp)
  have "t_p_cptr (tsk s q) \<noteq> os" if "t_p_cptr (tsk s q) \<noteq> NULL" "q \<noteq> current s"
    using that qa(11) ca(11) by auto
  then have d: "t_p_cptr (tsk (link_child p u) q) \<noteq> NULL \<longrightarrow>
      t_p_pptr (tsk (link_child p u) (t_p_cptr (tsk (link_child p u) q))) = q \<and>
      t_p_ysptr (tsk (link_child p u) (t_p_cptr (tsk (link_child p u) q))) = NULL"
    using qa(11) in_table(1,3) by (cases "q = current s") (simp_all add: l nps lp)
  have "\<not> bad_task_ptr (t_p_cptr (tsk (link_child p u) q)) (link_child p u)"
    "\<not> bad_task_ptr (t_p_ysptr (tsk (link_child p u) q)) (link_child p u)"
    using good [OF qa(6)] good [OF qa(7)] goodp by (simp_all add: l in_table(1))
  moreover have "t_p_cptr (tsk (link_child p u) q) \<noteq> q" "t_p_ysptr (tsk (link_child p u) q) \<noteq> q"
    using qa(2,3) in_table(1) by (simp_all add: l)
  ultimately show ?thesis
    using good [OF qa(5)] good [OF qa(8)] qa(1,4) a b d unfolding audit_task_def Let_def l(1,4) [OF in_table(1)]
    by blast
qed

lemma audit_link_child_new:
  assumes c: "audit_task (current s) s"
    and p: "p \<noteq> NULL" "\<And>i. i < NR_TASKS \<Longrightarrow> task s i \<noteq> p"
    and in_table: "current s \<noteq> p" "i < NR_TASKS" "task s i = current s" "current s \<noteq> NULL"
    and u: "task u = (task s)(nr := p)" "task s nr = NULL" "nr < NR_TASKS" "current u = current s"
      "\<And>x. x \<noteq> p \<Longrightarrow> family u x = family s x"
  shows "audit_task p (link_child p u)"
proof -
  define os where "os = t_p_cptr (tsk s (current s))"
  note ca = audit_task_parts [OF c, folded os_def]
  have fam: "t_p_pptr (tsk u x) = t_p_pptr (tsk s x)" "t_p_cptr (tsk u x) = t_p_cptr (tsk s x)" if "x \<noteq> p" for x
    using u(5) [OF that] by (simp_all add: family_def Let_def)
  have os: "os \<noteq> p" "t_p_cptr (cur u) = os"
    using ca(6) p fam(2) [OF in_table(1)] u(4) by (auto simp: os_def cur_def bad_task_ptr_def)
  note L = link_child_links [of p u, unfolded u(4) os(2), OF in_table(1) [symmetric] os(1)]
  have good: "\<not> bad_task_ptr x (link_child p u)" if "\<not> bad_task_ptr x s" for x
    using that u(2,3) by (auto simp: bad_task_ptr_def L u(1))
  have "\<not> bad_task_ptr (current s) s"
    using in_table(2,3) by (auto simp: bad_task_ptr_def)
  then have "\<not> bad_task_ptr (current s) (link_child p u)" "\<not> bad_task_ptr os (link_child p u)"
    "\<not> bad_task_ptr NULL (link_child p u)"
    using good ca(6) by (auto simp: bad_task_ptr_def)
  then show ?thesis
    unfolding audit_task_def Let_def L
    using os(1) in_table(1) p(1) ca(11) fam(1) [OF os(1)] by (auto simp: L)
qed

lemma audit_link_child:
  assumes "audit_ptree s" "audit_task (current s) s" "p \<noteq> NULL" "\<And>i. i < NR_TASKS \<Longrightarrow> task s i \<noteq> p"
    "i < NR_TASKS" "task s i = current s" "current s \<noteq> NULL"
    "task u = (task s)(nr := p)" "task s nr = NULL" "nr < NR_TASKS" "current u = current s"
    "\<And>x. x \<noteq> p \<Longrightarrow> family u x = family s x"
  shows "audit_ptree (link_child p u)"
  unfolding audit_ptree_def
proof (intro allI impI)
  fix j assume j: "0 < j \<and> j < NR_TASKS \<and> task (link_child p u) j \<noteq> NULL"
  have t: "task (link_child p u) = (task s)(nr := p)"
    using assms(8) by (simp add: link_child_def Let_def upd_cur_def)
  have cp: "current s \<noteq> p"
    using assms(4) [OF assms(5)] assms(6) by simp
  show "audit_task (task (link_child p u) j) (link_child p u)"
  proof (cases "j = nr")
    case True
    then have "task (link_child p u) j = p"
      by (simp add: t)
    then show ?thesis
      using audit_link_child_new [OF assms(2-4) cp assms(5-12)] by simp
  next
    case False
    with j t have q: "task (link_child p u) j = task s j" "task s j \<noteq> NULL" "task s j \<noteq> p"
      using assms(4) [of j] by auto
    with j assms(1) have "audit_task (task s j) s"
      by (auto simp: audit_ptree_def)
    then show ?thesis
      unfolding q(1) by (rule audit_link_child_old [OF _ assms(2-4) q(3,2) cp assms(5-12)])
  qed
qed

section \<open>Fork\<close>

lemma count_inode_keeps [simp]:
  "task (count_inode i s) = task s" "tsk (count_inode i s) = tsk s" "current (count_inode i s) = current s"
  by (simp_all add: count_inode_def)

lemma share_files_keeps:
  fixes s :: "'a kernel_scheme"
  shows "task (share_files p s) = task s" "tsk (share_files p s) = tsk s" "current (share_files p s) = current s"
proof -
  have keeps: "task (fold (\<lambda>i. count_file (f i)) is u) = task u \<and> tsk (fold (\<lambda>i. count_file (f i)) is u) = tsk u \<and>
      current (fold (\<lambda>i. count_file (f i)) is u) = current u" for f "is" and u :: "'a kernel_scheme"
    by (induction "is" arbitrary: u) (simp_all add: count_file_def)
  show "task (share_files p s) = task s" "tsk (share_files p s) = tsk s" "current (share_files p s) = current s"
    using keeps [of "t_filp (tsk s p)" "[0..<NR_OPEN]" s] by (simp_all add: share_files_def Let_def)
qed

text \<open>What \<open>copy_mem\<close> leaves of the state when it succeeds.\<close>

lemma copy_mem_keeps:
  assumes "copy_mem nr p s = Ret 0 t"
  shows "task t = task s \<and> current t = current s \<and> (\<exists>base. tsk t = (tsk s)(p := (tsk s p)\<lparr>t_start_code := base, t_code_base := base, t_data_base := base\<rparr>))"
proof -
  define u where "u = upd_task p (\<lambda>t. t\<lparr>t_start_code := of_nat nr * TASK_SIZE, t_code_base := of_nat nr * TASK_SIZE,
    t_data_base := of_nat nr * TASK_SIZE\<rparr>) s"
  have "copy_page_tables (t_data_base (cur s)) (of_nat nr * TASK_SIZE) (t_data_limit (cur s)) u = Ret 0 t"
    using assms by (auto simp: copy_mem_def Let_def u_def and_then_def split: if_splits outcome.splits)
  then have "mm.more t = mm.more u"
    using more_copy_page_tables by (metis out_state.simps(1))
  from kernel_fields_more [OF this] show ?thesis
    by (auto simp: u_def upd_task_def)
qed

lemma audit_ptree_cong:
  assumes "family s = family t" "task s = task t"
  shows "audit_ptree s = audit_ptree t"
proof -
  have "t_p_pptr (tsk s q) = t_p_pptr (tsk t q)" "t_p_cptr (tsk s q) = t_p_cptr (tsk t q)"
    "t_p_ysptr (tsk s q) = t_p_ysptr (tsk t q)" "t_p_osptr (tsk s q) = t_p_osptr (tsk t q)" for q
    using fun_cong [OF assms(1), of q] by (simp_all add: family_def Let_def)
  then show ?thesis
    by (simp only: audit_ptree_def audit_task_def bad_task_ptr_def assms(2) Let_def)
qed

text \<open>
  C17. A fork that returns a pid has put a new task in a slot that was empty and touched no other
  slot. The pid is positive and no task had it as pid or group; the child is ready to run, will
  return 0 from the call, has no children, and the current task is its parent; and the whole
  process tree still passes the audit.
\<close>
theorem fork_ok:
  fixes s :: "'a kernel_scheme"
  assumes "sys_fork r s = Some (Ret pid s')" "0 \<le> pid" "0 \<le> last_pid s" "last_pid s < 2 ^ 31"
    and "audit_ptree s" "audit_task (current s) s" "i < NR_TASKS" "task s i = current s" "current s \<noteq> NULL"
    and "\<And>j. j < NR_TASKS \<Longrightarrow> task s j \<noteq> unat (fst (get_free_page s))"
  shows "\<exists>nr p. 0 < nr \<and> nr < NR_TASKS \<and> task s nr = NULL \<and> task s' = (task s)(nr := p) \<and> p \<noteq> NULL \<and>
    t_pid (tsk s' p) = pid \<and> 0 < pid \<and> \<not> pid_used pid s \<and> t_state (tsk s' p) = TASK_RUNNING \<and>
    eax (t_tss (tsk s' p)) = 0 \<and> t_p_pptr (tsk s' p) = current s \<and> t_p_cptr (tsk s' p) = NULL \<and> audit_ptree s'"
proof -
  obtain page s0 where g: "get_free_page s = (page, s0)"
    by fastforce
  note f0 = kernel_fields_more [OF more_get_free_page_eq [OF g]]
  have page: "page \<noteq> 0"
    using assms(1,2) by (auto simp: sys_fork_def g)
  define p where "p = unat page"
  have p: "p \<noteq> NULL" "\<And>j. j < NR_TASKS \<Longrightarrow> task s j \<noteq> p"
    using page assms(10) by (auto simp: p_def g unat_eq_zero)
  obtain q slot where q: "find_empty_process s0 = Some (slot, s0\<lparr>last_pid := q\<rparr>)" "1 \<le> q" "\<not> pid_used q s0"
    "case slot of Some nr \<Rightarrow> 0 < nr \<and> nr < NR_TASKS \<and> task s0 nr = NULL \<and> (\<forall>j. 0 < j \<and> j < nr \<longrightarrow> task s0 j \<noteq> NULL)
       | None \<Rightarrow> \<forall>j. 0 < j \<and> j < NR_TASKS \<longrightarrow> task s0 j \<noteq> NULL"
    using find_empty_process_ok [of s0] assms(3,4) by (auto simp: f0)
  obtain nr where nr: "slot = Some nr"
    using assms(1,2) g page q(1) by (cases slot) (auto simp: sys_fork_def)
  define s1 where "s1 = s0\<lparr>last_pid := q, task := (task s)(nr := p)\<rparr>"
  define s2 where "s2 = upd_task p (\<lambda>_. child_task r nr p s1) s1"
  define s3 where "s3 = (if last_task_used_math s2 = current s2
    then upd_task p (\<lambda>t. t\<lparr>t_tss := (t_tss t)\<lparr>i387 := fpu s2\<rparr>\<rparr>) s2 else s2)"
  define fin where "fin = (\<lambda>u :: 'a kernel_scheme. upd_task p (\<lambda>t. t\<lparr>t_state := TASK_RUNNING\<rparr>) (link_child p (share_files p u)))"
  have run: "sys_fork r s = Some (and_then (copy_mem nr p s3)
      (\<lambda>e u. if e \<noteq> 0 then Ret (- EAGAIN) (free_page page (u\<lparr>task := (task u)(nr := NULL)\<rparr>))
             else Ret (t_pid (tsk (fin u) p)) (fin u)))"
    using page by (simp add: sys_fork_def g q(1) nr p_def [symmetric] s1_def s2_def s3_def fin_def Let_def f0 cong: if_cong)
  then obtain u where u: "copy_mem nr p s3 = Ret 0 u" "s' = fin u" "pid = t_pid (tsk (fin u) p)"
    using assms(1,2) by (auto simp: and_then_def split: outcome.splits if_splits)
  obtain b where k: "task u = task s3" "current u = current s3"
    "tsk u = (tsk s3)(p := (tsk s3 p)\<lparr>t_start_code := b, t_code_base := b, t_data_base := b\<rparr>)"
    using copy_mem_keeps [OF u(1)] by blast
  define v where "v = share_files p u"
  have v: "task v = (task s)(nr := p)" "current v = current s" "x \<noteq> p \<Longrightarrow> tsk v x = tsk s x"
    "t_pid (tsk v p) = q" "eax (t_tss (tsk v p)) = 0" for x
    by (auto simp: v_def share_files_keeps k s3_def s2_def s1_def f0 child_task_def child_tss_def Let_def)
  have cp: "current s \<noteq> p"
    using p(2) [OF assms(7)] assms(8) by simp
  moreover have "t_p_cptr (cur v) \<noteq> p"
    using audit_task_parts(6) [OF assms(6)] p v(3) [OF cp] by (auto simp: cur_def v(2) bad_task_ptr_def)
  ultimately have c: "current s \<noteq> p" "t_p_cptr (cur v) \<noteq> p" .
  have "audit_ptree (link_child p v)"
    by (rule audit_link_child [OF assms(5,6) p assms(7-9) v(1)])
       (use q(4) nr v in \<open>auto simp: f0 family_def\<close>)
  moreover have "audit_ptree (fin u) = audit_ptree (link_child p v)"
    by (rule audit_ptree_cong) (simp_all add: fin_def v_def family_upd_task)
  moreover note L = link_child_links [of p v, unfolded v(2), OF c(1) [symmetric] c(2)]
  moreover have "t_pid (tsk (link_child p v) p) = q" "eax (t_tss (tsk (link_child p v) p)) = 0"
    using v(4,5) c by (auto simp: link_child_def Let_def upd_cur_def v(2))
  ultimately show ?thesis
    using q nr p(1) u(2,3) cp
    by (rule_tac exI [of _ nr], rule_tac exI [of _ p]) (simp add: fin_def v_def [symmetric] f0 L v(1) pid_used_def)
qed

lemma mem_upd_task: "mem (upd_task p f s) = mem s"
  by (simp add: upd_task_def)

lemma last_math_upd_task: "last_task_used_math (upd_task p f s) = last_task_used_math s"
  by (simp add: upd_task_def)

text \<open>One process at 2000 whose page directory is empty, and one free page of memory.\<close>

definition fork_example :: kernel where
  "fork_example = kernel_example\<lparr>mem := (\<lambda>a. 0), mem_map := (\<lambda>i. if i = 7 then 0 else 1)\<rparr>"

lemma fork_example_simps [simp]:
  "tsk fork_example p = task_example" "task fork_example i = (if i = 0 then 1000 else if i = 1 then 2000 else 0)"
  "current fork_example = 2000" "last_pid fork_example = 1" "mem fork_example a = 0"
  "mem_map fork_example = (\<lambda>i. if i = 7 then 0 else 1)" "HIGH_MEMORY fork_example = 0x1000000"
  by (simp_all add: fork_example_def) (simp_all add: kernel_example_def mm.defs mm_example_def)

lemma fork_example_page:
  "\<exists>s'. get_free_page fork_example = (0x107000, s') \<and> mem s' = (\<lambda>a. 0) \<and> mm.more s' = mm.more fork_example"
proof -
  have "page_free fork_example"
    by (auto simp: page_free_def mm_ok_def mm_consts page_addr_def intro!: exI [of _ 7])
  from get_free_page_fresh [OF this] obtain s' where "get_free_page fork_example = (0x107000, s')" "mem s' = (\<lambda>a. 0)"
    by (auto simp: page_addr_def mm_consts fun_eq_iff split: if_splits)
  with more_get_free_page_eq [OF this(1)] show ?thesis
    by blast
qed

lemma fork_example_fork:
  "\<exists>s'. sys_fork r fork_example = Some (Ret 2 s')"
proof -
  obtain s0 where s0: "get_free_page fork_example = (0x107000, s0)" "mem s0 = (\<lambda>a. 0)" "mm.more s0 = mm.more fork_example"
    using fork_example_page by blast
  note f = kernel_fields_more [OF s0(3)]
  have "\<not> pid_used 2 s0"
    by (simp add: pid_used_def f) (simp add: task_example_def)
  then have "find_pid 1 s0 = Some 2"
    by (subst find_pid.simps) (simp add: next_pid_def)
  then have e: "find_empty_process s0 = Some (Some 2, s0\<lparr>last_pid := 2\<rparr>)"
    by (simp add: find_empty_process_def f NR_TASKS_def upt_rec)
  have dirs: "copy_dirs n l a b v = (0, v)" if "mem v = (\<lambda>a. 0)" for n l a b and v :: kernel
    using that by (induction n arbitrary: a b) auto
  have copy: "\<exists>w. copy_mem 2 0x107000 v = Ret 0 w \<and> t_pid (tsk w 0x107000) = t_pid (tsk v 0x107000)"
    if "mem v = (\<lambda>a. 0)" "cur v = task_example" "current v = 2000" for v :: kernel
  proof -
    have "t_data_base (cur v) = 0x04000000" "t_code_base (cur v) = 0x04000000" "t_code_limit (cur v) = 0x400000"
      "t_data_limit (cur v) = 0x4000000"
      unfolding that(2) by (simp_all add: task_example_def)
    then show ?thesis
      by (simp add: copy_mem_def Let_def copy_page_tables_def dirs that(1) TASK_SIZE_def mem_upd_task)
  qed
  define s1 where "s1 = s0\<lparr>last_pid := 2, task := (task s0)(2 := 0x107000)\<rparr>"
  define s2 where "s2 = upd_task 0x107000 (\<lambda>_. child_task r 2 0x107000 s1) s1"
  have s2: "mem s2 = (\<lambda>a. 0)" "cur s2 = task_example" "current s2 = 2000" "t_pid (tsk s2 0x107000) = 2"
    "last_task_used_math s2 = 0"
    by (simp_all add: s2_def s1_def s0(2) f cur_def child_task_def Let_def mem_upd_task last_math_upd_task)
      (simp add: fork_example_def kernel_example_def mm.defs)
  obtain w where w: "copy_mem 2 0x107000 s2 = Ret 0 w" "t_pid (tsk w 0x107000) = 2"
    using copy [OF s2(1-3)] s2(4) by auto
  have "sys_fork r fork_example = Some (and_then (copy_mem 2 0x107000 s2)
      (\<lambda>e s. if e \<noteq> 0 then Ret (- EAGAIN) (free_page 0x107000 (s\<lparr>task := (task s)(2 := NULL)\<rparr>))
             else let s = link_child 0x107000 (share_files 0x107000 s);
                      s = upd_task 0x107000 (\<lambda>t. t\<lparr>t_state := TASK_RUNNING\<rparr>) s
                  in Ret (t_pid (tsk s 0x107000)) s))"
    using s2(3,5) by (simp add: sys_fork_def s0(1) e f(3) s1_def [symmetric] s2_def [symmetric])
  moreover have "t_pid (tsk (link_child 0x107000 v) 0x107000) = t_pid (tsk v 0x107000)" for v :: kernel
    by (simp add: link_child_def Let_def upd_cur_def)
  ultimately show ?thesis
    by (simp add: w share_files_keeps)
qed

theorem fork_ok_witness:
  "\<forall>r. \<exists>nr p s'. sys_fork r fork_example = Some (Ret 2 s') \<and> task s' = (task fork_example)(nr := p) \<and>
     t_pid (tsk s' p) = 2 \<and> t_p_pptr (tsk s' p) = 2000 \<and> audit_ptree s'"
proof
  fix r
  obtain s' where s': "sys_fork r fork_example = Some (Ret 2 s')"
    using fork_example_fork by blast
  have nb: "\<not> bad_task_ptr 0 fork_example" "\<not> bad_task_ptr 1000 fork_example"
    by (auto simp: bad_task_ptr_def NR_TASKS_def)
  then have "audit_task 2000 fork_example" "audit_ptree fork_example"
    by (auto simp: audit_ptree_def audit_task_def Let_def task_example_def)
  moreover obtain s0 where "get_free_page fork_example = (0x107000, s0)"
    using fork_example_page by blast
  ultimately show "\<exists>nr p s'. sys_fork r fork_example = Some (Ret 2 s') \<and> task s' = (task fork_example)(nr := p) \<and>
     t_pid (tsk s' p) = 2 \<and> t_p_pptr (tsk s' p) = 2000 \<and> audit_ptree s'"
    using fork_ok [OF s', of 1] s' by (fastforce simp: NR_TASKS_def split: if_splits)
qed

end
