(* ===== verification/MathEmu.thy ===== *)
theory MathEmu
  imports Prelude
begin

text \<open>
  kernel/math: the arithmetic of the 387 emulator on temporary reals (add.c, compare.c, mul.c,
  div.c, convert.c). A temporary real is a 64-bit mantissa, of which the code's \<open>a\<close> is the low
  and \<open>b\<close> the high word, and a 16-bit word with the sign on top of the biased exponent. The
  assembler sequences on the word pairs and quadruples are operations on 64-, 96- and 128-bit
  words. The status word of the coprocessor is passed and returned where a routine sets flags.
\<close>

type_synonym u64 = "64 word"
type_synonym u128 = "128 word"

record temp_real =
  mant :: u64
  expo :: u16

definition low32 :: "u64 \<Rightarrow> u32" where "low32 m = ucast m"
definition high32 :: "u64 \<Rightarrow> u32" where "high32 m = ucast (drop_bit 32 m)"
definition words64 :: "u32 \<Rightarrow> u32 \<Rightarrow> u64" where "words64 a b = ucast a OR push_bit 32 (ucast b)"

definition neg_expo :: "u16 \<Rightarrow> bool" where "neg_expo e \<longleftrightarrow> bit e 15"

definition set_DE :: "u32 \<Rightarrow> u32" where "set_DE swd = swd OR 2"
definition set_ZE :: "u32 \<Rightarrow> u32" where "set_ZE swd = swd OR 4"
definition set_OE :: "u32 \<Rightarrow> u32" where "set_OE swd = swd OR 8"
definition set_UE :: "u32 \<Rightarrow> u32" where "set_UE swd = swd OR 16"
definition set_PE :: "u32 \<Rightarrow> u32" where "set_PE swd = swd OR 32"
definition set_C0 :: "u32 \<Rightarrow> u32" where "set_C0 swd = swd OR 0x0100"
definition set_C3 :: "u32 \<Rightarrow> u32" where "set_C3 swd = swd OR 0x4000"

text \<open>The top bit of a word, and doubling a word whose top bit is clear.\<close>

lemma top_clear:
  fixes m :: "'a :: len word"
  shows "\<not> bit m (LENGTH('a) - 1) \<longleftrightarrow> uint m < 2 ^ (LENGTH('a) - 1)"
proof
  assume a: "\<not> bit m (LENGTH('a) - 1)"
  have "take_bit (LENGTH('a) - 1) m = m"
  proof (rule bit_word_eqI)
    fix n assume "n < LENGTH('a)"
    then have "n < LENGTH('a) - 1 \<or> n = LENGTH('a) - 1"
      by arith
    with a show "bit (take_bit (LENGTH('a) - 1) m) n = bit m n"
      by (auto simp: bit_take_bit_iff)
  qed
  then have "uint m = take_bit (LENGTH('a) - 1) (uint m)"
    by (metis unsigned_take_bit_eq)
  then show "uint m < 2 ^ (LENGTH('a) - 1)"
    by (metis take_bit_int_less_exp)
next
  assume "uint m < 2 ^ (LENGTH('a) - 1)"
  then have "take_bit (LENGTH('a) - 1) (uint m) = uint m"
    by (simp add: take_bit_int_eq_self)
  then have "\<not> bit (uint m) (LENGTH('a) - 1)"
    by (metis bit_take_bit_iff less_irrefl)
  then show "\<not> bit m (LENGTH('a) - 1)"
    by (simp add: bit_uint_iff)
qed

lemma uint_double:
  fixes m :: "'a :: len word"
  assumes "uint m < 2 ^ (LENGTH('a) - 1)"
  shows "uint (m + m) = 2 * uint m"
proof -
  have "uint m + uint m < 2 ^ LENGTH('a)"
    using assms by (cases "LENGTH('a)") auto
  then have "uint (m + m) = uint m + uint m"
    unfolding uint_plus_if' by (rule if_P)
  then show ?thesis
    by simp
qed

lemma shift_up_decreases:
  fixes m :: "'a :: len word"
  assumes "m \<noteq> 0" "\<not> bit m (LENGTH('a) - 1)"
  shows "nat (2 ^ LENGTH('a) - uint (m + m)) < nat (2 ^ LENGTH('a) - uint m)"
proof -
  have "uint m < 2 ^ (LENGTH('a) - 1)"
    using assms(2) by (simp only: top_clear)
  from uint_double [OF this] show ?thesis
    using uint_lt2p [of m] uint_lt2p [of "m + m"] assms(1) uint_0_iff [of m] uint_ge_0 [of m] by linarith
qed

section \<open>Addition\<close>

definition signify :: "temp_real \<Rightarrow> temp_real" where
  "signify t =
     (let e = expo t + 2; m = drop_bit 2 (mant t)
      in \<lparr>mant = (if neg_expo e then - m else m), expo = e AND 0x7fff\<rparr>)"

text \<open>
  The loops that shift a mantissa up until its top bit is set. The code enters them with a
  mantissa other than 0, which the guard repeats.
\<close>

function shift_up :: "u16 \<Rightarrow> u64 \<Rightarrow> u16 \<times> u64" where
  "shift_up e m = (if m \<noteq> 0 \<and> \<not> bit m 63 then shift_up (e - 1) (m + m) else (e, m))"
  by pat_completeness auto
termination
proof (relation "measure (\<lambda>(e, m). nat (2 ^ 64 - uint m))")
  fix e :: u16 and m :: u64
  assume "m \<noteq> 0 \<and> \<not> bit m 63"
  then show "((e - 1, m + m), e, m) \<in> measure (\<lambda>(e, m). nat (2 ^ 64 - uint m))"
    using shift_up_decreases [of m] by simp
qed simp

declare shift_up.simps [simp del]

definition unsignify :: "temp_real \<Rightarrow> temp_real" where
  "unsignify t =
     (if mant t = 0 then t\<lparr>expo := 0\<rparr>
      else let e = expo t AND 0x7fff;
               (e, m) = (if bit (mant t) 63 then (e OR 0x8000, - mant t) else (e, mant t));
               (e, m) = shift_up e m
           in \<lparr>mant = m, expo = e\<rparr>)"

definition fadd :: "temp_real \<Rightarrow> temp_real \<Rightarrow> temp_real" where
  "fadd src1 src2 =
     (let x1 = unat (expo src1 AND 0x7fff); x2 = unat (expo src2 AND 0x7fff);
          (a, b, sh) = (if x1 > x2 then (src1, src2, x1 - x2) else (src2, src1, x2 - x1))
      in if sh \<ge> 64 then a
         else let b = b\<lparr>mant := drop_bit sh (mant b)\<rparr>;
                  a = signify a; b = signify b
              in unsignify (a\<lparr>mant := mant a + mant b\<rparr>))"

section \<open>Comparison\<close>

text \<open>Shifting up while the exponent allows it.\<close>

fun norm_loop :: "nat \<Rightarrow> ('a :: len) word \<Rightarrow> nat \<times> 'a word" where
  "norm_loop 0 m = (0, m)"
| "norm_loop (Suc i) m = (if bit m (LENGTH('a) - 1) then (Suc i, m) else norm_loop i (m + m))"

definition normalize :: "temp_real \<Rightarrow> temp_real" where
  "normalize t =
     (if mant t = 0 then t\<lparr>expo := 0\<rparr>
      else (case norm_loop (unat (expo t AND 0x7fff)) (mant t) of
              (i, m) \<Rightarrow> \<lparr>mant = m, expo = of_nat i OR (expo t AND 0x8000)\<rparr>))"

definition ftst :: "temp_real \<Rightarrow> u32 \<Rightarrow> u32" where
  "ftst a swd =
     (let swd = swd AND NOT 0x4500; b = normalize a
      in if mant b \<noteq> 0 \<or> expo b \<noteq> 0 then if neg_expo (expo b) then set_C0 swd else swd
         else set_C3 swd)"

definition fcom :: "temp_real \<Rightarrow> temp_real \<Rightarrow> u32 \<Rightarrow> u32" where
  "fcom src1 src2 swd = ftst (fadd (src1\<lparr>expo := expo src1 XOR 0x8000\<rparr>) src2) swd"

definition fucom :: "temp_real \<Rightarrow> temp_real \<Rightarrow> u32 \<Rightarrow> u32" where
  "fucom src1 src2 swd = fcom src1 src2 swd"

section \<open>Multiplication\<close>

text \<open>
  \<open>mul64\<close> with its four partial products: the products of the low and of the high words fill
  the 128 bits, and each cross product is added at the second word with its carry.
\<close>

definition mul32 :: "u32 \<Rightarrow> u32 \<Rightarrow> u64" where
  "mul32 x y = ucast x * ucast y"

definition add_at32 :: "u64 \<Rightarrow> u128 \<Rightarrow> u128" where
  "add_at32 p c = push_bit 32 (drop_bit 32 c + ucast p) OR take_bit 32 c"

definition mul64 :: "u64 \<Rightarrow> u64 \<Rightarrow> u128" where
  "mul64 a b =
     (let c = ucast (mul32 (low32 a) (low32 b)) OR push_bit 64 (ucast (mul32 (high32 a) (high32 b)));
          c = add_at32 (mul32 (low32 a) (high32 b)) c
      in add_at32 (mul32 (high32 a) (low32 b)) c)"

text \<open>\<open>old\<close> is what \<open>*result\<close> holds before, which an overflow leaves as it is.\<close>

definition fmul :: "temp_real \<Rightarrow> temp_real \<Rightarrow> temp_real \<Rightarrow> u32 \<Rightarrow> temp_real \<times> u32" where
  "fmul src1 src2 old swd =
     (let sign = (expo src1 XOR expo src2) AND 0x8000;
          i = uint (expo src1 AND 0x7fff) + uint (expo src2 AND 0x7fff) - 16383 + 1
      in if i < 0 then (\<lparr>mant = 0, expo = sign\<rparr>, swd)
         else if i > 0x7fff then (old, set_OE swd)
         else let tmp = mul64 (mant src1) (mant src2);
                  (i, tmp) = (if tmp \<noteq> 0 then norm_loop (nat i) tmp else (0, tmp))
              in (\<lparr>mant = ucast (drop_bit 64 tmp), expo = of_nat i OR sign\<rparr>, swd))"

section \<open>Division\<close>

text \<open>
  \<open>div64\<close>: sixty-four steps of restoring division. Bit \<open>mask\<close> of the word \<open>c\<close> points to in
  step \<open>i\<close> is bit \<open>127 - i\<close> of the quadruple.
\<close>

fun div64_loop :: "nat \<Rightarrow> nat \<Rightarrow> u128 \<Rightarrow> u128 \<Rightarrow> u128 \<Rightarrow> u128" where
  "div64_loop 0 i a b c = c"
| "div64_loop (Suc n) i a b c =
     (if b \<le> a then div64_loop n (i + 1) (a - b) (drop_bit 1 b) (c OR push_bit (127 - i) 1)
      else div64_loop n (i + 1) a (drop_bit 1 b) c)"

definition div64 :: "u128 \<Rightarrow> u128 \<Rightarrow> u128 \<Rightarrow> u128" where
  "div64 a b c = div64_loop 64 0 a b c"

text \<open>The divisor is shifted up, which the exponent pays for; the code has excluded 0.\<close>

function shift_divisor :: "int \<Rightarrow> u128 \<Rightarrow> int \<times> u128" where
  "shift_divisor i b = (if b \<noteq> 0 \<and> \<not> bit b 127 then shift_divisor (i + 1) (b + b) else (i, b))"
  by pat_completeness auto
termination
proof (relation "measure (\<lambda>(i, m). nat (2 ^ 128 - uint m))")
  fix i :: int and m :: u128
  assume "m \<noteq> 0 \<and> \<not> bit m 127"
  then show "((i + 1, m + m), i, m) \<in> measure (\<lambda>(i, m). nat (2 ^ 128 - uint m))"
    using shift_up_decreases [of m] by simp
qed simp

declare shift_divisor.simps [simp del]

definition fdiv :: "temp_real \<Rightarrow> temp_real \<Rightarrow> temp_real \<Rightarrow> u32 \<Rightarrow> temp_real \<times> u32" where
  "fdiv src1 src2 old swd =
     (let sign = (expo src1 XOR expo src2) AND 0x8000
      in if mant src2 = 0 then (old, set_ZE swd)
         else let i = uint (expo src1 AND 0x7fff) - uint (expo src2 AND 0x7fff) + 16383
              in if i < 0 then (\<lparr>mant = 0, expo = sign\<rparr>, set_UE swd)
                 else let a = push_bit 64 (ucast (mant src1));
                          (i, b) = shift_divisor i (push_bit 64 (ucast (mant src2)));
                          tmp = div64 a b 0;
                          (i, tmp, swd) =
                            (if tmp \<noteq> 0 then
                               (case norm_loop (nat i) tmp of
                                  (i, tmp) \<Rightarrow> (int i, tmp, if \<not> bit tmp 127 then set_DE swd else swd))
                             else (0, tmp, swd))
                      in if i > 0x7fff then (old, set_OE swd)
                         else (\<lparr>mant = ucast (drop_bit 64 tmp), expo = of_int i OR sign\<rparr>,
                               if take_bit 64 tmp \<noteq> 0 then set_PE swd else swd))"

section \<open>Conversions\<close>

text \<open>
  A short real is a 32-bit word and a long real a 64-bit word in the IEEE format. \<open>rc\<close> is the
  rounding field of the control word.
\<close>

definition ROUND_NEAREST :: u32 where "ROUND_NEAREST = 0"
definition ROUND_DOWN :: u32 where "ROUND_DOWN = 1"
definition ROUND_UP :: u32 where "ROUND_UP = 2"
definition ROUND_0 :: u32 where "ROUND_0 = 3"

definition ROUNDING :: "u32 \<Rightarrow> u32" where "ROUNDING cwd = drop_bit 10 cwd AND 3"

definition short_to_temp :: "u32 \<Rightarrow> temp_real" where
  "short_to_temp a =
     (if a AND 0x7fffffff = 0 then \<lparr>mant = 0, expo = (if a \<noteq> 0 then 0x8000 else 0)\<rparr>
      else let e = ucast (drop_bit 23 a AND 0xff) - 127 + 16383;
               e = (if bit a 31 then e OR 0x8000 else e)
           in \<lparr>mant = words64 0 (push_bit 8 a OR 0x80000000), expo = e\<rparr>)"

definition long_to_temp :: "u64 \<Rightarrow> temp_real" where
  "long_to_temp x =
     (let a = low32 x; b = high32 x
      in if a = 0 \<and> b AND 0x7fffffff = 0 then \<lparr>mant = 0, expo = (if b \<noteq> 0 then 0x8000 else 0)\<rparr>
         else let e = ucast (drop_bit 20 b AND 0x7ff) - 1023 + 16383;
                  e = (if bit b 31 then e OR 0x8000 else e)
              in \<lparr>mant = words64 (push_bit 11 a) (0x80000000 OR push_bit 11 b OR drop_bit 21 a), expo = e\<rparr>)"

definition temp_to_short :: "u32 \<Rightarrow> temp_real \<Rightarrow> u32" where
  "temp_to_short rc t =
     (if expo t AND 0x7fff = 0 then if expo t \<noteq> 0 then 0x80000000 else 0
      else let ab = high32 (mant t);
               b = push_bit 23 (scast (expo t) - 16383 + 127) AND 0x7f800000;
               b = (if neg_expo (expo t) then b OR 0x80000000 else b);
               b = b OR (drop_bit 8 ab AND 0x007fffff)
           in if rc = ROUND_NEAREST then if ab AND 0xff > 0x80 then b + 1 else b
              else if rc = ROUND_DOWN then
                if expo t AND 0x8000 \<noteq> 0 \<and> ab AND 0xff \<noteq> 0 then b + 1 else b
              else if rc = ROUND_UP then
                if expo t AND 0x8000 = 0 \<and> ab AND 0xff \<noteq> 0 then b + 1 else b
              else b)"

definition temp_to_long :: "u32 \<Rightarrow> temp_real \<Rightarrow> u64" where
  "temp_to_long rc t =
     (if expo t AND 0x7fff = 0 then words64 0 (if expo t \<noteq> 0 then 0x80000000 else 0)
      else let aa = low32 (mant t); ab = high32 (mant t);
               b = push_bit 20 (ucast (0x7fff AND expo t) - 16383 + 1023) AND 0x7ff00000;
               b = (if neg_expo (expo t) then b OR 0x80000000 else b);
               b = b OR (drop_bit 11 ab AND 0x000fffff);
               a = push_bit 21 ab OR (drop_bit 11 aa AND 0x001fffff)
           in if rc = ROUND_NEAREST then if aa AND 0x7ff > 0x400 then words64 a b + 1 else words64 a b
              else if rc = ROUND_DOWN then
                if expo t AND 0x8000 \<noteq> 0 \<and> ab AND 0xff \<noteq> 0 then words64 a b + 1 else words64 a b
              else if rc = ROUND_UP then
                if expo t AND 0x8000 = 0 \<and> ab AND 0xff \<noteq> 0 then words64 a b + 1 else words64 a b
              else words64 a b)"

text \<open>
  Shifting a mantissa down to an integer: the three words \<open>b\<close>, \<open>a\<close> and \<open>underflow\<close> after the
  shift, as one 96-bit word, and what the exponent grows by. From 96 places on only the fact that
  something is left over is kept, in the lowest bit.
\<close>

definition shift_down :: "int \<Rightarrow> u64 \<Rightarrow> 96 word \<times> int" where
  "shift_down sh m =
     (if sh < 32 then (drop_bit (nat sh) (push_bit 32 (ucast m)), sh)
      else if sh < 64 then (drop_bit (nat sh - 32) (ucast m), sh)
      else if sh < 96 then (drop_bit (nat sh - 64) (ucast (high32 m)), sh)
      else (1, 0))"

definition round96 :: "u32 \<Rightarrow> bool \<Rightarrow> 96 word \<Rightarrow> u64" where
  "round96 rc neg v =
     (let m = ucast (drop_bit 32 v) :: u64; underflow = ucast v :: u32
      in if rc = ROUND_NEAREST then ucast (drop_bit 32 (v + (0x7fffffff + (drop_bit 32 v AND 1))))
         else if rc = ROUND_UP then if \<not> neg \<and> underflow \<noteq> 0 then m + 1 else m
         else if rc = ROUND_DOWN then if neg \<and> underflow \<noteq> 0 then m + 1 else m
         else m)"

definition frndint :: "u32 \<Rightarrow> temp_real \<Rightarrow> temp_real" where
  "frndint rc t =
     (let sh = 16383 + 63 - uint (expo t AND 0x7fff)
      in if sh < 0 \<or> sh = 16383 + 63 then t
         else (case shift_down sh (mant t) of
                 (v, d) \<Rightarrow>
                   let e = expo t + of_int d;
                       m = round96 rc (neg_expo e) v
                   in if m \<noteq> 0 then (case shift_up e m of (e, m) \<Rightarrow> \<lparr>mant = m, expo = e\<rparr>)
                      else \<lparr>mant = 0, expo = 0\<rparr>))"

record temp_int =
  imant :: u64
  isign :: bool

definition real_to_int :: "u32 \<Rightarrow> temp_real \<Rightarrow> u32 \<Rightarrow> temp_int \<times> u32" where
  "real_to_int rc t swd =
     (let sh = 16383 + 63 - uint (expo t AND 0x7fff); sign = neg_expo (expo t)
      in if sh < 0 then (\<lparr>imant = 0, isign = sign\<rparr>, set_OE swd)
         else (\<lparr>imant = round96 rc sign (fst (shift_down sh (mant t))), isign = sign\<rparr>, swd))"

definition int_to_real :: "temp_int \<Rightarrow> temp_real" where
  "int_to_real t =
     (if imant t \<noteq> 0 then
        (case shift_up (16383 + 63 + (if isign t then 0x8000 else 0)) (imant t) of
           (e, m) \<Rightarrow> \<lparr>mant = m, expo = e\<rparr>)
      else \<lparr>mant = 0, expo = 0\<rparr>)"

section \<open>Facts on words and their halves\<close>

lemma uint_of_int_id: "0 \<le> k \<Longrightarrow> k < 2 ^ LENGTH('a) \<Longrightarrow> uint (of_int k :: 'a :: len word) = k"
  by (simp add: unsigned_of_int take_bit_int_eq_self)

lemma uint_shr: "uint (drop_bit n m) = uint m div 2 ^ n"
proof -
  have "uint (drop_bit n m) = drop_bit n (uint m)"
    by (rule bit_eqI) (auto simp: bit_uint_iff bit_drop_bit_eq Bit_Operations.bit_drop_bit_eq dest: bit_imp_le_length)
  then show ?thesis
    by (simp only: drop_bit_eq_div)
qed

lemma uint_low_high: "uint m = uint (low32 m) + 2 ^ 32 * uint (high32 m)"
proof -
  have "uint (high32 m) = uint m div 2 ^ 32"
  proof -
    have "uint (drop_bit 32 m) = uint m div 2 ^ 32"
      by (simp only: uint_shr)
    moreover have "uint m div 2 ^ 32 < 2 ^ 32"
      using uint_lt2p [of m] by simp
    ultimately show ?thesis
      by (simp add: high32_def unsigned_ucast_eq take_bit_int_eq_self pos_imp_zdiv_nonneg_iff)
  qed
  moreover have "uint (low32 m) = uint m mod 2 ^ 32"
    by (simp add: low32_def unsigned_ucast_eq take_bit_eq_mod)
  ultimately show ?thesis
    by presburger
qed

lemma add_at32_plus: "add_at32 p c = c + 2 ^ 32 * ucast p"
proof -
  let ?h = "drop_bit 32 c"
  have "push_bit 32 (?h + ucast p) OR take_bit 32 c = push_bit 32 (?h + ucast p) + take_bit 32 c"
    by (rule disjunctive_add_eq_or [symmetric], rule bit_word_eqI) (auto simp: bit_simps)
  also have "\<dots> = push_bit 32 ?h + take_bit 32 c + 2 ^ 32 * ucast p"
    by (simp add: push_bit_eq_mult algebra_simps)
  also have "push_bit 32 ?h + take_bit 32 c = c"
    by (rule bits_ident)
  finally show ?thesis
    by (simp only: add_at32_def)
qed

lemma uint_up32: "uint (ucast (x :: u32) :: u64) = uint x"
  using uint_lt2p [of x] by (simp add: unsigned_ucast_eq take_bit_int_eq_self)

lemma uint_mul32: "uint (mul32 x y) = uint x * uint y"
proof -
  have "uint x * uint y < 2 ^ 32 * 2 ^ 32"
    using uint_lt2p [of x] uint_lt2p [of y] by (intro mult_strict_mono) auto
  then show ?thesis
    by (simp only: mul32_def uint_word_ariths uint_up32) simp
qed

lemma ucast_of_int: "(ucast p :: u128) = of_int (uint p)"
  by simp

text \<open>
  C19. The four 32-bit multiplications and the carries of \<open>mul64\<close> give the exact 128-bit product
  of the two mantissas, for all mantissas.
\<close>

theorem mul64_exact: "uint (mul64 a b) = uint a * uint b"
proof -
  let ?al = "uint (low32 a)" and ?ah = "uint (high32 a)" and ?bl = "uint (low32 b)" and ?bh = "uint (high32 b)"
  define c where "c = (ucast (mul32 (low32 a) (low32 b)) OR push_bit 64 (ucast (mul32 (high32 a) (high32 b))) :: u128)"
  have out: "\<not> bit p (64 + n)" for p :: u64 and n
    using bit_imp_le_length [of p "64 + n"] by auto
  have "c = ucast (mul32 (low32 a) (low32 b)) + push_bit 64 (ucast (mul32 (high32 a) (high32 b)))"
    unfolding c_def
    by (rule disjunctive_add_eq_or [symmetric], rule bit_word_eqI) (simp only: bit_simps, metis out bit_0_eq bot_apply le_add_diff_inverse bot_bool_def)
  then have c: "c = of_int (?al * ?bl + 2 ^ 64 * (?ah * ?bh))"
    unfolding push_bit_eq_mult ucast_of_int uint_mul32 by simp
  have "mul64 a b = of_int (?al * ?bl + 2 ^ 64 * (?ah * ?bh) + 2 ^ 32 * (?al * ?bh) + 2 ^ 32 * (?ah * ?bl))"
    unfolding mul64_def Let_def c_def [symmetric] unfolding add_at32_plus c ucast_of_int uint_mul32 by simp
  also have "?al * ?bl + 2 ^ 64 * (?ah * ?bh) + 2 ^ 32 * (?al * ?bh) + 2 ^ 32 * (?ah * ?bl) = uint a * uint b"
    unfolding uint_low_high [of a] uint_low_high [of b] by (simp add: algebra_simps)
  finally have product: "mul64 a b = of_int (uint a * uint b)" .
  have "uint a * uint b < 2 ^ 64 * 2 ^ 64"
    using uint_lt2p [of a] uint_lt2p [of b] by (intro mult_strict_mono) auto
  then show ?thesis
    unfolding product by (intro uint_of_int_id) simp_all
qed

text \<open>
  One step of the division keeps dividend and quotient: after \<open>i\<close> steps the divisor has been
  halved \<open>i\<close> times and the low \<open>128 - i\<close> bits of the quotient are still clear.
\<close>

lemma div64_loop_ok:
  assumes "uint b = y * 2 ^ n" "i + n = 64" "0 < y" "uint a < y * 2 ^ (n + 1)" "\<And>k. k < 128 - i \<Longrightarrow> \<not> bit c k"
  shows "uint (div64_loop n i a b c) = uint c + 2 ^ 64 * (uint a div (2 * y))"
  using assms
proof (induction n arbitrary: i a b c)
  case 0
  then show ?case
    by simp
next
  case (Suc n)
  have half: "uint (drop_bit 1 b) = y * 2 ^ n"
    using Suc.prems(1) by (simp only: uint_shr) simp
  have i: "127 - i = 64 + n" "128 - i = 65 + n" "i + 1 + n = 64" "128 - (i + 1) = 64 + n"
    using Suc.prems(2) by auto
  show ?case
  proof (cases "b \<le> a")
    case True
    define c' where "c' = c OR push_bit (127 - i) 1"
    have bit: "bit c' k \<longleftrightarrow> bit c k \<or> k = 64 + n" for k
      using i Suc.prems(2) by (auto simp: c'_def bit_simps)
    have "uint c' = uint c + 2 ^ (64 + n)"
    proof -
      have "uint c + push_bit (64 + n) 1 = uint c OR push_bit (64 + n) 1"
        by (rule disjunctive_add_eq_or, rule bit_eqI) (use Suc.prems(5) i in \<open>auto simp: bit_simps\<close>)
      also have "\<dots> = uint c'"
        by (rule bit_eqI) (use Suc.prems(2) bit in \<open>auto simp: bit_simps bit_uint_iff dest: bit_imp_le_length\<close>)
      finally show ?thesis
        by (simp add: push_bit_eq_mult)
    qed
    moreover have sub: "uint (a - b) = uint a - y * (2 * 2 ^ n)"
      using True Suc.prems(1) by (simp add: word_le_def uint_sub_lem [THEN iffD1])
    moreover have "uint (div64_loop n (i + 1) (a - b) (drop_bit 1 b) c') = uint c' + 2 ^ 64 * (uint (a - b) div (2 * y))"
      by (rule Suc.IH [OF half i(3) Suc.prems(3)]) (use Suc.prems(4,5) i sub bit in \<open>auto simp: algebra_simps\<close>)
    moreover have "uint (a - b) div (2 * y) = uint a div (2 * y) - 2 ^ n"
    proof -
      have "uint a = uint (a - b) + 2 ^ n * (2 * y)"
        unfolding sub by simp
      then show ?thesis
        using Suc.prems(3) by simp
    qed
    ultimately show ?thesis
      using True by (simp add: c'_def power_add algebra_simps)
  next
    case False
    then have "uint a < y * 2 ^ (n + 1)"
      using Suc.prems(1) by (simp add: word_le_def)
    moreover have "\<And>k. k < 128 - (i + 1) \<Longrightarrow> \<not> bit c k"
      using Suc.prems(5) i by auto
    ultimately have "uint (div64_loop n (i + 1) a (drop_bit 1 b) c) = uint c + 2 ^ 64 * (uint a div (2 * y))"
      using Suc.IH [OF half i(3) Suc.prems(3)] by blast
    with False show ?thesis
      by (simp only: div64_loop.simps if_False)
  qed
qed

text \<open>
  C20. The 64 steps of restoring division in \<open>div64\<close> leave the exact truncated quotient of the
  two mantissas in the upper half of the result, when the divisor has been shifted up until its
  top bit is set.
\<close>

theorem div64_quotient:
  fixes x y :: u64
  assumes "bit y 63"
  shows "uint (div64 (push_bit 64 (ucast x)) (push_bit 64 (ucast y)) 0) = 2 ^ 64 * (uint x * 2 ^ 63 div uint y)"
proof -
  have up: "uint (push_bit 64 (ucast (m :: u64)) :: u128) = uint m * 2 ^ 64" for m
  proof -
    have eq: "(push_bit 64 (ucast m) :: u128) = of_int (uint m * 2 ^ 64)"
      by (simp add: push_bit_eq_mult)
    have "uint m * 2 ^ 64 < 2 ^ 128"
      using uint_lt2p [of m] by simp
    then show ?thesis
      unfolding eq by (intro uint_of_int_id) simp_all
  qed
  have y: "2 ^ 63 \<le> uint y"
    using assms top_clear [of y] by simp
  have "uint (div64 (push_bit 64 (ucast x)) (push_bit 64 (ucast y)) 0) =
      uint (0 :: u128) + 2 ^ 64 * (uint x * 2 ^ 64 div (2 * uint y))"
    unfolding div64_def up [symmetric]
    by (rule div64_loop_ok) (use y uint_lt2p [of x] in \<open>simp_all add: up\<close>)
  also have "uint x * 2 ^ 64 div (2 * uint y) = uint x * 2 ^ 63 div uint y"
    using div_mult_mult1 [of 2 "uint x * 2 ^ 63" "uint y"] by (simp add: mult.commute)
  finally show ?thesis
    by simp
qed

theorem div64_quotient_witness:
  "uint (div64 (push_bit 64 (ucast (0xC000000000000000 :: u64))) (push_bit 64 (ucast (0x8000000000000000 :: u64))) 0)
     = 2 ^ 64 * (0xC000000000000000 * 2 ^ 63 div 0x8000000000000000)"
  using div64_quotient [of "0x8000000000000000 :: u64" "0xC000000000000000 :: u64"] by simp

section \<open>Loading and storing long reals\<close>

lemma field_masks:
  "(0x7ff :: u32) = mask 11" "(0xff :: u32) = mask 8" "(0x7fff :: u16) = mask 15" "(0x80000000 :: u32) = push_bit 31 1"
  "(0x7ff00000 :: u32) = push_bit 20 (mask 11)" "(0x000fffff :: u32) = mask 20" "(0x001fffff :: u32) = mask 21"
  "(0x7fffffff :: u32) = mask 31" "(0x8000 :: u16) = push_bit 15 1" "(0x7f800000 :: u32) = push_bit 23 (mask 8)"
  "(0x007fffff :: u32) = mask 23"
  by (simp_all add: mask_eq_exp_minus_1)

lemma bit_top32: "bit (0x80000000 :: int) n \<longleftrightarrow> n = 31"
proof -
  have "bit (push_bit 31 1 :: int) n \<longleftrightarrow> n = 31"
    by (simp only: bit_push_bit_iff bit_1_iff) auto
  then show ?thesis
    by (simp add: push_bit_eq_mult)
qed

lemma if_eq_disj: "y = (if c then x else z) \<Longrightarrow> y = x \<or> y = z"
  by (cases c) auto

lemma split_top_bit:
  fixes m :: "'a :: len word"
  shows "m = (m AND mask (LENGTH('a) - 1)) OR (if bit m (LENGTH('a) - 1) then push_bit (LENGTH('a) - 1) 1 else 0)"
proof (rule bit_word_eqI)
  fix n assume "n < LENGTH('a)"
  then consider "n < LENGTH('a) - 1" | "n = LENGTH('a) - 1"
    by arith
  then show "bit m n = bit ((m AND mask (LENGTH('a) - 1)) OR (if bit m (LENGTH('a) - 1) then push_bit (LENGTH('a) - 1) 1 else 0)) n"
    by cases (auto simp: bit_simps)
qed

lemma low_high_words [simp]: "low32 (words64 a b) = a" "high32 (words64 a b) = b"
proof -
  have "\<not> bit a (32 + n)" for n
    using bit_imp_le_length [of a "32 + n"] by auto
  then show "low32 (words64 a b) = a" "high32 (words64 a b) = b"
    by (auto intro!: bit_word_eqI simp: low32_def high32_def words64_def bit_simps)
qed

lemma words_low_high [simp]: "words64 (low32 x) (high32 x) = x"
  by (auto intro!: bit_word_eqI simp: low32_def high32_def words64_def bit_simps)

text \<open>The exponent field after the change of bias, with and without the sign on top.\<close>

lemma biased_expo:
  fixes f :: u32
  assumes "uint f < 2048"
  defines "e \<equiv> ucast f - 1023 + 16383 :: u16"
  shows "uint e = uint f + 15360" "e AND 0x7fff = e" "(e OR 0x8000) AND 0x7fff = e" "e \<noteq> 0" "\<not> bit e 15"
    "ucast e - 16383 + 1023 = f"
proof -
  have e: "e = of_int (uint f + 15360)"
    by (simp add: e_def)
  show u: "uint e = uint f + 15360"
    unfolding e by (rule uint_of_int_id) (use assms(1) in auto)
  then show b: "\<not> bit e 15"
    using top_clear [of e] assms(1) by simp
  show "e AND 0x7fff = e"
    using split_top_bit [of e] b by (simp add: field_masks)
  then show "(e OR 0x8000) AND 0x7fff = e"
    by (simp add: bit.conj_disj_distrib2)
  show "e \<noteq> 0"
  proof
    assume "e = 0"
    with u uint_ge_0 [of f] show False
      by simp
  qed
  have "(ucast e :: u32) = of_int (uint e)"
    by simp
  then show "ucast e - 16383 + 1023 = f"
    unfolding u by simp
qed

text \<open>
  C18. A long real loaded into the coprocessor and stored again under ROUND_NEAREST or ROUND_0 is the
  same 64-bit word, for every word: zeros of both signs, denormals, infinities and NaNs included.
\<close>

theorem long_real_roundtrip:
  assumes "rc \<in> {ROUND_NEAREST, ROUND_0}"
  shows "temp_to_long rc (long_to_temp x) = x"
proof -
  define a b where "a = low32 x" and "b = high32 x"
  have x: "x = words64 a b"
    by (simp add: a_def b_def)
  show ?thesis
  proof (cases "a = 0 \<and> b AND 0x7fffffff = 0")
    case True
    have "b = push_bit 31 1 \<or> b = 0"
    proof -
      have len31: "LENGTH(32) - 1 = 31"
        by simp
      have "b = (b AND mask 31) OR (if bit b 31 then push_bit 31 1 else 0)"
        using split_top_bit [of b] unfolding len31 .
      moreover have "b AND mask 31 = 0"
        using True by (simp add: field_masks)
      ultimately have "b = (if bit b 31 then push_bit 31 1 else 0)"
        by (simp only: or.left_neutral)
      then show ?thesis
        by (rule if_eq_disj)
    qed
    with True show ?thesis
      by (elim disjE) (simp_all add: long_to_temp_def temp_to_long_def x)
  next
    case False
    define f where "f = drop_bit 20 b AND 0x7ff"
    have "f = take_bit 11 (drop_bit 20 b)"
      by (simp add: f_def field_masks take_bit_eq_mask)
    then have "uint f < 2048"
      using take_bit_int_less_exp [of 11 "uint (drop_bit 20 b)"] by (simp add: unsigned_take_bit_eq)
    note f = biased_expo [OF this]
    define e :: u16 where "e = ucast f - 1023 + 16383"
    note f = f [folded e_def]
    define ab where "ab = 0x80000000 OR push_bit 11 b OR drop_bit 21 a"
    have t: "long_to_temp x = \<lparr>mant = words64 (push_bit 11 a) ab, expo = (if bit b 31 then e OR 0x8000 else e)\<rparr>"
      unfolding long_to_temp_def x low_high_words Let_def if_not_P [OF False] f_def [symmetric] e_def [symmetric] ab_def ..
    have sign: "neg_expo (if bit b 31 then e OR 0x8000 else e) = bit b 31"
      using f(5) by (simp add: neg_expo_def bit_or_iff)
    have low: "push_bit 11 a AND 0x7ff = 0"
      unfolding field_masks by (rule bit_word_eqI) (simp add: bit_simps)
    have abit: "bit ab n \<longleftrightarrow> n = 31 \<or> (11 \<le> n \<and> n < 32 \<and> bit b (n - 11)) \<or> bit a (21 + n)" for n
      by (auto simp: ab_def bit_or_iff bit_top32 bit_push_bit_iff bit_drop_bit_eq)
    have out: "\<not> bit a n" "\<not> bit b n" if "32 \<le> n" for n
      using that bit_imp_le_length [of a n] bit_imp_le_length [of b n] by auto
    have ea: "push_bit 21 ab OR (drop_bit 11 (push_bit 11 a) AND 0x001fffff) = a"
    proof (rule bit_word_eqI)
      fix n assume "n < LENGTH(32)"
      then show "bit (push_bit 21 ab OR (drop_bit 11 (push_bit 11 a) AND 0x001fffff)) n = bit a n"
        unfolding field_masks(1-3,5-7) by (cases "n < 21") (auto simp: bit_simps abit out)
    qed
    have eb: "((push_bit 20 f AND 0x7ff00000) OR (if bit b 31 then 0x80000000 else 0)) OR (drop_bit 11 ab AND 0x000fffff) = b"
    proof (rule bit_word_eqI)
      fix n assume "n < LENGTH(32)"
      then show "bit (((push_bit 20 f AND 0x7ff00000) OR (if bit b 31 then 0x80000000 else 0)) OR (drop_bit 11 ab AND 0x000fffff)) n = bit b n"
        unfolding field_masks(1-3,5-7) f_def
        by (cases "n < 20"; cases "n = 31") (auto simp: bit_simps abit out bit_top32)
    qed
    have x7: "0x7fff AND (if bit b 31 then e OR 0x8000 else e) = e" "(if bit b 31 then e OR 0x8000 else e) AND 0x7fff = e"
      using f(2,3) by (simp_all add: and.commute)
    have eb': "(if bit b 31 then (push_bit 20 f AND 0x7ff00000) OR 0x80000000 else push_bit 20 f AND 0x7ff00000) OR
        (drop_bit 11 ab AND 0x000fffff) = b"
      using eb by (cases "bit b 31") (simp_all only: if_True if_False or.right_neutral)
    have rc: "ROUND_0 = ROUND_NEAREST \<longleftrightarrow> False" "ROUND_0 = ROUND_DOWN \<longleftrightarrow> False" "ROUND_0 = ROUND_UP \<longleftrightarrow> False"
      "(0x400 :: u32) < 0 \<longleftrightarrow> False"
      by (simp_all add: ROUND_NEAREST_def ROUND_0_def ROUND_DOWN_def ROUND_UP_def)
    note run = temp_to_long_def t temp_real.simps low_high_words Let_def sign x7 f(6) f(4) low ea eb' if_True if_False rc simp_thms
    from assms consider "rc = ROUND_NEAREST" | "rc = ROUND_0"
      by blast
    then have "temp_to_long rc (long_to_temp x) = words64 a b"
      by cases (simp_all only: run)
    then show ?thesis
      by (simp only: x)
  qed
qed

lemma long_real_roundtrip_witness:
  "temp_to_long ROUND_NEAREST (long_to_temp 0xC00921FB54442D18) = 0xC00921FB54442D18"
  by (rule long_real_roundtrip) simp

text \<open>
  Under ROUND_UP and ROUND_DOWN \<open>temp_to_long\<close> tests the low byte of the upper mantissa word
  instead of the eleven bits that are dropped, so storing a long real that is exact changes it.
\<close>

lemma store_up_inexact:
  "temp_to_long ROUND_UP (long_to_temp 0x3FF0000000200000) = 0x3FF0000000200001"
  by code_simp

text \<open>A fraction far below one rounds up to a number that is not 1: the exponent stays as it was.\<close>

lemma frndint_tiny:
  "frndint ROUND_UP \<lparr>mant = 0x8000000000000000, expo = 0x3F00\<rparr> = \<lparr>mant = 0x8000000000000000, expo = 0x3EC1\<rparr>"
  by code_simp

end
