(* ===== verification/Emulator.thy ===== *)
theory Emulator
  imports MathEmu Userspace
begin

text \<open>
  kernel/math/math_emulate.c, ea.c, get_put.c and error.c: the 387 emulator as a processor. An
  instruction is fetched at the user's instruction pointer, decoded by the three switches of
  \<open>do_emu\<close>, and works on the register stack in the task's \<open>i387\<close> area, on the saved user
  registers and on user memory. \<open>math_abort\<close>, which unwinds to the caller of
  \<open>math_emulate\<close>, is an outcome of its own.
\<close>

section \<open>The state of the emulator\<close>

text \<open>The frame of user registers the trap has saved, from its lowest address up.\<close>

record info =
  u_orig_eip :: u32
  u_ret_from_system_call :: u32
  u_ebx :: u32
  u_ecx :: u32
  u_edx :: u32
  u_esi :: u32
  u_edi :: u32
  u_ebp :: u32
  u_eax :: u32
  u_ds :: u32
  u_es :: u32
  u_fs :: u32
  u_gs :: u32
  u_orig_eax :: u32
  u_eip :: u32
  u_cs :: u32
  u_eflags :: u32
  u_esp :: u32
  u_ss :: u32

record emu_state =
  regs :: info
  kern :: kernel

datatype 'r emu =
    Done 'r emu_state
  | Aborted emu_state
  | Exited int emu_state
  | Halted emu_state

definition emu_bind :: "'r emu \<Rightarrow> ('r \<Rightarrow> emu_state \<Rightarrow> 't emu) \<Rightarrow> 't emu" where
  "emu_bind m f =
     (case m of Done r s \<Rightarrow> f r s | Aborted s \<Rightarrow> Aborted s | Exited c s \<Rightarrow> Exited c s | Halted s \<Rightarrow> Halted s)"

lemma emu_bind_simps [simp]:
  "emu_bind (Done r s) f = f r s" "emu_bind (Aborted s) f = Aborted s" "emu_bind (Exited c s) f = Exited c s"
  "emu_bind (Halted s) f = Halted s"
  by (simp_all add: emu_bind_def)

text \<open>\<open>verify_area\<close> called from the emulator.\<close>

definition emu_verify :: "u32 \<Rightarrow> int \<Rightarrow> emu_state \<Rightarrow> unit emu" where
  "emu_verify addr n s =
     (case verify_area addr n (kern s) of
        Ret r k \<Rightarrow> Done () (s\<lparr>kern := k\<rparr>)
      | DoExit c k \<Rightarrow> Exited c (s\<lparr>kern := k\<rparr>)
      | Panic k \<Rightarrow> Halted (s\<lparr>kern := k\<rparr>))"

definition math_abort :: "nat \<Rightarrow> emu_state \<Rightarrow> 'r emu" where
  "math_abort sig s =
     Aborted (s\<lparr>regs := (regs s)\<lparr>u_eip := u_orig_eip (regs s)\<rparr>,
                kern := upd_cur (\<lambda>t. t\<lparr>t_signal := t_signal t OR push_bit (sig - 1) 1\<rparr>) (kern s)\<rparr>)"

definition SIGILL :: nat where "SIGILL = 4"
definition SIGFPE :: nat where "SIGFPE = 8"

text \<open>\<open>fnclex\<close> clears the exception flags and the busy bit of the coprocessor.\<close>

definition math_error :: "'a kernel_scheme \<Rightarrow> 'a kernel_scheme" where
  "math_error k =
     (let k = (if last_task_used_math k \<noteq> NULL
               then upd_task (last_task_used_math k) (\<lambda>t. t\<lparr>t_signal := t_signal t OR push_bit (SIGFPE - 1) 1\<rparr>) k
               else k)
      in k\<lparr>fpu := (fpu k)\<lparr>swd := swd (fpu k) AND 0x7f00\<rparr>\<rparr>)"

definition I387 :: "emu_state \<Rightarrow> i387_struct" where
  "I387 s = i387 (t_tss (cur (kern s)))"

definition upd_387 :: "(i387_struct \<Rightarrow> i387_struct) \<Rightarrow> emu_state \<Rightarrow> emu_state" where
  "upd_387 f s = s\<lparr>kern := upd_cur (\<lambda>t. t\<lparr>t_tss := (t_tss t)\<lparr>i387 := f (i387 (t_tss t))\<rparr>\<rparr>) (kern s)\<rparr>"

definition upd_swd :: "(u32 \<Rightarrow> u32) \<Rightarrow> emu_state \<Rightarrow> emu_state" where
  "upd_swd f = upd_387 (\<lambda>c. c\<lparr>swd := f (swd c)\<rparr>)"

section \<open>The register stack\<close>

text \<open>
  The eight registers are ten bytes each, one after the other in the 20 words of
  \<open>st_space\<close>: half word \<open>h\<close> of register \<open>i\<close> is half word \<open>5 * i + h\<close> of the space.
\<close>

definition get_half :: "nat \<Rightarrow> (nat \<Rightarrow> u32) \<Rightarrow> u16" where
  "get_half h m = ucast (drop_bit (16 * (h mod 2)) (m (h div 2)))"

definition put_half :: "nat \<Rightarrow> u16 \<Rightarrow> (nat \<Rightarrow> u32) \<Rightarrow> nat \<Rightarrow> u32" where
  "put_half h v m =
     m(h div 2 := (if h mod 2 = 0 then (m (h div 2) AND 0xffff0000) OR ucast v
                   else (m (h div 2) AND 0x0000ffff) OR push_bit 16 (ucast v)))"

definition get_reg :: "nat \<Rightarrow> (nat \<Rightarrow> u32) \<Rightarrow> temp_real" where
  "get_reg i m =
     \<lparr>mant = ucast (get_half (5 * i) m) OR push_bit 16 (ucast (get_half (5 * i + 1) m)) OR
             push_bit 32 (ucast (get_half (5 * i + 2) m)) OR push_bit 48 (ucast (get_half (5 * i + 3) m)),
      expo = get_half (5 * i + 4) m\<rparr>"

definition put_reg :: "nat \<Rightarrow> temp_real \<Rightarrow> (nat \<Rightarrow> u32) \<Rightarrow> nat \<Rightarrow> u32" where
  "put_reg i t m =
     put_half (5 * i + 4) (expo t) (put_half (5 * i + 3) (ucast (drop_bit 48 (mant t)))
       (put_half (5 * i + 2) (ucast (drop_bit 32 (mant t))) (put_half (5 * i + 1) (ucast (drop_bit 16 (mant t)))
         (put_half (5 * i) (ucast (mant t)) m))))"

definition st_nr :: "nat \<Rightarrow> u32 \<Rightarrow> nat" where
  "st_nr i w = (i + unat (drop_bit 11 w)) mod 8"

definition ST :: "nat \<Rightarrow> emu_state \<Rightarrow> temp_real" where
  "ST i s = get_reg (st_nr i (swd (I387 s))) (st_space (I387 s))"

definition put_ST :: "nat \<Rightarrow> temp_real \<Rightarrow> emu_state \<Rightarrow> emu_state" where
  "put_ST i t = upd_387 (\<lambda>c. c\<lparr>st_space := put_reg (st_nr i (swd c)) t (st_space c)\<rparr>)"

definition fpop :: "emu_state \<Rightarrow> emu_state" where
  "fpop = upd_swd (\<lambda>w. (w + 0x800) AND 0x3800 OR (w AND 0xffffc7ff))"

definition fpush :: "emu_state \<Rightarrow> emu_state" where
  "fpush = upd_swd (\<lambda>w. (w + 0x3800) AND 0x3800 OR (w AND 0xffffc7ff))"

definition fxchg :: "nat \<Rightarrow> nat \<Rightarrow> emu_state \<Rightarrow> emu_state" where
  "fxchg i j s = (let c = ST i s in put_ST j c (put_ST i (ST j s) s))"

definition flip_ST :: "nat \<Rightarrow> emu_state \<Rightarrow> emu_state" where
  "flip_ST i s = put_ST i ((ST i s)\<lparr>expo := expo (ST i s) XOR 0x8000\<rparr>) s"

definition CONST1 :: temp_real where "CONST1 = \<lparr>mant = 0x8000000000000000, expo = 0x3FFF\<rparr>"
definition CONSTZ :: temp_real where "CONSTZ = \<lparr>mant = 0, expo = 0\<rparr>"
definition CONSTPI :: temp_real where "CONSTPI = \<lparr>mant = 0xC90FDAA22168C235, expo = 0x4000\<rparr>"
definition CONSTLN2 :: temp_real where "CONSTLN2 = \<lparr>mant = 0xB17217F7D1CF79AC, expo = 0x3FFE\<rparr>"
definition CONSTLG2 :: temp_real where "CONSTLG2 = \<lparr>mant = 0x9A209A84FBCFF799, expo = 0x3FFD\<rparr>"
definition CONSTL2E :: temp_real where "CONSTL2E = \<lparr>mant = 0xB8AA3B295C17F0BC, expo = 0x3FFF\<rparr>"
definition CONSTL2T :: temp_real where "CONSTL2T = \<lparr>mant = 0xD49A784BCD1B8AFE, expo = 0x4000\<rparr>"

section \<open>Effective addresses\<close>

definition REG :: "nat \<Rightarrow> info \<Rightarrow> u32" where
  "REG x r = [u_eax r, u_ecx r, u_edx r, u_ebx r, u_esp r, u_ebp r, u_esi r, u_edi r] ! x"

definition advance :: "u32 \<Rightarrow> emu_state \<Rightarrow> emu_state" where
  "advance n s = s\<lparr>regs := (regs s)\<lparr>u_eip := u_eip (regs s) + n\<rparr>\<rparr>"

definition fetch_byte :: "emu_state \<Rightarrow> u32 \<times> emu_state" where
  "fetch_byte s = (scast (get_fs_byte (u_eip (regs s)) (kern s)), advance 1 s)"

definition fetch_long :: "emu_state \<Rightarrow> u32 \<times> emu_state" where
  "fetch_long s = (get_fs_long (u_eip (regs s)) (kern s), advance 4 s)"

definition set_operand :: "u32 \<Rightarrow> emu_state \<Rightarrow> emu_state" where
  "set_operand offset = upd_387 (\<lambda>c. c\<lparr>foo := offset, fos := 0x17\<rparr>)"

definition sib :: "nat \<Rightarrow> emu_state \<Rightarrow> u32 \<times> emu_state" where
  "sib md s =
     (let b = unat (get_fs_byte (u_eip (regs s)) (kern s));
          s = advance 1 s;
          ss = b div 64; index = b div 8 mod 8; base = b mod 8;
          offset = push_bit ss (if index = 4 then 0 else REG index (regs s));
          offset = (if md \<noteq> 0 \<or> base \<noteq> 5 then offset + REG base (regs s) else offset);
          (disp, s) = (if md = 1 then fetch_byte s
                       else if md = 2 \<or> base = 5 then fetch_long s else (0, s));
          offset = offset + disp
      in (offset, set_operand offset s))"

definition ea :: "u16 \<Rightarrow> emu_state \<Rightarrow> u32 emu" where
  "ea code s =
     (let md = unat (drop_bit 6 code) mod 4; rm = unat code mod 8
      in if rm = 4 \<and> md \<noteq> 3 then (case sib md s of (a, s) \<Rightarrow> Done a s)
         else if rm = 5 \<and> md = 0 then (case fetch_long s of (a, s) \<Rightarrow> Done a (set_operand a s))
         else if md = 3 then math_abort SIGILL s
         else let (offset, s) = (if md = 0 then (0, s) else if md = 1 then fetch_byte s else fetch_long s)
              in Done (offset + REG rm (regs s)) (set_operand offset s))"

section \<open>Operands in user memory\<close>

definition get_short_real :: "u16 \<Rightarrow> emu_state \<Rightarrow> temp_real emu" where
  "get_short_real code s = emu_bind (ea code s) (\<lambda>addr s. Done (short_to_temp (get_fs_long addr (kern s))) s)"

definition get_long_real :: "u16 \<Rightarrow> emu_state \<Rightarrow> temp_real emu" where
  "get_long_real code s =
     emu_bind (ea code s) (\<lambda>addr s.
       Done (long_to_temp (words64 (get_fs_long addr (kern s)) (get_fs_long (addr + 4) (kern s)))) s)"

definition get_temp_real :: "u16 \<Rightarrow> emu_state \<Rightarrow> temp_real emu" where
  "get_temp_real code s =
     emu_bind (ea code s) (\<lambda>addr s.
       Done \<lparr>mant = words64 (get_fs_long addr (kern s)) (get_fs_long (addr + 4) (kern s)),
             expo = get_fs_word (addr + 8) (kern s)\<rparr> s)"

text \<open>A two's complement value as magnitude and sign.\<close>

definition signed_int :: "('a :: len) word \<Rightarrow> bool \<Rightarrow> 'a word" where
  "signed_int a neg = (if neg then - a else a)"

definition get_short_int :: "u16 \<Rightarrow> emu_state \<Rightarrow> temp_real emu" where
  "get_short_int code s =
     emu_bind (ea code s) (\<lambda>addr s.
       let a = scast (get_fs_word addr (kern s)) :: u32; neg = bit a 31
       in Done (int_to_real \<lparr>imant = words64 (signed_int a neg) 0, isign = neg\<rparr>) s)"

definition get_long_int :: "u16 \<Rightarrow> emu_state \<Rightarrow> temp_real emu" where
  "get_long_int code s =
     emu_bind (ea code s) (\<lambda>addr s.
       let a = get_fs_long addr (kern s); neg = bit a 31
       in Done (int_to_real \<lparr>imant = words64 (signed_int a neg) 0, isign = neg\<rparr>) s)"

definition get_longlong_int :: "u16 \<Rightarrow> emu_state \<Rightarrow> temp_real emu" where
  "get_longlong_int code s =
     emu_bind (ea code s) (\<lambda>addr s.
       let a = words64 (get_fs_long addr (kern s)) (get_fs_long (addr + 4) (kern s)); neg = bit a 63
       in Done (int_to_real \<lparr>imant = signed_int a neg, isign = neg\<rparr>) s)"

definition MUL10 :: "u64 \<Rightarrow> u64" where
  "MUL10 x = (let y = x + x; z = y + y; z = z + z in z + y)"

text \<open>Nine bytes of two decimal digits each, from the highest address down.\<close>

fun bcd_loop :: "nat \<Rightarrow> u32 \<Rightarrow> kernel \<Rightarrow> u64 \<Rightarrow> u64" where
  "bcd_loop 0 addr k i = i"
| "bcd_loop (Suc n) addr k i =
     (let c = get_fs_byte addr k;
          i = MUL10 i + ucast (drop_bit 4 c);
          i = MUL10 i + ucast (c AND 0xf)
      in bcd_loop n (addr - 1) k i)"

definition get_BCD :: "u16 \<Rightarrow> emu_state \<Rightarrow> temp_real emu" where
  "get_BCD code s =
     emu_bind (ea code s) (\<lambda>addr s.
       let addr = addr + 9;
           neg = bit (get_fs_byte addr (kern s)) 7
       in Done (int_to_real \<lparr>imant = bcd_loop 9 (addr - 1) (kern s) 0, isign = neg\<rparr>) s)"

definition on_user :: "(kernel \<Rightarrow> kernel) \<Rightarrow> emu_state \<Rightarrow> emu_state" where
  "on_user f s = s\<lparr>kern := f (kern s)\<rparr>"

definition rc_of :: "emu_state \<Rightarrow> u32" where
  "rc_of s = ROUNDING (cwd (I387 s))"

definition put_short_real :: "temp_real \<Rightarrow> u16 \<Rightarrow> emu_state \<Rightarrow> unit emu" where
  "put_short_real t code s =
     emu_bind (ea code s) (\<lambda>addr s. emu_bind (emu_verify addr 4 s) (\<lambda>_ s.
       Done () (on_user (put_fs_long (temp_to_short (rc_of s) t) addr) s)))"

definition put_fs_pair :: "u64 \<Rightarrow> u32 \<Rightarrow> kernel \<Rightarrow> kernel" where
  "put_fs_pair x addr k = put_fs_long (high32 x) (addr + 4) (put_fs_long (low32 x) addr k)"

definition put_long_real :: "temp_real \<Rightarrow> u16 \<Rightarrow> emu_state \<Rightarrow> unit emu" where
  "put_long_real t code s =
     emu_bind (ea code s) (\<lambda>addr s. emu_bind (emu_verify addr 8 s) (\<lambda>_ s.
       Done () (on_user (put_fs_pair (temp_to_long (rc_of s) t) addr) s)))"

definition put_temp_real :: "temp_real \<Rightarrow> u16 \<Rightarrow> emu_state \<Rightarrow> unit emu" where
  "put_temp_real t code s =
     emu_bind (ea code s) (\<lambda>addr s. emu_bind (emu_verify addr 10 s) (\<lambda>_ s.
       Done () (on_user (put_fs_word (expo t) (addr + 8) \<circ> put_fs_pair (mant t) addr) s)))"

text \<open>\<open>real_to_int\<close> with the rounding of the control word, and the flag it may set.\<close>

definition emu_to_int :: "temp_real \<Rightarrow> emu_state \<Rightarrow> temp_int \<times> emu_state" where
  "emu_to_int t s = (case real_to_int (rc_of s) t (swd (I387 s)) of (i, w) \<Rightarrow> (i, upd_swd (\<lambda>_. w) s))"

definition put_short_int :: "temp_real \<Rightarrow> u16 \<Rightarrow> emu_state \<Rightarrow> unit emu" where
  "put_short_int t code s =
     emu_bind (ea code s) (\<lambda>addr s. case emu_to_int t s of (i, s) \<Rightarrow>
       emu_bind (emu_verify addr 2 s) (\<lambda>_ s.
         Done () (on_user (put_fs_word (ucast (signed_int (low32 (imant i)) (isign i))) addr) s)))"

definition put_long_int :: "temp_real \<Rightarrow> u16 \<Rightarrow> emu_state \<Rightarrow> unit emu" where
  "put_long_int t code s =
     emu_bind (ea code s) (\<lambda>addr s. case emu_to_int t s of (i, s) \<Rightarrow>
       emu_bind (emu_verify addr 4 s) (\<lambda>_ s.
         Done () (on_user (put_fs_long (signed_int (low32 (imant i)) (isign i)) addr) s)))"

definition put_longlong_int :: "temp_real \<Rightarrow> u16 \<Rightarrow> emu_state \<Rightarrow> unit emu" where
  "put_longlong_int t code s =
     emu_bind (ea code s) (\<lambda>addr s. case emu_to_int t s of (i, s) \<Rightarrow>
       emu_bind (emu_verify addr 8 s) (\<lambda>_ s.
         Done () (on_user (put_fs_pair (signed_int (imant i) (isign i)) addr) s)))"

definition DIV10 :: "u64 \<Rightarrow> u64 \<times> u8" where
  "DIV10 x =
     (let q = uint (high32 x) div 10; r = uint (high32 x) mod 10; d = r * 2 ^ 32 + uint (low32 x)
      in (words64 (of_int (d div 10)) (of_int q), of_int (d mod 10)))"

fun put_bcd_loop :: "nat \<Rightarrow> u32 \<Rightarrow> u64 \<Rightarrow> kernel \<Rightarrow> kernel" where
  "put_bcd_loop 0 addr i k = k"
| "put_bcd_loop (Suc n) addr i k =
     (case DIV10 i of (i, lo) \<Rightarrow> case DIV10 i of (i, hi) \<Rightarrow>
        put_bcd_loop n (addr + 1) i (put_fs_byte (lo + push_bit 4 hi) addr k))"

definition put_BCD :: "temp_real \<Rightarrow> u16 \<Rightarrow> emu_state \<Rightarrow> unit emu" where
  "put_BCD t code s =
     emu_bind (ea code s) (\<lambda>addr s. emu_bind (emu_verify addr 10 s) (\<lambda>_ s.
       case emu_to_int t s of (i, s) \<Rightarrow>
         Done () (on_user (put_bcd_loop 9 addr (imant i) \<circ> put_fs_byte (if isign i then 0x80 else 0) (addr + 9)) s)))"

section \<open>Decoding\<close>

definition emu_mul :: "temp_real \<Rightarrow> temp_real \<Rightarrow> temp_real \<Rightarrow> emu_state \<Rightarrow> temp_real \<times> emu_state" where
  "emu_mul a b old s = (case fmul a b old (swd (I387 s)) of (r, w) \<Rightarrow> (r, upd_swd (\<lambda>_. w) s))"

definition emu_div :: "temp_real \<Rightarrow> temp_real \<Rightarrow> temp_real \<Rightarrow> emu_state \<Rightarrow> temp_real \<times> emu_state" where
  "emu_div a b old s = (case fdiv a b old (swd (I387 s)) of (r, w) \<Rightarrow> (r, upd_swd (\<lambda>_. w) s))"

definition emu_com :: "temp_real \<Rightarrow> temp_real \<Rightarrow> emu_state \<Rightarrow> emu_state" where
  "emu_com a b = upd_swd (fcom a b)"

definition store_result :: "nat \<Rightarrow> temp_real \<times> emu_state \<Rightarrow> emu_state" where
  "store_result i r = put_ST i (fst r) (snd r)"

text \<open>The words of the \<open>i387\<close> area by their index.\<close>

definition get_word :: "nat \<Rightarrow> i387_struct \<Rightarrow> u32" where
  "get_word i c = (if i < 7 then [cwd c, swd c, twd c, fip c, fcs c, foo c, fos c] ! i else st_space c (i - 7))"

definition set_word :: "nat \<Rightarrow> u32 \<Rightarrow> i387_struct \<Rightarrow> i387_struct" where
  "set_word i v c =
     (if i = 0 then c\<lparr>cwd := v\<rparr> else if i = 1 then c\<lparr>swd := v\<rparr> else if i = 2 then c\<lparr>twd := v\<rparr>
      else if i = 3 then c\<lparr>fip := v\<rparr> else if i = 4 then c\<lparr>fcs := v\<rparr> else if i = 5 then c\<lparr>foo := v\<rparr>
      else if i = 6 then c\<lparr>fos := v\<rparr> else c\<lparr>st_space := (st_space c)(i - 7 := v)\<rparr>)"

definition load_words :: "nat \<Rightarrow> u32 \<Rightarrow> emu_state \<Rightarrow> emu_state" where
  "load_words n addr s =
     fold (\<lambda>i. upd_387 (set_word i (get_fs_long (addr + of_nat (4 * i)) (kern s)))) [0..<n] s"

definition store_words :: "nat \<Rightarrow> u32 \<Rightarrow> emu_state \<Rightarrow> emu_state" where
  "store_words n addr s =
     fold (\<lambda>i. on_user (put_fs_long (get_word i (I387 s)) (addr + of_nat (4 * i)))) [0..<n] s"

definition reset_387 :: "i387_struct \<Rightarrow> i387_struct" where
  "reset_387 c = c\<lparr>cwd := 0x37f, swd := 0, twd := 0\<rparr>"

text \<open>
  The first switch: instructions given by their whole code. \<open>None\<close> is no case. \<open>info\<close>
  is reached through the state.
\<close>

abbreviation (input) ok :: "emu_state \<Rightarrow> unit emu option" where "ok s \<equiv> Some (Done () s)"

definition load_const :: "temp_real \<Rightarrow> emu_state \<Rightarrow> emu_state" where
  "load_const c s = put_ST 0 c (fpush s)"

definition emu_direct :: "u16 \<Rightarrow> emu_state \<Rightarrow> unit emu option" where
  "emu_direct code s =
     (if code = 0x1d0 then ok s
      else if 0x1d1 \<le> code \<and> code \<le> 0x1d7 then Some (math_abort SIGILL s)
      else if code = 0x1e0 then ok (flip_ST 0 s)
      else if code = 0x1e1 then ok (put_ST 0 ((ST 0 s)\<lparr>expo := expo (ST 0 s) AND 0x7fff\<rparr>) s)
      else if code = 0x1e2 \<or> code = 0x1e3 then Some (math_abort SIGILL s)
      else if code = 0x1e4 then ok (upd_swd (ftst (ST 0 s)) s)
      else if code = 0x1e5 then Some (math_abort SIGILL s)
      else if code = 0x1e6 \<or> code = 0x1e7 then Some (math_abort SIGILL s)
      else if code = 0x1e8 then ok (load_const CONST1 s)
      else if code = 0x1e9 then ok (load_const CONSTL2T s)
      else if code = 0x1ea then ok (load_const CONSTL2E s)
      else if code = 0x1eb then ok (load_const CONSTPI s)
      else if code = 0x1ec then ok (load_const CONSTLG2 s)
      else if code = 0x1ed then ok (load_const CONSTLN2 s)
      else if code = 0x1ee then ok (load_const CONSTZ s)
      else if code = 0x1ef then Some (math_abort SIGILL s)
      else if 0x1f0 \<le> code \<and> code \<le> 0x1ff \<and> code \<noteq> 0x1fc then Some (math_abort SIGILL s)
      else if code = 0x1fc then ok (put_ST 0 (frndint (rc_of s) (ST 0 s)) s)
      else if code = 0x2e9 then ok (fpop (fpop (upd_swd (fucom (ST 1 s) (ST 0 s)) s)))
      else if code = 0x3d0 \<or> code = 0x3d1 then ok s
      else if code = 0x3e2 then ok (upd_swd (\<lambda>w. w AND 0x7f00) s)
      else if code = 0x3e3 then ok (upd_387 reset_387 s)
      else if code = 0x3e4 then ok s
      else if code = 0x6d9 then ok (fpop (fpop (emu_com (ST 1 s) (ST 0 s) s)))
      else if code = 0x7e0 then
        ok (s\<lparr>regs := (regs s)\<lparr>u_eax := (u_eax (regs s) AND 0xffff0000) OR (swd (I387 s) AND 0xffff)\<rparr>\<rparr>)
      else None)"

text \<open>
  The second switch: operations between the top of the stack and register \<open>code & 7\<close>.
  \<open>tmp\<close> is the local of \<open>do_emu\<close>, which has no initial value: what it holds is a
  parameter. \<open>fcom\<close> to the top reads it, and an overflow or a division by zero leaves it to be
  stored.
\<close>

definition emu_stack :: "temp_real \<Rightarrow> u16 \<Rightarrow> emu_state \<Rightarrow> unit emu option" where
  "emu_stack tmp code s =
     (let op = unat code div 8; i = unat code mod 8; neg = (\<lambda>t. t\<lparr>expo := expo t XOR 0x8000\<rparr>)
      in if op = 0x18 then ok (put_ST 0 (fadd (ST 0 s) (ST i s)) s)
         else if op = 0x19 then ok (store_result 0 (emu_mul (ST 0 s) (ST i s) tmp s))
         else if op = 0x1a then ok (put_ST 0 tmp (emu_com (ST i s) tmp s))
         else if op = 0x1b then ok (fpop (put_ST 0 tmp (emu_com (ST i s) tmp s)))
         else if op = 0x1c then ok (put_ST 0 (fadd (ST 0 s) (neg (ST i s))) s)
         else if op = 0x1d then ok (let s = flip_ST 0 s in put_ST 0 (fadd (ST 0 s) (ST i s)) s)
         else if op = 0x1e then ok (store_result 0 (emu_div (ST 0 s) (ST i s) tmp s))
         else if op = 0x1f then ok (store_result 0 (emu_div (ST i s) (ST 0 s) tmp s))
         else if op = 0x38 then ok (let s = fpush s in put_ST 0 (ST (i + 1) s) s)
         else if op = 0x39 then ok (fxchg 0 i s)
         else if op = 0x3b then ok (fpop (put_ST i (ST 0 s) s))
         else if op = 0x98 then ok (put_ST i (fadd (ST 0 s) (ST i s)) s)
         else if op = 0x99 then ok (store_result i (emu_mul (ST 0 s) (ST i s) tmp s))
         else if op = 0x9a then ok (emu_com (ST i s) (ST 0 s) s)
         else if op = 0x9b then ok (fpop (emu_com (ST i s) (ST 0 s) s))
         else if op = 0x9c then ok (let s = flip_ST i s in put_ST i (fadd (ST 0 s) (ST i s)) s)
         else if op = 0x9d then ok (put_ST i (fadd (ST i s) (neg (ST 0 s))) s)
         else if op = 0x9e then ok (store_result i (emu_div (ST 0 s) (ST i s) tmp s))
         else if op = 0x9f then ok (store_result i (emu_div (ST i s) (ST 0 s) tmp s))
         else if op = 0xb8 then Some (math_abort SIGILL s)
         else if op = 0xb9 then ok (fxchg 0 i s)
         else if op = 0xba then ok (put_ST i (ST 0 s) s)
         else if op = 0xbb then ok (fpop (put_ST i (ST 0 s) s))
         else if op = 0xbc then ok (upd_swd (fucom (ST i s) (ST 0 s)) s)
         else if op = 0xbd then ok (fpop (upd_swd (fucom (ST i s) (ST 0 s)) s))
         else if op = 0xd8 then ok (fpop (put_ST i (fadd (ST i s) (ST 0 s)) s))
         else if op = 0xd9 then ok (fpop (store_result i (emu_mul (ST i s) (ST 0 s) tmp s)))
         else if op = 0xda then ok (fpop (emu_com (ST i s) (ST 0 s) s))
         else if op = 0xdc then ok (fpop (let s = flip_ST i s in put_ST i (fadd (ST 0 s) (ST i s)) s))
         else if op = 0xdd then ok (fpop (put_ST i (fadd (ST i s) (neg (ST 0 s))) s))
         else if op = 0xde then ok (fpop (store_result i (emu_div (ST 0 s) (ST i s) tmp s)))
         else if op = 0xdf then ok (fpop (store_result i (emu_div (ST i s) (ST 0 s) tmp s)))
         else if op = 0xf8 then Some (math_abort SIGILL s)
         else if op = 0xf9 then ok (fxchg 0 i s)
         else if op = 0xfa \<or> op = 0xfb then ok (fpop (put_ST i (ST 0 s) s))
         else None)"

text \<open>The third switch: stores, and loads that need no arithmetic. The mode bits are masked out.\<close>

definition emu_pop :: "unit emu \<Rightarrow> unit emu" where
  "emu_pop m = emu_bind m (\<lambda>_ s. Done () (fpop s))"

definition emu_load :: "(u16 \<Rightarrow> emu_state \<Rightarrow> temp_real emu) \<Rightarrow> u16 \<Rightarrow> emu_state \<Rightarrow> unit emu" where
  "emu_load get code s = emu_bind (get code (fpush s)) (\<lambda>t s. Done () (put_ST 0 t s))"

definition emu_memory :: "u16 \<Rightarrow> emu_state \<Rightarrow> unit emu option" where
  "emu_memory code s =
     (let op = drop_bit 3 code AND 0xe7
      in if op = 0x22 then Some (put_short_real (ST 0 s) code s)
         else if op = 0x23 then Some (emu_pop (put_short_real (ST 0 s) code s))
         else if op = 0x24 then Some (emu_bind (ea code s) (\<lambda>a s. Done () (load_words 7 a s)))
         else if op = 0x25 then
           Some (emu_bind (ea code s) (\<lambda>a s.
             Done () (upd_387 (\<lambda>c. c\<lparr>cwd := (cwd c AND 0xffff0000) OR ucast (get_fs_word a (kern s))\<rparr>) s)))
         else if op = 0x26 then
           Some (emu_bind (ea code s) (\<lambda>a s. emu_bind (emu_verify a 28 s) (\<lambda>_ s. Done () (store_words 7 a s))))
         else if op = 0x27 then
           Some (emu_bind (ea code s) (\<lambda>a s. emu_bind (emu_verify a 2 s) (\<lambda>_ s.
             Done () (on_user (put_fs_word (ucast (cwd (I387 s))) a) s))))
         else if op = 0x62 then Some (put_long_int (ST 0 s) code s)
         else if op = 0x63 then Some (emu_pop (put_long_int (ST 0 s) code s))
         else if op = 0x65 then Some (emu_load get_temp_real code s)
         else if op = 0x67 then Some (emu_pop (put_temp_real (ST 0 s) code s))
         else if op = 0xa2 then Some (put_long_real (ST 0 s) code s)
         else if op = 0xa3 then Some (emu_pop (put_long_real (ST 0 s) code s))
         else if op = 0xa4 then Some (emu_bind (ea code s) (\<lambda>a s. Done () (load_words 27 a s)))
         else if op = 0xa6 then
           Some (emu_bind (ea code s) (\<lambda>a s. emu_bind (emu_verify a 108 s) (\<lambda>_ s.
             Done () (upd_387 reset_387 (store_words 27 a s)))))
         else if op = 0xa7 then
           Some (emu_bind (ea code s) (\<lambda>a s. emu_bind (emu_verify a 2 s) (\<lambda>_ s.
             Done () (on_user (put_fs_word (ucast (swd (I387 s))) a) s))))
         else if op = 0xe2 then Some (put_short_int (ST 0 s) code s)
         else if op = 0xe3 then Some (emu_pop (put_short_int (ST 0 s) code s))
         else if op = 0xe4 then Some (emu_load get_BCD code s)
         else if op = 0xe5 then Some (emu_load get_longlong_int code s)
         else if op = 0xe6 then Some (emu_pop (put_BCD (ST 0 s) code s))
         else if op = 0xe7 then Some (emu_pop (put_longlong_int (ST 0 s) code s))
         else None)"

text \<open>
  What is left fetches its operand by the format in the top two bits of the code and computes
  with it. The code is below 0x800, so the case for short integers is never taken and \<open>tmp\<close>
  stays as it was for them.
\<close>

definition emu_operand :: "temp_real \<Rightarrow> u16 \<Rightarrow> emu_state \<Rightarrow> temp_real emu" where
  "emu_operand tmp code s =
     (let f = unat code div 512
      in if f = 0 then get_short_real code s
         else if f = 1 then get_long_int code s
         else if f = 2 then get_long_real code s
         else if f = 4 then get_short_int code s
         else Done tmp s)"

definition emu_arith :: "u16 \<Rightarrow> temp_real \<Rightarrow> emu_state \<Rightarrow> unit emu" where
  "emu_arith code tmp s =
     (let op = drop_bit 3 code AND 0x27
      in if op = 0 then Done () (put_ST 0 (fadd tmp (ST 0 s)) s)
         else if op = 1 then Done () (store_result 0 (emu_mul tmp (ST 0 s) tmp s))
         else if op = 2 then Done () (emu_com tmp (ST 0 s) s)
         else if op = 3 then Done () (fpop (emu_com tmp (ST 0 s) s))
         else if op = 4 then
           Done () (put_ST 0 (fadd (tmp\<lparr>expo := expo tmp XOR 0x8000\<rparr>) (ST 0 s)) s)
         else if op = 5 then Done () (let s = flip_ST 0 s in put_ST 0 (fadd tmp (ST 0 s)) s)
         else if op = 6 then Done () (store_result 0 (emu_div (ST 0 s) tmp tmp s))
         else if op = 7 then Done () (store_result 0 (emu_div tmp (ST 0 s) tmp s))
         else if code AND 0x138 = 0x100 then Done () (put_ST 0 tmp (fpush s))
         else math_abort SIGFPE s)"

text \<open>The error summary bit, the address of the instruction, and the fetch of the code.\<close>

definition emu_begin :: "emu_state \<Rightarrow> emu_state" where
  "emu_begin s =
     (let s = upd_387 (\<lambda>c. c\<lparr>swd := (if cwd c AND swd c AND 0x3f \<noteq> 0 then swd c OR 0x8000 else swd c AND 0x7fff)\<rparr>) s
      in s\<lparr>regs := (regs s)\<lparr>u_orig_eip := u_eip (regs s)\<rparr>\<rparr>)"

definition emu_fetch :: "emu_state \<Rightarrow> u16 \<times> emu_state" where
  "emu_fetch s =
     (let w = get_fs_word (u_eip (regs s)) (kern s);
          code = (push_bit 8 w OR drop_bit 8 w) AND 0x7ff;
          s = upd_387 (\<lambda>c. c\<lparr>fip := u_eip (regs s),
                fcs := (u_cs (regs s) AND 0xffff) OR push_bit 16 (ucast code)\<rparr>) s
      in (code, advance 2 s))"

definition do_emu :: "temp_real \<Rightarrow> emu_state \<Rightarrow> unit emu" where
  "do_emu tmp s =
     (let s = emu_begin s
      in if u_cs (regs s) AND 0xffff \<noteq> 0x000F then Halted s
         else (case emu_fetch s of (code, s) \<Rightarrow>
           (case emu_direct code s of Some r \<Rightarrow> r
            | None \<Rightarrow> (case emu_stack tmp code s of Some r \<Rightarrow> r
            | None \<Rightarrow> (case emu_memory code s of Some r \<Rightarrow> r
            | None \<Rightarrow> emu_bind (emu_operand tmp code s) (emu_arith code))))))"

definition math_emulate :: "temp_real \<Rightarrow> emu_state \<Rightarrow> unit emu" where
  "math_emulate tmp s =
     do_emu tmp
       (if t_used_math (cur (kern s)) then s
        else upd_387 reset_387 (s\<lparr>kern := upd_cur (\<lambda>t. t\<lparr>t_used_math := True\<rparr>) (kern s)\<rparr>))"

section \<open>What an instruction leaves alone\<close>

lemma upd_387_simps [simp]:
  "I387 (upd_387 f s) = f (I387 s)" "regs (upd_387 f s) = regs s" "fs_mem (kern (upd_387 f s)) = fs_mem (kern s)"
  "t_signal (cur (kern (upd_387 f s))) = t_signal (cur (kern s))" "mem (kern (upd_387 f s)) = mem (kern s)"
  "current (kern (upd_387 f s)) = current (kern s)" "t_used_math (cur (kern (upd_387 f s))) = t_used_math (cur (kern s))"
  by (simp_all add: I387_def upd_387_def upd_cur_def upd_task_def cur_def)

lemma upd_swd_simps [simp]:
  "I387 (upd_swd f s) = (I387 s)\<lparr>swd := f (swd (I387 s))\<rparr>" "regs (upd_swd f s) = regs s"
  "fs_mem (kern (upd_swd f s)) = fs_mem (kern s)" "t_signal (cur (kern (upd_swd f s))) = t_signal (cur (kern s))"
  "mem (kern (upd_swd f s)) = mem (kern s)"
  by (simp_all add: upd_swd_def)

lemma put_ST_simps [simp]:
  "I387 (put_ST i t s) = (I387 s)\<lparr>st_space := put_reg (st_nr i (swd (I387 s))) t (st_space (I387 s))\<rparr>"
  "regs (put_ST i t s) = regs s" "fs_mem (kern (put_ST i t s)) = fs_mem (kern s)"
  "t_signal (cur (kern (put_ST i t s))) = t_signal (cur (kern s))" "mem (kern (put_ST i t s)) = mem (kern s)"
  by (simp_all add: put_ST_def)

lemma advance_simps [simp]:
  "I387 (advance n s) = I387 s" "kern (advance n s) = kern s" "u_eip (regs (advance n s)) = u_eip (regs s) + n"
  "u_orig_eip (regs (advance n s)) = u_orig_eip (regs s)" "u_cs (regs (advance n s)) = u_cs (regs s)"
  by (simp_all add: advance_def I387_def)

lemma on_user_simps [simp]: "regs (on_user f s) = regs s" "kern (on_user f s) = f (kern s)"
  by (simp_all add: on_user_def)

section \<open>Aborted instructions\<close>

text \<open>
  Nothing that an abort could see has happened between \<open>s\<close> and \<open>t\<close>: no signal, no write to user
  memory, and the saved address of the instruction.
\<close>

definition untouched :: "emu_state \<Rightarrow> emu_state \<Rightarrow> bool" where
  "untouched s t \<longleftrightarrow>
     u_orig_eip (regs t) = u_orig_eip (regs s) \<and> t_signal (cur (kern t)) = t_signal (cur (kern s)) \<and>
     fs_mem (kern t) = fs_mem (kern s)"

named_theorems quiet

lemma untouched_refl [quiet, simp]: "untouched s s"
  by (simp add: untouched_def)

lemma untouched_trans: "untouched s t \<Longrightarrow> untouched t u \<Longrightarrow> untouched s u"
  by (simp add: untouched_def)

lemma untouched_ops [quiet]:
  "untouched s (upd_387 f s)" "untouched s (upd_swd g s)" "untouched s (put_ST i t s)" "untouched s (advance n s)"
  "untouched s (fpush s)" "untouched s (set_operand a s)"
  by (simp_all add: untouched_def fpush_def set_operand_def)

lemma untouched_fetch [quiet]: "untouched s (snd (fetch_byte s))" "untouched s (snd (fetch_long s))"
  by (simp_all add: fetch_byte_def fetch_long_def quiet)

lemma untouched_sib: "sib md s = (a, t) \<Longrightarrow> untouched s t"
  by (auto simp: sib_def Let_def fetch_byte_def fetch_long_def untouched_def set_operand_def split: if_splits)

text \<open>
  \<open>aborts s m\<close>: if the computation \<open>m\<close>, begun in \<open>s\<close>, aborts, it does so through
  \<open>math_abort\<close> in a state that is untouched. The rules follow the operations.
\<close>

definition aborts :: "emu_state \<Rightarrow> 'r emu \<Rightarrow> bool" where
  "aborts s m \<longleftrightarrow> (\<forall>s'. m = Aborted s' \<longrightarrow> (\<exists>sig t. sig \<in> {SIGILL, SIGFPE} \<and> untouched s t \<and> m = math_abort sig t))"

definition aborts_opt :: "emu_state \<Rightarrow> 'r emu option \<Rightarrow> bool" where
  "aborts_opt s r \<longleftrightarrow> (case r of None \<Rightarrow> True | Some m \<Rightarrow> aborts s m)"

named_theorems aborts_intros

lemma aborts_done [aborts_intros]: "aborts s (Done r t)"
  by (simp add: aborts_def)

lemma aborts_abort [aborts_intros]:
  "untouched s t \<Longrightarrow> aborts s (math_abort SIGILL t)" "untouched s t \<Longrightarrow> aborts s (math_abort SIGFPE t)"
  by (fastforce simp: aborts_def)+

lemma aborts_if [aborts_intros]:
  "aborts_opt s a \<Longrightarrow> aborts_opt s b \<Longrightarrow> aborts_opt s (if c then a else b)" "aborts_opt s None"
  "aborts s m \<Longrightarrow> aborts_opt s (Some m)" "aborts s m \<Longrightarrow> aborts s n \<Longrightarrow> aborts s (if c then m else n)"
  by (simp_all add: aborts_opt_def)

lemma aborts_verify [aborts_intros]: "aborts s (emu_bind (emu_verify a n t) (\<lambda>_ t. Done r (g t)))"
  by (auto simp: aborts_def emu_verify_def split: outcome.split)

lemma aborts_bind:
  assumes "aborts s m" "\<And>r t. m = Done r t \<Longrightarrow> aborts s (f r t)"
  shows "aborts s (emu_bind m f)"
  using assms by (cases m) (auto simp: aborts_def math_abort_def)

lemma aborts_ea: "untouched s t \<Longrightarrow> aborts s (ea code t)"
  unfolding ea_def Let_def by (auto simp: aborts_done intro!: aborts_abort split: prod.split)

lemma aborts_at_ea [aborts_intros]:
  "untouched s t \<Longrightarrow> (\<And>a u. aborts s (f a u)) \<Longrightarrow> aborts s (emu_bind (ea code t) f)"
  by (rule aborts_bind [OF aborts_ea])

lemma aborts_to_int [aborts_intros]:
  "(\<And>i u. aborts s (f i u)) \<Longrightarrow> aborts s (case emu_to_int t v of (i, u) \<Rightarrow> f i u)"
  by (simp split: prod.split)

lemma aborts_get [aborts_intros]:
  assumes "untouched s t"
  shows "aborts s (get_short_real code t)" "aborts s (get_long_real code t)" "aborts s (get_temp_real code t)"
    "aborts s (get_short_int code t)" "aborts s (get_long_int code t)" "aborts s (get_longlong_int code t)"
    "aborts s (get_BCD code t)"
  unfolding get_short_real_def get_long_real_def get_temp_real_def get_short_int_def get_long_int_def
    get_longlong_int_def get_BCD_def Let_def
  by (intro aborts_intros assms)+

lemma aborts_put [aborts_intros]:
  assumes "untouched s t"
  shows "aborts s (put_short_real x code t)" "aborts s (put_long_real x code t)" "aborts s (put_temp_real x code t)"
    "aborts s (put_short_int x code t)" "aborts s (put_long_int x code t)" "aborts s (put_longlong_int x code t)"
  unfolding put_short_real_def put_long_real_def put_temp_real_def put_short_int_def put_long_int_def
    put_longlong_int_def
  by (intro aborts_intros assms)+

lemma aborts_put_BCD [aborts_intros]: "untouched s t \<Longrightarrow> aborts s (put_BCD x code t)"
  unfolding put_BCD_def
  by (intro aborts_at_ea) (auto simp: aborts_def emu_verify_def split: outcome.split prod.split)

lemma aborts_pop [aborts_intros]: "aborts s m \<Longrightarrow> aborts s (emu_pop m)"
  unfolding emu_pop_def by (rule aborts_bind) (auto intro: aborts_intros)

lemma aborts_load [aborts_intros]: "aborts s (get code (fpush t)) \<Longrightarrow> aborts s (emu_load get code t)"
  unfolding emu_load_def by (rule aborts_bind) (auto intro: aborts_intros)

lemma aborts_decode:
  "aborts_opt s (emu_direct code s)" "aborts_opt s (emu_stack tmp code s)" "aborts_opt s (emu_memory code s)"
  unfolding emu_direct_def emu_stack_def emu_memory_def Let_def
  by (intro aborts_intros quiet)+

text \<open>An operand is fetched without a trace but in the operand registers and the instruction pointer.\<close>

lemma ea_quiet: "ea code s = Done a t \<Longrightarrow> untouched s t"
  unfolding ea_def Let_def fetch_byte_def fetch_long_def
  by (auto simp: math_abort_def quiet dest: untouched_sib split: if_splits prod.splits
      intro: untouched_trans [OF untouched_ops(4) untouched_ops(6)])

lemma operand_quiet: "emu_operand tmp code s = Done x t \<Longrightarrow> untouched s t"
  unfolding emu_operand_def Let_def get_short_real_def get_long_real_def get_short_int_def get_long_int_def
  by (cases "ea code s") (auto simp: ea_quiet split: if_splits)

lemma aborts_arith: "untouched s t \<Longrightarrow> aborts s (emu_arith code x t)"
  unfolding emu_arith_def Let_def by (intro aborts_intros)

lemma aborts_operand: "aborts s (emu_operand tmp code s)"
  unfolding emu_operand_def Let_def by (intro aborts_intros quiet)

text \<open>
  C21. An instruction that aborts is undone as far as the user can see: the instruction pointer is
  back at its first byte, user memory is as it was, and the task has SIGILL or SIGFPE pending on top
  of the signals it had.
\<close>

theorem abort_restarts:
  assumes "do_emu tmp s = Aborted s'"
  shows "u_eip (regs s') = u_eip (regs s) \<and> fs_mem (kern s') = fs_mem (kern s) \<and>
    (\<exists>sig \<in> {SIGILL, SIGFPE}. t_signal (cur (kern s')) = t_signal (cur (kern s)) OR push_bit (sig - 1) 1)"
proof -
  obtain code u where u: "emu_fetch (emu_begin s) = (code, u)"
    by fastforce
  then have base: "u_orig_eip (regs u) = u_eip (regs s)" "fs_mem (kern u) = fs_mem (kern s)"
    "t_signal (cur (kern u)) = t_signal (cur (kern s))"
    by (auto simp: emu_fetch_def emu_begin_def Let_def)
  let ?run = "case emu_direct code u of Some r \<Rightarrow> r
      | None \<Rightarrow> (case emu_stack tmp code u of Some r \<Rightarrow> r
      | None \<Rightarrow> (case emu_memory code u of Some r \<Rightarrow> r
      | None \<Rightarrow> emu_bind (emu_operand tmp code u) (emu_arith code)))"
  have "aborts u ?run"
    using aborts_decode(1) [of u code] aborts_decode(2) [of u tmp code] aborts_decode(3) [of u code]
      aborts_bind [OF aborts_operand [of u tmp code] aborts_arith [OF operand_quiet]]
    by (auto simp: aborts_opt_def split: option.split)
  moreover have "?run = Aborted s'"
    using assms u by (simp add: do_emu_def Let_def split: if_splits)
  ultimately obtain sig t where "sig \<in> {SIGILL, SIGFPE}" "untouched u t" "Aborted s' = (math_abort sig t :: unit emu)"
    unfolding aborts_def by metis
  then show ?thesis
    using base by (auto simp: math_abort_def untouched_def upd_cur_def upd_task_def cur_def)
qed

section \<open>The register file\<close>

lemma get_put_half: "get_half g (put_half h v m) = (if g = h then v else get_half g m)"
proof -
  have high: "(0xffff0000 :: u32) = push_bit 16 (mask 16)" "(0xffff :: u32) = mask 16"
    by (simp_all add: mask_eq_exp_minus_1)
  have out: "\<not> bit v k" if "16 \<le> k" for k
    using that bit_imp_le_length [of v k] by auto
  consider "g = h" | "g \<noteq> h" "g div 2 = h div 2" | "g div 2 \<noteq> h div 2"
    by blast
  then show ?thesis
  proof cases
    case 1
    then show ?thesis
      unfolding get_half_def put_half_def high
      by (cases "h mod 2 = 0") (auto intro!: bit_word_eqI simp: bit_simps)
  next
    case 2
    then have "g mod 2 \<noteq> h mod 2"
      by (metis div_mult_mod_eq)
    with 2 show ?thesis
      unfolding get_half_def put_half_def high
      by (cases "h mod 2 = 0") (auto intro!: bit_word_eqI simp: get_half_def put_half_def bit_simps out)
  next
    case 3
    then have "g \<noteq> h"
      by auto
    with 3 show ?thesis
      by (simp add: get_half_def put_half_def)
  qed
qed

lemma get_put_reg: "get_reg j (put_reg i t m) = (if i = j then t else get_reg j m)"
proof (cases "i = j")
  case False
  have ne: "5 * j + a \<noteq> 5 * i + b" if "a < 5" "b < 5" for a b
    using that False by presburger
  have halves: "get_half (5 * j + a) (put_reg i t m) = get_half (5 * j + a) m" if "a < 5" for a
    using ne [OF that, of 0] ne [OF that, of 1] ne [OF that, of 2] ne [OF that, of 3] ne [OF that, of 4]
    by (simp add: put_reg_def get_put_half)
  show ?thesis
    using False halves [of 0] halves [of 1] halves [of 2] halves [of 3] halves [of 4] by (simp add: get_reg_def)
next
  case True
  have quarters: "(ucast (ucast m :: u16) OR push_bit 16 (ucast (ucast (drop_bit 16 m) :: u16)) OR
      push_bit 32 (ucast (ucast (drop_bit 32 m) :: u16)) OR push_bit 48 (ucast (ucast (drop_bit 48 m) :: u16)) :: u64) = m" for m :: u64
  proof (rule bit_word_eqI)
    fix n assume "n < LENGTH(64)"
    then consider "n < 16" | "16 \<le> n" "n < 32" | "32 \<le> n" "n < 48" | "48 \<le> n" "n < 64"
      by fastforce
    then show "bit (ucast (ucast m :: u16) OR push_bit 16 (ucast (ucast (drop_bit 16 m) :: u16)) OR
      push_bit 32 (ucast (ucast (drop_bit 32 m) :: u16)) OR push_bit 48 (ucast (ucast (drop_bit 48 m) :: u16)) :: u64) n = bit m n"
      by cases (simp_all add: bit_simps less_diff_conv2)
  qed
  show ?thesis
    using True by (simp add: get_reg_def put_reg_def get_put_half quarters)
qed

lemma ST_put_ST [simp]: "ST i (put_ST i t s) = t"
  by (simp add: ST_def get_put_reg)

definition stack_top :: "u32 \<Rightarrow> u32" where
  "stack_top w = take_bit 3 (drop_bit 11 w)"

lemma unat_top: "unat (stack_top w) = unat (drop_bit 11 w) mod 8"
proof -
  have "unat (stack_top w) = take_bit 3 (unat (drop_bit 11 w))"
    unfolding stack_top_def by (rule unsigned_take_bit_eq)
  then show ?thesis
    by (simp add: take_bit_eq_mod)
qed

lemma st_nr_top: "st_nr i w = (i + unat (stack_top w)) mod 8"
  by (simp add: st_nr_def unat_top mod_add_right_eq)

lemma top_masks: "(0x3800 :: u32) = push_bit 11 (mask 3)" "(0xffffc7ff :: u32) = NOT (push_bit 11 (mask 3))"
  "(0x8000 :: u32) = push_bit 15 1" "(0x7fff :: u32) = mask 15"
  by (simp_all add: mask_eq_exp_minus_1)

lemma top_busy [simp]: "stack_top (w OR 0x8000) = stack_top w" "stack_top (w AND 0x7fff) = stack_top w"
  unfolding stack_top_def top_masks(3,4) by (auto intro!: bit_word_eqI simp: bit_simps)







section \<open>A load and a store\<close>

definition no_cow :: "kernel \<Rightarrow> bool" where
  "no_cow k \<longleftrightarrow> (\<forall>a. 3 AND mem k a \<noteq> 1)"










text \<open>The state after the common beginning of the two instructions.\<close>

lemma I387_regs: "I387 (s\<lparr>regs := r\<rparr>) = I387 s"
  by (simp add: I387_def)

definition fetched :: "emu_state \<Rightarrow> emu_state" where
  "fetched s = snd (emu_fetch (emu_begin s))"

lemma fetched_simps [simp]:
  "mem (kern (fetched s)) = mem (kern s)" "fs_mem (kern (fetched s)) = fs_mem (kern s)"
  "u_eip (regs (fetched s)) = u_eip (regs s) + 2" "u_cs (regs (fetched s)) = u_cs (regs s)"
  "cwd (I387 (fetched s)) = cwd (I387 s)" "st_space (I387 (fetched s)) = st_space (I387 s)"
  by (simp_all add: fetched_def emu_fetch_def emu_begin_def Let_def I387_regs)

lemma fetched_st_nr [simp]: "st_nr i (swd (I387 (fetched s))) = st_nr i (swd (I387 s))"
  by (simp add: fetched_def emu_fetch_def emu_begin_def Let_def st_nr_top I387_regs)

lemma do_emu_fetched:
  assumes "u_cs (regs s) AND 0xffff = 0xF" "get_fs_word (u_eip (regs s)) (kern s) = w"
  shows "do_emu tmp s = (let code = (push_bit 8 w OR drop_bit 8 w) AND 0x7ff; u = fetched s in
      (case emu_direct code u of Some r \<Rightarrow> r
      | None \<Rightarrow> (case emu_stack tmp code u of Some r \<Rightarrow> r
      | None \<Rightarrow> (case emu_memory code u of Some r \<Rightarrow> r
      | None \<Rightarrow> emu_bind (emu_operand tmp code u) (emu_arith code)))))"
proof -
  have code: "emu_fetch (emu_begin s) = ((push_bit 8 w OR drop_bit 8 w) AND 0x7ff, fetched s)"
    using assms(2) by (simp add: fetched_def emu_fetch_def emu_begin_def Let_def get_fs_word_def)
  have "u_cs (regs (emu_begin s)) = u_cs (regs s)"
    by (simp add: emu_begin_def Let_def)
  then show ?thesis
    using assms(1) by (simp only: do_emu_def Let_def code prod.case) simp
qed




definition user_example :: "(u32 \<Rightarrow> u8) \<Rightarrow> emu_state" where
  "user_example m =
     \<lparr>regs = \<lparr>u_orig_eip = 0, u_ret_from_system_call = 0, u_ebx = 0, u_ecx = 0, u_edx = 0, u_esi = 0, u_edi = 0,
        u_ebp = 0, u_eax = 0, u_ds = 0x17, u_es = 0x17, u_fs = 0x17, u_gs = 0x17, u_orig_eax = 0, u_eip = 0x40,
        u_cs = 0xF, u_eflags = 0, u_esp = 0, u_ss = 0x17\<rparr>,
      kern = kernel_example\<lparr>fs_mem := m\<rparr>\<rparr>"

lemma user_example_simps [simp]:
  "u_eip (regs (user_example m)) = 0x40" "u_cs (regs (user_example m)) = 0xF" "fs_mem (kern (user_example m)) = m"
  "no_cow (kern (user_example m))" "rc_of (user_example m) = ROUND_NEAREST"
  by (simp_all add: user_example_def no_cow_def kernel_example_def mm.defs mm_example_def rc_of_def I387_def cur_def
      task_example_def ROUNDING_def ROUND_NEAREST_def)


definition undefined_code_example :: "u32 \<Rightarrow> u8" where
  "undefined_code_example = (\<lambda>a. 0)(0x40 := 0xD9, 0x41 := 0xD1)"


theorem abort_restarts_witness:
  "\<exists>s'. do_emu CONSTZ (user_example undefined_code_example) = Aborted s' \<and> u_eip (regs s') = 0x40"
proof -
  have "get_fs_word 0x40 (kern (user_example undefined_code_example)) = 0xD1D9"
    by (simp add: get_fs_word_def undefined_code_example_def)
  then obtain s' where "do_emu CONSTZ (user_example undefined_code_example) = Aborted s'"
    by (simp add: do_emu_fetched emu_direct_def math_abort_def Let_def)
  then show ?thesis
    using abort_restarts [of CONSTZ "user_example undefined_code_example" s'] by simp
qed

text \<open>
  A comparison with a register (\<open>fcom\<close>, codes 0xD8D0 to 0xD8D7) overwrites the top of the stack
  with whatever \<open>tmp\<close> held, and a division by a register that is 0 does the same.
\<close>

lemma fcom_overwrites_top: "emu_stack tmp 0x0D1 s = Some (Done () t) \<Longrightarrow> ST 0 t = tmp"
  by (auto simp: emu_stack_def)

lemma fdiv_zero_stores_tmp:
  "mant (ST 1 s) = 0 \<Longrightarrow> emu_stack tmp 0x0F1 s = Some (Done () t) \<Longrightarrow> ST 0 t = tmp"
  by (auto simp: emu_stack_def emu_div_def fdiv_def store_result_def)

text \<open>A short integer operand is never fetched: the arithmetic works on what \<open>tmp\<close> held.\<close>

lemma short_int_not_fetched: "emu_operand tmp 0x600 s = Done tmp s"
  by (simp add: emu_operand_def)

end
