(* ===== verification/Pipe.thy ===== *)
theory Pipe
  imports Userspace
begin

text \<open>
  fs/pipe.c: pipes. A pipe is an inode whose page, at \<open>i_size\<close>, is a ring of 4096 bytes with
  its head and tail in \<open>i_data[0]\<close> and \<open>i_data[1]\<close>. A reader or writer that has to wait goes to
  sleep on one of the two wait queues of the inode; the model returns there with what it needs
  to go on, and the caller runs it again when it is woken.
\<close>

section \<open>Bytes of kernel memory\<close>

text \<open>Memory is kept by words; byte \<open>a\<close> is one of the four of the word it lies in, lowest first.\<close>

definition word_addr :: "u32 \<Rightarrow> u32" where "word_addr a = push_bit 2 (drop_bit 2 a)"
definition byte_shift :: "u32 \<Rightarrow> nat" where "byte_shift a = 8 * unat (take_bit 2 a)"

definition kbyte :: "u32 \<Rightarrow> 'a mm_scheme \<Rightarrow> u8" where
  "kbyte a s = ucast (drop_bit (byte_shift a) (mem s (word_addr a)))"

definition put_kbyte :: "u8 \<Rightarrow> u32 \<Rightarrow> 'a mm_scheme \<Rightarrow> 'a mm_scheme" where
  "put_kbyte v a s =
     write_word (word_addr a)
       ((mem s (word_addr a) AND NOT (push_bit (byte_shift a) 0xff)) OR push_bit (byte_shift a) (ucast v)) s"

section \<open>The ring\<close>

definition PAGE_SIZE :: int where "PAGE_SIZE = 4096"
definition O_NONBLOCK :: u16 where "O_NONBLOCK = 0x800"
definition FIONREAD :: int where "FIONREAD = 0x541B"
definition SIGPIPE :: nat where "SIGPIPE = 13"

definition PIPE_READ_WAIT :: "ptr \<Rightarrow> ptr" where "PIPE_READ_WAIT p = p + 104"
definition PIPE_WRITE_WAIT :: "ptr \<Rightarrow> ptr" where "PIPE_WRITE_WAIT p = p + 108"

definition PIPE_HEAD :: "inode \<Rightarrow> u32" where "PIPE_HEAD i = i_data i 0"
definition PIPE_TAIL :: "inode \<Rightarrow> u32" where "PIPE_TAIL i = i_data i 1"
definition PIPE_SIZE :: "inode \<Rightarrow> u32" where "PIPE_SIZE i = (PIPE_HEAD i - PIPE_TAIL i) AND 0xfff"

definition upd_inode :: "ptr \<Rightarrow> (inode \<Rightarrow> inode) \<Rightarrow> 'a kernel_scheme \<Rightarrow> 'a kernel_scheme" where
  "upd_inode p f s = s\<lparr>inodes := (inodes s)(p := f (inodes s p))\<rparr>"

definition page_addr :: "ptr \<Rightarrow> 'a kernel_scheme \<Rightarrow> u32" where
  "page_addr p s = of_int (i_size (inodes s p))"

text \<open>The two inner loops: \<open>n\<close> bytes between the page, from \<open>off\<close> on, and the user's buffer.\<close>

fun copy_to_user :: "nat \<Rightarrow> u32 \<Rightarrow> u32 \<Rightarrow> 'a kernel_scheme \<Rightarrow> 'a kernel_scheme" where
  "copy_to_user 0 a buf s = s"
| "copy_to_user (Suc n) a buf s = copy_to_user n (a + 1) (buf + 1) (put_fs_byte (kbyte a s) buf s)"

fun copy_from_user :: "nat \<Rightarrow> u32 \<Rightarrow> u32 \<Rightarrow> 'a kernel_scheme \<Rightarrow> 'a kernel_scheme" where
  "copy_from_user 0 a buf s = s"
| "copy_from_user (Suc n) a buf s = copy_from_user n (a + 1) (buf + 1) (put_kbyte (get_fs_byte buf s) a s)"

section \<open>Reading\<close>

text \<open>
  One pass of the loop that waits for bytes: go on, return a value, or sleep on the queue of the
  readers (after which the pass is run again).
\<close>

datatype wait = Go | Back int | Wait

definition pending :: "'a kernel_scheme \<Rightarrow> bool" where
  "pending s \<longleftrightarrow> t_signal (cur s) AND NOT (t_blocked (cur s)) \<noteq> 0"

definition pipe_read_wait :: "ptr \<Rightarrow> u16 \<Rightarrow> 'a kernel_scheme \<Rightarrow> wait \<times> 'a kernel_scheme" where
  "pipe_read_wait p flags s =
     (if flags AND O_NONBLOCK \<noteq> 0 \<or> PIPE_SIZE (inodes s p) \<noteq> 0 then (Go, s)
      else let s = wake_up (PIPE_WRITE_WAIT p) s
           in if i_count (inodes s p) \<noteq> 2 then (Back 0, s)
              else if pending s then (Back (- ERESTARTSYS), s)
              else (Wait, s))"

text \<open>The copy loop, a pass for each contiguous piece of the ring.\<close>

partial_function (option) pipe_read_loop ::
    "ptr \<Rightarrow> u32 \<Rightarrow> int \<Rightarrow> int \<Rightarrow> 'a kernel_scheme \<Rightarrow> (int \<times> 'a kernel_scheme) option" where
  "pipe_read_loop p buf count read s =
     (let size = uint (PIPE_SIZE (inodes s p))
      in if count > 0 \<and> size \<noteq> 0 then
           let chars = PAGE_SIZE - uint (PIPE_TAIL (inodes s p));
               chars = (if chars > count then count else chars);
               chars = (if chars > size then size else chars);
               tail = PIPE_TAIL (inodes s p);
               s = upd_inode p (\<lambda>i. i\<lparr>i_data := (i_data i)(1 := (tail + of_int chars) AND 0xfff)\<rparr>) s;
               s = copy_to_user (nat chars) (page_addr p s + tail) buf s
           in pipe_read_loop p (buf + of_int chars) (count - chars) (read + chars) s
         else Some (read, s))"

definition pipe_read_copy :: "ptr \<Rightarrow> u32 \<Rightarrow> int \<Rightarrow> 'a kernel_scheme \<Rightarrow> (int \<times> 'a kernel_scheme) option" where
  "pipe_read_copy p buf count s =
     map_option (\<lambda>(read, s). (read, wake_up (PIPE_WRITE_WAIT p) s)) (pipe_read_loop p buf count 0 s)"

text \<open>
  What a call comes to: it returns a value, or it has gone to sleep: then \<open>sleep_resume\<close> with the
  task that slept before it follows, and the call is run again with the buffer, the count that is
  left and the number of bytes written.
\<close>

datatype pipe_result = Finished int | Sleeping ptr u32 int int

definition pipe_read ::
    "ptr \<Rightarrow> ptr \<Rightarrow> u16 \<Rightarrow> u32 \<Rightarrow> int \<Rightarrow> 'a kernel_scheme \<Rightarrow> (pipe_result, 'a kernel_scheme) outcome option" where
  "pipe_read init_task p flags buf count s =
     (case pipe_read_wait p flags s of
        (Go, s) \<Rightarrow> map_option (\<lambda>(r, s). Ret (Finished r) s) (pipe_read_copy p buf count s)
      | (Back r, s) \<Rightarrow> Some (Ret (Finished r) s)
      | (Wait, s) \<Rightarrow> Some (and_then (interruptible_sleep_on init_task (PIPE_READ_WAIT p) s)
          (\<lambda>tmp s. Ret (Sleeping tmp buf count 0) s)))"

section \<open>Writing\<close>

definition pipe_write_wait :: "ptr \<Rightarrow> int \<Rightarrow> 'a kernel_scheme \<Rightarrow> wait \<times> 'a kernel_scheme" where
  "pipe_write_wait p written s =
     (if (PAGE_SIZE - 1) - uint (PIPE_SIZE (inodes s p)) \<noteq> 0 then (Go, s)
      else let s = wake_up (PIPE_READ_WAIT p) s; r = (if written \<noteq> 0 then written else - EINTR)
           in if i_count (inodes s p) \<noteq> 2 then
                (Back r, upd_cur (\<lambda>t. t\<lparr>t_signal := t_signal t OR sigbit SIGPIPE\<rparr>) s)
              else if pending s then (Back r, s)
              else (Wait, s))"

partial_function (option) pipe_write_loop ::
    "ptr \<Rightarrow> ptr \<Rightarrow> u32 \<Rightarrow> int \<Rightarrow> int \<Rightarrow> 'a kernel_scheme \<Rightarrow> (pipe_result, 'a kernel_scheme) outcome option" where
  "pipe_write_loop init_task p buf count written s =
     (if count > 0 then
        (case pipe_write_wait p written s of
           (Go, s) \<Rightarrow>
             let size = (PAGE_SIZE - 1) - uint (PIPE_SIZE (inodes s p));
                 chars = PAGE_SIZE - uint (PIPE_HEAD (inodes s p));
                 chars = (if chars > count then count else chars);
                 chars = (if chars > size then size else chars);
                 head = PIPE_HEAD (inodes s p);
                 s = upd_inode p (\<lambda>i. i\<lparr>i_data := (i_data i)(0 := (head + of_int chars) AND 0xfff)\<rparr>) s;
                 s = copy_from_user (nat chars) (page_addr p s + head) buf s
             in pipe_write_loop init_task p (buf + of_int chars) (count - chars) (written + chars) s
         | (Back r, s) \<Rightarrow> Some (Ret (Finished r) s)
         | (Wait, s) \<Rightarrow> Some (and_then (interruptible_sleep_on init_task (PIPE_WRITE_WAIT p) s)
             (\<lambda>tmp s. Ret (Sleeping tmp buf count written) s)))
      else Some (Ret (Finished written) (wake_up (PIPE_READ_WAIT p) s)))"

definition pipe_write ::
    "ptr \<Rightarrow> ptr \<Rightarrow> u32 \<Rightarrow> int \<Rightarrow> 'a kernel_scheme \<Rightarrow> (pipe_result, 'a kernel_scheme) outcome option" where
  "pipe_write init_task p buf count s = pipe_write_loop init_task p buf count 0 s"

definition pipe_ioctl :: "ptr \<Rightarrow> int \<Rightarrow> u32 \<Rightarrow> 'a kernel_scheme \<Rightarrow> (int, 'a kernel_scheme) outcome" where
  "pipe_ioctl p cmd arg s =
     (if cmd = FIONREAD then
        and_then (verify_area arg 4 s) (\<lambda>_ s. Ret 0 (put_fs_long (PIPE_SIZE (inodes s p)) arg s))
      else Ret (- EINVAL) s)"

section \<open>The bytes of memory as a function\<close>

lemma word_addr_shift_inj: "word_addr a = word_addr b \<Longrightarrow> byte_shift a = byte_shift b \<Longrightarrow> a = b"
proof -
  assume "word_addr a = word_addr b" "byte_shift a = byte_shift b"
  then have "push_bit 2 (drop_bit 2 a) = push_bit 2 (drop_bit 2 b)" "take_bit 2 a = take_bit 2 b"
    by (auto simp: word_addr_def byte_shift_def intro: unsigned_word_eqI)
  then have "push_bit 2 (drop_bit 2 a) + take_bit 2 a = push_bit 2 (drop_bit 2 b) + take_bit 2 b"
    by (simp only:)
  then show "a = b"
    by (simp only: bits_ident)
qed

lemma byte_shift_cases: "byte_shift a \<in> {0, 8, 16, 24}"
proof -
  have "unat (take_bit 2 a) = take_bit 2 (unat a)"
    by (rule unsigned_take_bit_eq)
  then have "unat (take_bit 2 a) < 4"
    using take_bit_nat_less_exp [of 2 "unat a"] by simp
  then show ?thesis
    by (auto simp: byte_shift_def)
qed

lemma byte_in_word:
  fixes w :: u32
  assumes "m \<in> {0, 8, 16, 24}" "n \<in> {0, 8, 16, 24}"
  shows "ucast (drop_bit m ((w AND NOT (push_bit n 0xff)) OR push_bit n (ucast v))) =
    (if m = n then v else ucast (drop_bit m w) :: u8)"
proof -
  have ff: "(0xff :: u32) = mask 8"
    by (simp add: mask_eq_exp_minus_1)
  have out: "\<not> bit v k" if "8 \<le> k" for k
    using that bit_imp_le_length [of v k] by auto
  show ?thesis
    unfolding ff using assms by (auto intro!: bit_word_eqI simp: bit_simps out)
qed

lemma kbyte_put_kbyte: "kbyte b (put_kbyte v a s) = (if b = a then v else kbyte b s)"
proof (cases "word_addr b = word_addr a")
  case True
  have m: "mem (put_kbyte v a s) (word_addr a) =
      (mem s (word_addr a) AND NOT (push_bit (byte_shift a) 0xff)) OR push_bit (byte_shift a) (ucast v)"
    by (simp add: put_kbyte_def write_word_def)
  have "kbyte b (put_kbyte v a s) = (if byte_shift b = byte_shift a then v else kbyte b s)"
    unfolding kbyte_def True m byte_in_word [OF byte_shift_cases byte_shift_cases] ..
  then show ?thesis
    using word_addr_shift_inj [OF True] by auto
qed (auto simp: kbyte_def put_kbyte_def write_word_def)

lemma more_put_kbyte [simp]: "mm.more (put_kbyte v a s) = mm.more s"
  by (simp add: put_kbyte_def write_word_def)

lemma kbyte_user [simp]: "kbyte a (s\<lparr>fs_mem := m\<rparr>) = kbyte a s" "kbyte a (s\<lparr>inodes := is\<rparr>) = kbyte a s"
  by (simp_all add: kbyte_def)

text \<open>Distance in memory: byte \<open>b\<close> is the \<open>(b - a)\<close>-th from \<open>a\<close> on.\<close>

lemma dist_step:
  fixes a b :: u32
  assumes "Suc n \<le> 2 ^ 32"
  shows "unat (b - (a + 1)) < n \<longleftrightarrow> b \<noteq> a \<and> unat (b - a) < Suc n"
proof (cases "b = a")
  case True
  have "unat (- 1 :: u32) = 2 ^ 32 - 1"
    by (simp add: unsigned_minus_1_eq_mask mask_eq_exp_minus_1)
  with True assms show ?thesis
    by simp
next
  case False
  then have "unat (b - a - 1) = unat (b - a) - 1" "unat (b - a) \<noteq> 0"
    by (simp_all add: unat_minus_one unat_eq_0)
  with False show ?thesis
    by (auto simp: diff_diff_eq)
qed

lemma dist_next: "a + 1 + (b - (c + 1)) = a + (b - c)" for a b c :: u32
  by simp

lemma copy_to_user_eq:
  "n \<le> 2 ^ 32 \<Longrightarrow> copy_to_user n a buf s =
     s\<lparr>fs_mem := \<lambda>b. if unat (b - buf) < n then kbyte (a + (b - buf)) s else fs_mem s b\<rparr>"
proof (induction n arbitrary: a buf s)
  case (Suc n)
  define t where "t = s\<lparr>fs_mem := (fs_mem s)(buf := kbyte a s)\<rparr>"
  have "copy_to_user (Suc n) a buf s = copy_to_user n (a + 1) (buf + 1) t"
    by (simp add: put_fs_byte_def t_def)
  also have "\<dots> = t\<lparr>fs_mem := \<lambda>b. if b \<noteq> buf \<and> unat (b - buf) < Suc n then kbyte (a + (b - buf)) t else fs_mem t b\<rparr>"
    using Suc.IH [of "a + 1" "buf + 1" t] Suc.prems by (simp only: dist_step dist_next Suc_leD)
  also have "\<dots> = s\<lparr>fs_mem := \<lambda>b. if unat (b - buf) < Suc n then kbyte (a + (b - buf)) s else fs_mem s b\<rparr>"
    by (simp add: t_def fun_eq_iff)
  finally show ?case .
qed simp

lemma copy_from_user_bytes:
  assumes "n \<le> 2 ^ 32"
  shows "mm.more (copy_from_user n a buf s) = mm.more s \<and>
    kbyte b (copy_from_user n a buf s) = (if unat (b - a) < n then fs_mem s (buf + (b - a)) else kbyte b s)"
  using assms
proof (induction n arbitrary: a buf s)
  case (Suc n)
  define t where "t = put_kbyte (fs_mem s buf) a s"
  have t: "mm.more t = mm.more s" "fs_mem t = fs_mem s" "kbyte b t = (if b = a then fs_mem s buf else kbyte b s)"
    by (simp_all only: t_def kbyte_put_kbyte more_put_kbyte) (simp add: put_kbyte_def write_word_def)
  have "copy_from_user (Suc n) a buf s = copy_from_user n (a + 1) (buf + 1) t"
    by (simp add: get_fs_byte_def t_def)
  moreover have "mm.more (copy_from_user n (a + 1) (buf + 1) t) = mm.more t \<and>
      kbyte b (copy_from_user n (a + 1) (buf + 1) t) =
        (if b \<noteq> a \<and> unat (b - a) < Suc n then fs_mem t (buf + (b - a)) else kbyte b t)"
    using Suc.IH [of "a + 1" "buf + 1" t] Suc.prems by (simp only: dist_step dist_next Suc_leD)
  ultimately show ?case
    using t(3) by (cases "b = a") (simp_all add: t(1,2))
qed simp

section \<open>The ring of bytes\<close>

definition pipe_ok :: "ptr \<Rightarrow> 'a kernel_scheme \<Rightarrow> bool" where
  "pipe_ok p s \<longleftrightarrow> unat (PIPE_HEAD (inodes s p)) < 4096 \<and> unat (PIPE_TAIL (inodes s p)) < 4096"

definition pipe_len :: "ptr \<Rightarrow> 'a kernel_scheme \<Rightarrow> nat" where
  "pipe_len p s = unat (PIPE_SIZE (inodes s p))"

definition ring_at :: "ptr \<Rightarrow> 'a kernel_scheme \<Rightarrow> nat \<Rightarrow> u8" where
  "ring_at p s j = kbyte (page_addr p s + of_nat (j mod 4096)) s"

definition pipe_bytes :: "ptr \<Rightarrow> 'a kernel_scheme \<Rightarrow> u8 list" where
  "pipe_bytes p s = map (\<lambda>k. ring_at p s (unat (PIPE_TAIL (inodes s p)) + k)) [0..<pipe_len p s]"

definition user_bytes :: "u32 \<Rightarrow> nat \<Rightarrow> 'a kernel_scheme \<Rightarrow> u8 list" where
  "user_bytes buf n s = map (\<lambda>k. fs_mem s (buf + of_nat k)) [0..<n]"

lemma length_pipe_bytes [simp]: "length (pipe_bytes p s) = pipe_len p s"
  by (simp add: pipe_bytes_def)

lemma unat_and_fff: "unat (x AND 0xfff) = unat x mod 4096" for x :: u32
proof -
  have "x AND 0xfff = take_bit 12 x"
    by (simp add: take_bit_eq_mask mask_eq_exp_minus_1)
  moreover have "unat (take_bit 12 x) = take_bit 12 (unat x)"
    by (rule unsigned_take_bit_eq)
  ultimately show ?thesis
    by (simp add: take_bit_eq_mod)
qed

lemma unat_add_of_nat: "unat (x + of_nat n) = (unat x + n) mod 2 ^ 32" for x :: u32
  by (simp add: unat_word_ariths unat_of_nat mod_add_right_eq)

lemma unat_advance: "unat ((x + of_nat n) AND 0xfff) = (unat x + n) mod 4096" for x :: u32
  unfolding unat_and_fff unat_add_of_nat by (simp add: mod_mod_cancel)

lemma pipe_len_eq:
  assumes "pipe_ok p s"
  defines "h \<equiv> unat (PIPE_HEAD (inodes s p))" and "t \<equiv> unat (PIPE_TAIL (inodes s p))"
  shows "pipe_len p s = (if t \<le> h then h - t else h + 4096 - t)"
proof -
  have eq: "PIPE_HEAD (inodes s p) - PIPE_TAIL (inodes s p) = of_nat h - of_nat t"
    by (simp add: h_def t_def)
  have lt: "h < 4096" "t < 4096"
    using assms by (simp_all add: pipe_ok_def)
  show ?thesis
  proof (cases "t \<le> h")
    case True
    then have "(of_nat h - of_nat t :: u32) = of_nat (h - t)"
      by simp
    then show ?thesis
      unfolding pipe_len_def PIPE_SIZE_def unat_and_fff eq using True lt by (simp only: unat_of_nat) simp
  next
    case False
    have "(of_nat h - of_nat t :: u32) = of_nat (h + (2 ^ 32 - t))"
      using lt by (simp add: of_nat_diff)
    moreover have "(h + (2 ^ 32 - t)) mod 4096 = h + 4096 - t"
    proof -
      have "h + (2 ^ 32 - t) = (h + 4096 - t) + 4096 * 1048575"
        using False lt by simp
      then show ?thesis
        using False lt by (simp only: mod_mult_self2) simp
    qed
    ultimately show ?thesis
      unfolding pipe_len_def PIPE_SIZE_def unat_and_fff eq using False lt by (simp only: unat_of_nat) simp
  qed
qed

lemma pipe_len_bound: "pipe_ok p s \<Longrightarrow> pipe_len p s \<le> 4095"
  using pipe_len_eq [of p s] by (auto simp: pipe_ok_def split: if_splits)

text \<open>Reading and writing one contiguous piece.\<close>

definition read_piece :: "ptr \<Rightarrow> u32 \<Rightarrow> nat \<Rightarrow> 'a kernel_scheme \<Rightarrow> 'a kernel_scheme" where
  "read_piece p buf n s =
     copy_to_user n (page_addr p s + PIPE_TAIL (inodes s p)) buf
       (upd_inode p (\<lambda>i. i\<lparr>i_data := (i_data i)(1 := (PIPE_TAIL (inodes s p) + of_nat n) AND 0xfff)\<rparr>) s)"

lemma read_piece_ok:
  fixes buf :: u32
  assumes ok: "pipe_ok p s" and n: "n \<le> pipe_len p s" "unat (PIPE_TAIL (inodes s p)) + n \<le> 4096"
  defines "u \<equiv> read_piece p buf n s"
  shows "pipe_ok p u" "pipe_bytes p u = drop n (pipe_bytes p s)" "user_bytes buf n u = take n (pipe_bytes p s)"
    "unat (b - buf) \<ge> n \<Longrightarrow> fs_mem u b = fs_mem s b"
proof -
  let ?t = "unat (PIPE_TAIL (inodes s p))"
  have len: "n \<le> 4095"
    using n(1) pipe_len_bound [OF ok] by simp
  then have le32: "n \<le> 2 ^ 32"
    by simp
  define v where "v = upd_inode p (\<lambda>i. i\<lparr>i_data := (i_data i)(1 := (PIPE_TAIL (inodes s p) + of_nat n) AND 0xfff)\<rparr>) s"
  have v: "page_addr p v = page_addr p s" "unat (PIPE_TAIL (inodes v p)) = (?t + n) mod 4096"
    "PIPE_HEAD (inodes v p) = PIPE_HEAD (inodes s p)" "fs_mem v = fs_mem s" "kbyte a v = kbyte a s" for a
    by (simp_all add: v_def upd_inode_def page_addr_def PIPE_TAIL_def PIPE_HEAD_def unat_advance)
  have u: "u = v\<lparr>fs_mem := \<lambda>b. if unat (b - buf) < n then kbyte (page_addr p s + PIPE_TAIL (inodes s p) + (b - buf)) s
      else fs_mem s b\<rparr>"
    unfolding u_def read_piece_def v_def [symmetric] copy_to_user_eq [OF le32] v ..
  then have w: "inodes u = inodes v" "ring_at p u j = ring_at p s j" for j
    using v by (simp_all add: ring_at_def page_addr_def)
  show ok': "pipe_ok p u"
    using ok v(2,3) by (simp add: pipe_ok_def w)
  have len': "pipe_len p u = pipe_len p s - n"
    unfolding pipe_len_eq [OF ok] pipe_len_eq [OF ok'] w v(2,3)
    using n ok pipe_len_eq [OF ok] by (auto simp: pipe_ok_def mod_if split: if_splits)
  show "pipe_bytes p u = drop n (pipe_bytes p s)"
  proof (rule nth_equalityI)
    fix k assume "k < length (pipe_bytes p u)"
    then show "pipe_bytes p u ! k = drop n (pipe_bytes p s) ! k"
      using len' by (simp add: pipe_bytes_def w v(2)) (simp add: ring_at_def mod_simps add.assoc)
  qed (simp add: len')
  show "user_bytes buf n u = take n (pipe_bytes p s)"
  proof (rule nth_equalityI)
    fix k assume "k < length (user_bytes buf n u)"
    then have k: "k < n"
      by (simp add: user_bytes_def)
    then have "unat (of_nat k :: u32) = k"
      using len by (simp add: unat_of_nat)
    then show "user_bytes buf n u ! k = take n (pipe_bytes p s) ! k"
      using k n by (simp add: user_bytes_def u pipe_bytes_def ring_at_def add.assoc)
  qed (use n in \<open>simp add: user_bytes_def\<close>)
  show "unat (b - buf) \<ge> n \<Longrightarrow> fs_mem u b = fs_mem s b"
    by (simp add: u)
qed

lemma behind:
  fixes buf :: u32
  assumes "j < m" "m \<le> 4096" "k \<le> 4096"
  shows "k \<le> unat (buf + of_nat j - (buf + of_nat m))"
proof -
  have eq: "buf + of_nat j - (buf + of_nat m) = of_nat (2 ^ 32 - (m - j))"
    using assms by (simp add: of_nat_diff)
  have val: "unat (of_nat (2 ^ 32 - (m - j)) :: u32) = 2 ^ 32 - (m - j)"
    using assms by (simp only: unat_of_nat) simp
  show ?thesis
    unfolding eq val using assms by simp
qed

lemma beyond:
  fixes buf :: u32
  assumes "m + k \<le> unat (b - buf)" "m + k \<le> 2 ^ 32"
  shows "m \<le> unat (b - buf)" "k \<le> unat (b - (buf + of_nat m))"
proof -
  show m: "m \<le> unat (b - buf)"
    using assms by simp
  have "of_nat m \<le> b - buf"
    using m unat32_bound [of "b - buf"] by (simp add: word_le_nat_alt unat_of_nat)
  then have "unat (b - buf - of_nat m) = unat (b - buf) - unat (of_nat m :: u32)"
    by (rule unat_sub)
  also have "unat (of_nat m :: u32) = m"
    using m unat32_bound [of "b - buf"] by (simp add: unat_of_nat)
  finally show "k \<le> unat (b - (buf + of_nat m))"
    using assms by (simp add: diff_diff_eq)
qed

lemma user_bytes_split:
  "user_bytes buf (m + k) s = user_bytes buf m s @ user_bytes (buf + of_nat m) k s"
proof (rule nth_equalityI)
  fix i assume "i < length (user_bytes buf (m + k) s)"
  then show "user_bytes buf (m + k) s ! i = (user_bytes buf m s @ user_bytes (buf + of_nat m) k s) ! i"
    by (cases "i < m") (simp_all add: user_bytes_def nth_append of_nat_diff less_diff_conv2)
qed (simp add: user_bytes_def)

lemma piece_len:
  assumes "0 < count" "t < 4096"
  shows "(let c = 4096 - int t; c = (if c > count then count else c) in if c > int z then int z else c) =
    int (min (min (4096 - t) (nat count)) z)"
  using assms by (simp add: Let_def min_def) arith

lemma pipe_read_loop_step:
  assumes "count > 0" "pipe_len p s \<noteq> 0" "pipe_ok p s"
    and m: "m = min (min (4096 - unat (PIPE_TAIL (inodes s p))) (nat count)) (pipe_len p s)"
  shows "pipe_read_loop p buf count read s =
    pipe_read_loop p (buf + of_nat m) (count - int m) (read + int m) (read_piece p buf m s)"
proof -
  let ?z = "uint (PIPE_SIZE (inodes s p))" and ?t = "uint (PIPE_TAIL (inodes s p))"
  define c where "c = (let c = PAGE_SIZE - ?t; c = (if c > count then count else c) in if c > ?z then ?z else c)"
  have zt: "?z = int (pipe_len p s)" "?t = int (unat (PIPE_TAIL (inodes s p)))"
    by (simp_all add: pipe_len_def)
  have c: "c = int m"
    unfolding c_def PAGE_SIZE_def zt m using assms(1,3) by (intro piece_len) (simp_all add: pipe_ok_def)
  have z: "?z \<noteq> 0"
    unfolding zt using assms(2) by simp
  show ?thesis
    using assms(1) z unfolding read_piece_def
    by (subst pipe_read_loop.simps) (simp add: Let_def c_def [unfolded Let_def, symmetric] c page_addr_def upd_inode_def)
qed

lemma pipe_read_loop_ok:
  assumes "pipe_ok p s" "0 \<le> count"
  defines "n \<equiv> min (nat count) (pipe_len p s)"
  shows "\<exists>u. pipe_read_loop p buf count read s = Some (read + int n, u) \<and> pipe_ok p u \<and>
    pipe_bytes p u = drop n (pipe_bytes p s) \<and> user_bytes buf n u = take n (pipe_bytes p s) \<and>
    (\<forall>b. n \<le> unat (b - buf) \<longrightarrow> fs_mem u b = fs_mem s b)"
  using assms(1,2) unfolding n_def
proof (induction "pipe_len p s" arbitrary: buf count read s rule: less_induct)
  case less
  show ?case
  proof (cases "count > 0 \<and> pipe_len p s \<noteq> 0")
    case False
    then show ?thesis
      using less.prems by (subst pipe_read_loop.simps) (auto simp: pipe_len_def user_bytes_def unat_eq_0)
  next
    case True
    define m where "m = min (min (4096 - unat (PIPE_TAIL (inodes s p))) (nat count)) (pipe_len p s)"
    have m: "0 < m" "m \<le> pipe_len p s" "unat (PIPE_TAIL (inodes s p)) + m \<le> 4096" "m \<le> nat count"
      using True less.prems(1) by (auto simp: m_def pipe_ok_def)
    define v where "v = read_piece p buf m s"
    note v = read_piece_ok [OF less.prems(1) m(2,3), where buf = buf, folded v_def]
    have len: "pipe_len p v = pipe_len p s - m"
      using arg_cong [OF v(2), of length] by simp
    have less_v: "pipe_len p v < pipe_len p s" "0 \<le> count - int m"
      using m len True by auto
    define k where "k = min (nat (count - int m)) (pipe_len p v)"
    have n: "min (nat count) (pipe_len p s) = m + k"
      using m by (auto simp: k_def len)
    have small: "m + k \<le> 4095"
      using pipe_len_bound [OF less.prems(1)] n by simp
    obtain u where u: "pipe_read_loop p (buf + of_nat m) (count - int m) (read + int m) v = Some (read + int m + int k, u)"
      "pipe_ok p u" "pipe_bytes p u = drop k (pipe_bytes p v)" "user_bytes (buf + of_nat m) k u = take k (pipe_bytes p v)"
      "\<forall>b. k \<le> unat (b - (buf + of_nat m)) \<longrightarrow> fs_mem u b = fs_mem v b"
      using less.hyps [OF _ v(1), of "count - int m" "buf + of_nat m" "read + int m"] less_v unfolding k_def by blast
    have "user_bytes buf m u = user_bytes buf m v"
      using u(5) behind [of _ m k buf] small by (simp add: user_bytes_def)
    then have "user_bytes buf (m + k) u = take m (pipe_bytes p s) @ take k (drop m (pipe_bytes p s))"
      unfolding user_bytes_split u(4) v(2) v(3) by simp
    then have "user_bytes buf (m + k) u = take (m + k) (pipe_bytes p s)"
      by (simp add: take_add)
    moreover have "fs_mem u b = fs_mem s b" if "m + k \<le> unat (b - buf)" for b
      using u(5) v(4) [of b] beyond [OF that] small by simp
    moreover have "pipe_read_loop p buf count read s = Some (read + int (m + k), u)"
      using True less.prems(1) u(1) by (simp add: pipe_read_loop_step [OF _ _ _ m_def] v_def [symmetric])
    ultimately show ?thesis
      unfolding n using u(2,3) v(2) by (auto simp: add.commute)
  qed
qed

definition write_piece :: "ptr \<Rightarrow> u32 \<Rightarrow> nat \<Rightarrow> 'a kernel_scheme \<Rightarrow> 'a kernel_scheme" where
  "write_piece p buf n s =
     copy_from_user n (page_addr p s + PIPE_HEAD (inodes s p)) buf
       (upd_inode p (\<lambda>i. i\<lparr>i_data := (i_data i)(0 := (PIPE_HEAD (inodes s p) + of_nat n) AND 0xfff)\<rparr>) s)"

text \<open>The kernel's own fields are those of \<open>mm.more\<close>.\<close>

lemma more_fields: "mm.more u = mm.more s \<Longrightarrow>
  inodes u = inodes s \<and> fs_mem u = fs_mem s \<and> tsk u = tsk s \<and> current u = current s \<and> waitq u = waitq s"
  by (cases u; cases s) simp

lemma head_of_len:
  "pipe_ok p s \<Longrightarrow> unat (PIPE_HEAD (inodes s p)) = (unat (PIPE_TAIL (inodes s p)) + pipe_len p s) mod 4096"
  using pipe_len_eq [of p s] by (auto simp: pipe_ok_def mod_if)

lemma window:
  fixes page :: u32
  assumes "j < 4096" "h + n \<le> 4096"
  shows "unat (page + of_nat j - (page + of_nat h)) < n \<longleftrightarrow> h \<le> j \<and> j < h + n"
proof (cases "h \<le> j")
  case True
  then have eq: "page + of_nat j - (page + of_nat h) = of_nat (j - h)"
    by simp
  show ?thesis
    unfolding eq using assms True by (simp only: unat_of_nat) auto
next
  case False
  then show ?thesis
    using behind [of j h n page] assms by auto
qed

lemma ring_add: "(t :: nat) < 4096 \<Longrightarrow> k < 4096 \<Longrightarrow> (t + k) mod 4096 = (if t + k < 4096 then t + k else t + k - 4096)"
  by (simp add: mod_if)

lemma write_piece_ok:
  fixes buf :: u32
  assumes ok: "pipe_ok p s" and n: "pipe_len p s + n \<le> 4095" "unat (PIPE_HEAD (inodes s p)) + n \<le> 4096"
  defines "u \<equiv> write_piece p buf n s"
  shows "pipe_ok p u" "pipe_bytes p u = pipe_bytes p s @ user_bytes buf n s" "fs_mem u = fs_mem s"
    "i_count (inodes u p) = i_count (inodes s p)" "pipe_len p u = pipe_len p s + n"
    "tsk u = tsk s" "current u = current s" "waitq u = waitq s"
proof -
  define h where "h = unat (PIPE_HEAD (inodes s p))"
  let ?h = h and ?t = "unat (PIPE_TAIL (inodes s p))" and ?z = "pipe_len p s"
  define v where "v = upd_inode p (\<lambda>i. i\<lparr>i_data := (i_data i)(0 := (PIPE_HEAD (inodes s p) + of_nat n) AND 0xfff)\<rparr>) s"
  have v: "page_addr p v = page_addr p s" "unat (PIPE_HEAD (inodes v p)) = (?h + n) mod 4096"
    "PIPE_TAIL (inodes v p) = PIPE_TAIL (inodes s p)" "fs_mem v = fs_mem s" "kbyte a v = kbyte a s"
    "i_count (inodes v p) = i_count (inodes s p)" "tsk v = tsk s" "current v = current s" "waitq v = waitq s" for a
    by (simp_all add: v_def h_def upd_inode_def page_addr_def PIPE_TAIL_def PIPE_HEAD_def unat_advance)
  have le32: "n \<le> 2 ^ 32"
    using n by simp
  have u: "u = copy_from_user n (page_addr p s + of_nat ?h) buf v"
    by (simp add: u_def write_piece_def v_def h_def)
  then have w: "inodes u = inodes v" "fs_mem u = fs_mem v" "tsk u = tsk v" "current u = current v" "waitq u = waitq v"
    using copy_from_user_bytes [OF le32] more_fields by metis+
  then show "fs_mem u = fs_mem s" "i_count (inodes u p) = i_count (inodes s p)" "tsk u = tsk s" "current u = current s"
    "waitq u = waitq s"
    using v by simp_all
  show ok': "pipe_ok p u"
    using ok v(2,3) by (simp add: pipe_ok_def w)
  have h: "h + n \<le> 4096" "h = (?t + ?z) mod 4096"
    using n(2) head_of_len [OF ok] by (simp_all add: h_def)
  show len': "pipe_len p u = ?z + n"
    unfolding pipe_len_eq [OF ok'] w v(2,3)
    using n ok pipe_len_eq [OF ok] by (auto simp: pipe_ok_def h_def mod_if split: if_splits)
  have ring: "ring_at p u j = (if ?h \<le> j mod 4096 \<and> j mod 4096 < ?h + n
      then fs_mem s (buf + of_nat (j mod 4096 - ?h)) else ring_at p s j)" for j
  proof -
    have page: "page_addr p u = page_addr p s"
      using v(1) by (simp add: page_addr_def w)
    show ?thesis
      unfolding ring_at_def page unfolding u conjunct2 [OF copy_from_user_bytes [OF le32]] 
      using window [of "j mod 4096" h n "page_addr p s"] h(1) by (simp add: v of_nat_diff)
  qed
  show "pipe_bytes p u = pipe_bytes p s @ user_bytes buf n s"
  proof (rule nth_equalityI)
    fix k assume "k < length (pipe_bytes p u)"
    then have k: "k < ?z + n"
      by (simp add: len')
    have t: "?t < 4096"
      using ok by (simp add: pipe_ok_def)
    note pos = ring_add [OF t, of k] ring_add [OF t, of ?z] h
    show "pipe_bytes p u ! k = (pipe_bytes p s @ user_bytes buf n s) ! k"
    proof (cases "k < ?z")
      case True
      then have "\<not> (?h \<le> (?t + k) mod 4096 \<and> (?t + k) mod 4096 < ?h + n)"
        using pos n by (auto split: if_splits)
      with True k show ?thesis
        by (auto simp: pipe_bytes_def nth_append len' w v(3) ring)
    next
      case False
      then have "?h \<le> (?t + k) mod 4096 \<and> (?t + k) mod 4096 < ?h + n \<and> (?t + k) mod 4096 - ?h = k - ?z"
        using pos n k by (auto split: if_splits)
      with False k show ?thesis
        by (simp add: pipe_bytes_def user_bytes_def nth_append len' w v(3) ring less_diff_conv2)
    qed
  qed (simp add: len' user_bytes_def)
qed

section \<open>The loops\<close>

lemma pipe_write_wait_go:
  "pipe_len p s < 4095 \<Longrightarrow> pipe_write_wait p written s = (Go, s)"
proof -
  assume "pipe_len p s < 4095"
  moreover have "uint (PIPE_SIZE (inodes s p)) = int (pipe_len p s)"
    by (simp add: pipe_len_def)
  ultimately show ?thesis
    by (simp add: pipe_write_wait_def PAGE_SIZE_def)
qed

lemma pipe_write_loop_step:
  assumes "count > 0" "pipe_len p s < 4095" "pipe_ok p s"
    and m: "m = min (min (4096 - unat (PIPE_HEAD (inodes s p))) (nat count)) (4095 - pipe_len p s)"
  shows "pipe_write_loop init_task p buf count written s =
    pipe_write_loop init_task p (buf + of_nat m) (count - int m) (written + int m) (write_piece p buf m s)"
proof -
  let ?z = "(PAGE_SIZE - 1) - uint (PIPE_SIZE (inodes s p))" and ?h = "uint (PIPE_HEAD (inodes s p))"
  define c where "c = (let c = PAGE_SIZE - ?h; c = (if c > count then count else c) in if c > ?z then ?z else c)"
  have zt: "?z = int (4095 - pipe_len p s)" "?h = int (unat (PIPE_HEAD (inodes s p)))"
    using assms(2) by (simp_all add: pipe_len_def PAGE_SIZE_def)
  have c: "c = int m"
    unfolding c_def zt m unfolding PAGE_SIZE_def using assms(1,3) by (intro piece_len) (simp_all add: pipe_ok_def)
  show ?thesis
    using assms(1) pipe_write_wait_go [OF assms(2)] unfolding write_piece_def
    by (subst pipe_write_loop.simps)
      (simp add: Let_def c_def [unfolded Let_def, symmetric] c page_addr_def upd_inode_def)
qed

text \<open>The loop runs, without sleeping, as far as the count and the room in the ring allow.\<close>

lemma pipe_write_loop_runs:
  assumes "pipe_ok p s" "0 \<le> count"
  defines "n \<equiv> min (nat count) (4095 - pipe_len p s)"
  shows "\<exists>u. pipe_write_loop init_task p buf count written s =
      pipe_write_loop init_task p (buf + of_nat n) (count - int n) (written + int n) u \<and> pipe_ok p u \<and>
    pipe_bytes p u = pipe_bytes p s @ user_bytes buf n s \<and> fs_mem u = fs_mem s \<and>
    i_count (inodes u p) = i_count (inodes s p) \<and> tsk u = tsk s \<and> current u = current s \<and> waitq u = waitq s"
  using assms(1,2) unfolding n_def
proof (induction "4095 - pipe_len p s" arbitrary: buf count written s rule: less_induct)
  case less
  show ?case
  proof (cases "count > 0 \<and> pipe_len p s < 4095")
    case False
    then have n: "min (nat count) (4095 - pipe_len p s) = 0"
      using less.prems(2) by auto
    show ?thesis
      unfolding n using less.prems by (intro exI [of _ s]) (simp add: user_bytes_def)
  next
    case True
    define m where "m = min (min (4096 - unat (PIPE_HEAD (inodes s p))) (nat count)) (4095 - pipe_len p s)"
    have m: "0 < m" "pipe_len p s + m \<le> 4095" "unat (PIPE_HEAD (inodes s p)) + m \<le> 4096" "m \<le> nat count"
      using True less.prems(1) by (auto simp: m_def pipe_ok_def)
    define v where "v = write_piece p buf m s"
    note v = write_piece_ok [OF less.prems(1) m(2,3), where buf = buf, folded v_def]
    define k where "k = min (nat (count - int m)) (4095 - pipe_len p v)"
    have n: "min (nat count) (4095 - pipe_len p s) = m + k"
      using m by (auto simp: k_def v(5))
    have less_v: "4095 - pipe_len p v < 4095 - pipe_len p s" "0 \<le> count - int m"
      using m True v(5) by auto
    obtain u where u: "pipe_write_loop init_task p (buf + of_nat m) (count - int m) (written + int m) v =
        pipe_write_loop init_task p (buf + of_nat m + of_nat k) (count - int m - int k) (written + int m + int k) u"
      "pipe_ok p u" "pipe_bytes p u = pipe_bytes p v @ user_bytes (buf + of_nat m) k v" "fs_mem u = fs_mem v"
      "i_count (inodes u p) = i_count (inodes v p)" "tsk u = tsk v" "current u = current v" "waitq u = waitq v"
      using less.hyps [OF less_v(1) v(1) less_v(2), of "buf + of_nat m" "written + int m"] unfolding k_def by blast
    have "pipe_bytes p u = pipe_bytes p s @ user_bytes buf (m + k) s"
      unfolding u(3) v(2) user_bytes_split using v(3) by (simp add: user_bytes_def)
    moreover have "pipe_write_loop init_task p buf count written s =
        pipe_write_loop init_task p (buf + of_nat (m + k)) (count - int (m + k)) (written + int (m + k)) u"
      using True less.prems(1) u(1)
      by (simp add: pipe_write_loop_step [OF _ _ _ m_def] v_def [symmetric] add.assoc diff_diff_eq)
    ultimately show ?thesis
      unfolding n using u(2,4-8) v(3,4,6-8) by auto
  qed
qed

section \<open>What the calls do\<close>

lemma wake_up_keeps [simp]:
  "inodes (wake_up q s) = inodes s" "fs_mem (wake_up q s) = fs_mem s" "kbyte a (wake_up q s) = kbyte a s"
  "current (wake_up q s) = current s" "waitq (wake_up q s) = waitq s" "pending (wake_up q s) = pending s"
  by (simp_all add: wake_up_def upd_task_def kbyte_def pending_def cur_def)

lemma upd_cur_keeps [simp]:
  "inodes (upd_cur f s) = inodes s" "fs_mem (upd_cur f s) = fs_mem s" "kbyte a (upd_cur f s) = kbyte a s"
  "kbyte a (s\<lparr>waitq := w\<rparr>) = kbyte a s"
  by (simp_all add: upd_cur_def upd_task_def kbyte_def)

lemma pipe_ok_cong: "inodes u p = inodes s p \<Longrightarrow> pipe_ok p u = pipe_ok p s"
  by (simp add: pipe_ok_def)

lemma pipe_bytes_cong:
  "inodes u p = inodes s p \<Longrightarrow> (\<And>a. kbyte a u = kbyte a s) \<Longrightarrow> pipe_bytes p u = pipe_bytes p s"
  by (simp add: pipe_bytes_def pipe_len_def ring_at_def page_addr_def)

lemma user_bytes_cong: "fs_mem u = fs_mem s \<Longrightarrow> user_bytes buf n u = user_bytes buf n s"
  by (simp add: user_bytes_def)

lemma pipe_view_wake_up [simp]:
  "pipe_ok p (wake_up q s) = pipe_ok p s" "pipe_bytes p (wake_up q s) = pipe_bytes p s"
  "user_bytes buf n (wake_up q s) = user_bytes buf n s"
  "pipe_ok p (upd_cur f s) = pipe_ok p s" "pipe_bytes p (upd_cur f s) = pipe_bytes p s"
  "pipe_ok p (s\<lparr>waitq := w\<rparr>) = pipe_ok p s" "pipe_bytes p (s\<lparr>waitq := w\<rparr>) = pipe_bytes p s"
  by (rule pipe_ok_cong pipe_bytes_cong user_bytes_cong; simp)+

section \<open>The pipe as a bounded queue\<close>

locale byte_queue =
  fixes contents :: "'s \<Rightarrow> u8 list"
    and ok :: "'s \<Rightarrow> bool"
    and capacity :: nat
    and user :: "u32 \<Rightarrow> nat \<Rightarrow> 's \<Rightarrow> u8 list"
    and put :: "u32 \<Rightarrow> nat \<Rightarrow> 's \<Rightarrow> 's option"
    and get :: "u32 \<Rightarrow> nat \<Rightarrow> 's \<Rightarrow> (nat \<times> 's) option"
  assumes put_ok: "\<lbrakk>ok s; length (contents s) + n \<le> capacity\<rbrakk> \<Longrightarrow>
      \<exists>u. put buf n s = Some u \<and> ok u \<and> contents u = contents s @ user buf n s"
    and get_ok: "ok s \<Longrightarrow> \<exists>u. get buf n s = Some (min n (length (contents s)), u) \<and> ok u \<and>
      contents u = drop n (contents s) \<and> user buf (min n (length (contents s))) u = take n (contents s)"
begin

lemma put_get:
  assumes "ok s" "contents s = []" "n \<le> capacity"
  shows "\<exists>u v. put a n s = Some u \<and> get b (length (user a n s)) u = Some (length (user a n s), v) \<and>
    user b (length (user a n s)) v = user a n s \<and> contents v = []"
proof -
  obtain u where u: "put a n s = Some u" "ok u" "contents u = user a n s"
    using put_ok [of s n a] assms by auto
  then show ?thesis
    using get_ok [OF u(2), of b "length (user a n s)"] by auto
qed

lemma get_twice:
  assumes "ok s" "m + n \<le> length (contents s)"
  shows "\<exists>u v. get a m s = Some (m, u) \<and> get b n u = Some (n, v) \<and> user b n v = take n (drop m (contents s)) \<and>
    contents v = drop (m + n) (contents s)"
proof -
  obtain u where u: "get a m s = Some (m, u)" "ok u" "contents u = drop m (contents s)"
    using get_ok [OF assms(1), of a m] assms(2) by (auto simp: min_absorb1)
  then show ?thesis
    using get_ok [OF u(2), of b n] assms(2) by (auto simp: min_absorb1 add.commute)
qed

end

definition pipe_put :: "ptr \<Rightarrow> ptr \<Rightarrow> u32 \<Rightarrow> nat \<Rightarrow> 'a kernel_scheme \<Rightarrow> 'a kernel_scheme option" where
  "pipe_put init_task p buf n s =
     (case pipe_write init_task p buf (int n) s of Some (Ret (Finished r) u) \<Rightarrow> Some u | _ \<Rightarrow> None)"

definition pipe_get :: "ptr \<Rightarrow> u32 \<Rightarrow> nat \<Rightarrow> 'a kernel_scheme \<Rightarrow> (nat \<times> 'a kernel_scheme) option" where
  "pipe_get p buf n s = map_option (\<lambda>(r, u). (nat r, u)) (pipe_read_copy p buf (int n) s)"

interpretation pipe_queue: byte_queue "pipe_bytes p" "pipe_ok p" 4095 user_bytes "pipe_put init_task p" "pipe_get p"
proof
  fix s :: "'a kernel_scheme" and n buf
  assume ok: "pipe_ok p s" "length (pipe_bytes p s) + n \<le> 4095"
  then have n: "min (nat (int n)) (4095 - pipe_len p s) = n"
    by simp
  obtain u where u: "pipe_write_loop init_task p buf (int n) 0 s = pipe_write_loop init_task p (buf + of_nat n) 0 (int n) u"
    "pipe_ok p u" "pipe_bytes p u = pipe_bytes p s @ user_bytes buf n s"
    using pipe_write_loop_runs [OF ok(1), of "int n" init_task buf 0] n by auto
  moreover have "pipe_write_loop init_task p (buf + of_nat n) 0 (int n) u = Some (Ret (Finished (int n)) (wake_up (PIPE_READ_WAIT p) u))"
    by (subst pipe_write_loop.simps) simp
  ultimately show "\<exists>u. pipe_put init_task p buf n s = Some u \<and> pipe_ok p u \<and> pipe_bytes p u = pipe_bytes p s @ user_bytes buf n s"
    by (auto simp: pipe_put_def pipe_write_def)
next
  fix s :: "'a kernel_scheme" and n buf
  assume ok: "pipe_ok p s"
  show "\<exists>u. pipe_get p buf n s = Some (min n (length (pipe_bytes p s)), u) \<and> pipe_ok p u \<and>
      pipe_bytes p u = drop n (pipe_bytes p s) \<and>
      user_bytes buf (min n (length (pipe_bytes p s))) u = take n (pipe_bytes p s)"
    using pipe_read_loop_ok [OF ok, of "int n" buf 0] by (auto simp: pipe_get_def pipe_read_copy_def min_def)
qed

text \<open>A writer that finds the ring full.\<close>

lemma pipe_write_full:
  assumes "0 < count" "pipe_len p v = 4095" "current v \<noteq> init_task"
  shows "\<exists>r u. pipe_write_loop init_task p buf count written v = Some (Ret r u) \<and>
    pipe_ok p u = pipe_ok p v \<and> pipe_bytes p u = pipe_bytes p v \<and>
    r = (if i_count (inodes v p) \<noteq> 2 \<or> pending v then Finished (if written \<noteq> 0 then written else - EINTR)
         else Sleeping (waitq v (PIPE_WRITE_WAIT p)) buf count written) \<and>
    (i_count (inodes v p) \<noteq> 2 \<longrightarrow> bit (t_signal (cur u)) (SIGPIPE - 1))"
proof -
  define w where "w = wake_up (PIPE_READ_WAIT p) v"
  define r where "r = Finished (if written \<noteq> 0 then written else - EINTR)"
  note w = pipe_view_wake_up(1,2) [of p "PIPE_READ_WAIT p" v, folded w_def]
  have "uint (PIPE_SIZE (inodes v p)) = int (pipe_len p v)"
    by (simp add: pipe_len_def)
  then have wait: "pipe_write_wait p written v =
      (if i_count (inodes v p) \<noteq> 2 then
         (Back (if written \<noteq> 0 then written else - EINTR), upd_cur (\<lambda>t. t\<lparr>t_signal := t_signal t OR sigbit SIGPIPE\<rparr>) w)
       else if pending v then (Back (if written \<noteq> 0 then written else - EINTR), w) else (Wait, w))"
    using assms(2) by (simp add: pipe_write_wait_def PAGE_SIZE_def w_def Let_def)
  consider (no_reader) "i_count (inodes v p) \<noteq> 2" | (signal) "i_count (inodes v p) = 2" "pending v"
    | (sleep) "i_count (inodes v p) = 2" "\<not> pending v"
    by blast
  then show ?thesis
  proof cases
    case no_reader
    define u where "u = upd_cur (\<lambda>t. t\<lparr>t_signal := t_signal t OR sigbit SIGPIPE\<rparr>) w"
    have "pipe_write_loop init_task p buf count written v = Some (Ret r u)"
      using assms(1) no_reader by (subst pipe_write_loop.simps) (simp add: wait u_def r_def)
    moreover have "bit (t_signal (cur u)) (SIGPIPE - 1)"
      by (simp add: u_def upd_cur_def upd_task_def cur_def sigbit_def SIGPIPE_def bit_simps)
    ultimately show ?thesis
      using no_reader w by (intro exI [of _ r] exI [of _ u]) (simp add: u_def r_def)
  next
    case signal
    then have "pipe_write_loop init_task p buf count written v = Some (Ret r w)"
      using assms(1) by (subst pipe_write_loop.simps) (simp add: wait r_def)
    then show ?thesis
      using signal w by (intro exI [of _ r] exI [of _ w]) (simp add: r_def)
  next
    case sleep
    define q where "q = PIPE_WRITE_WAIT p"
    define u where "u = upd_cur (\<lambda>t. t\<lparr>t_state := TASK_INTERRUPTIBLE\<rparr>) (w\<lparr>waitq := (waitq w)(q := current w)\<rparr>)"
    define x where "x = Sleeping (waitq v q) buf count written"
    have "interruptible_sleep_on init_task q w = Ret (waitq v q) u"
      using assms(3) by (simp add: interruptible_sleep_on_def sleep_begin_def u_def w_def q_def PIPE_WRITE_WAIT_def Let_def)
    then have "pipe_write_loop init_task p buf count written v = Some (Ret x u)"
      using assms(1) sleep by (subst pipe_write_loop.simps) (simp add: wait x_def q_def)
    then show ?thesis
      using sleep w by (intro exI [of _ x] exI [of _ u]) (simp add: u_def x_def q_def)
  qed
qed

text \<open>
  C24. A read from a pipe that is not empty returns at once: it takes the oldest bytes, as many as
  there are up to the count, into the user's buffer and nowhere else, and leaves the rest in order.
\<close>

theorem pipe_read_takes_oldest:
  assumes "pipe_ok p s" "0 \<le> count" "pipe_bytes p s \<noteq> []"
  defines "n \<equiv> min (nat count) (length (pipe_bytes p s))"
  shows "\<exists>u. pipe_read init_task p flags buf count s = Some (Ret (Finished (int n)) u) \<and> pipe_ok p u \<and>
    pipe_bytes p u = drop n (pipe_bytes p s) \<and> user_bytes buf n u = take n (pipe_bytes p s) \<and>
    (\<forall>b. n \<le> unat (b - buf) \<longrightarrow> fs_mem u b = fs_mem s b)"
proof -
  have "PIPE_SIZE (inodes s p) \<noteq> 0"
    using assms(3) by (auto simp: pipe_bytes_def pipe_len_def)
  then have "pipe_read_wait p flags s = (Go, s)"
    by (simp add: pipe_read_wait_def)
  then show ?thesis
    using pipe_read_loop_ok [OF assms(1,2), of buf 0] unfolding n_def by (auto simp: pipe_read_def pipe_read_copy_def)
qed

text \<open>
  C23. A write appends the bytes of the user's buffer in order, as many as fit into the ring of 4095.
  When all fit it returns the count. Otherwise the ring is full: without a reader the writer gets
  SIGPIPE, and then or with a signal pending the call returns what was written or EINTR; in every
  other case the writer sleeps on the pipe's queue, to be run again for the rest.
\<close>

theorem pipe_write_appends:
  assumes "pipe_ok p s" "0 < count" "current s \<noteq> init_task"
  defines "n \<equiv> min (nat count) (4095 - length (pipe_bytes p s))"
  shows "\<exists>r u. pipe_write init_task p buf count s = Some (Ret r u) \<and> pipe_ok p u \<and>
    pipe_bytes p u = pipe_bytes p s @ user_bytes buf n s \<and>
    r = (if int n = count then Finished count
         else if i_count (inodes s p) \<noteq> 2 \<or> pending s then Finished (if n \<noteq> 0 then int n else - EINTR)
         else Sleeping (waitq s (PIPE_WRITE_WAIT p)) (buf + of_nat n) (count - int n) (int n)) \<and>
    (int n < count \<and> i_count (inodes s p) \<noteq> 2 \<longrightarrow> bit (t_signal (cur u)) (SIGPIPE - 1))"
proof -
  obtain v where v: "pipe_write init_task p buf count s =
      pipe_write_loop init_task p (buf + of_nat n) (count - int n) (int n) v"
    "pipe_ok p v" "pipe_bytes p v = pipe_bytes p s @ user_bytes buf n s" "i_count (inodes v p) = i_count (inodes s p)"
    "tsk v = tsk s" "current v = current s" "waitq v = waitq s"
    using pipe_write_loop_runs [OF assms(1), of count init_task buf 0] assms(2)
    unfolding n_def pipe_write_def by (auto simp: less_imp_le)
  show ?thesis
  proof (cases "int n = count")
    case True
    then have "pipe_write init_task p buf count s = Some (Ret (Finished count) (wake_up (PIPE_READ_WAIT p) v))"
      unfolding v(1) by (subst pipe_write_loop.simps) simp
    with True v(2,3) show ?thesis
      by (intro exI [of _ "Finished count"] exI [of _ "wake_up (PIPE_READ_WAIT p) v"]) simp
  next
    case False
    then have less: "int n < count" and full: "pipe_len p v = 4095"
      using assms(2) arg_cong [OF v(3), of length] pipe_len_bound [OF assms(1)]
      by (auto simp: n_def user_bytes_def split: split_min)
    obtain r u where u: "pipe_write_loop init_task p (buf + of_nat n) (count - int n) (int n) v = Some (Ret r u)"
      "pipe_ok p u" "pipe_bytes p u = pipe_bytes p v"
      "r = (if i_count (inodes v p) \<noteq> 2 \<or> pending v then Finished (if int n \<noteq> 0 then int n else - EINTR)
            else Sleeping (waitq v (PIPE_WRITE_WAIT p)) (buf + of_nat n) (count - int n) (int n))"
      "i_count (inodes v p) \<noteq> 2 \<longrightarrow> bit (t_signal (cur u)) (SIGPIPE - 1)"
      using pipe_write_full [of "count - int n" p v init_task "buf + of_nat n" "int n"] less full v(2,6) assms(3) by auto
    moreover have "pending v = pending s"
      using v(5,6) by (simp add: pending_def cur_def)
    ultimately show ?thesis
      using False v by (intro exI [of _ r] exI [of _ u]) simp
  qed
qed

text \<open>
  What one process writes into an empty pipe, up to its capacity, another reads out as it was:
  the bytes arrive in the reader's buffer in the same order, and the pipe is empty again.
\<close>

theorem pipe_carries_bytes:
  assumes "pipe_ok p s" "pipe_bytes p s = []" "n \<le> 4095"
  shows "\<exists>u v. pipe_put init_task p a n s = Some u \<and> pipe_get p b n u = Some (n, v) \<and>
    user_bytes b n v = user_bytes a n s \<and> pipe_bytes p v = []"
  using pipe_queue.put_get [OF assms, of init_task a b] by (simp add: user_bytes_def)

section \<open>Examples\<close>

text \<open>An inode at 512 with its page at 0x300000, and the head and the tail of its ring.\<close>

definition pipe_example :: "u32 \<Rightarrow> u32 \<Rightarrow> kernel" where
  "pipe_example h t = kernel_example\<lparr>inodes := (inodes kernel_example)(512 := (inodes kernel_example 512)
     \<lparr>i_size := 0x300000, i_count := 2, i_pipe := True, i_data := (\<lambda>i. t)(0 := h)\<rparr>),
     fs_mem := (\<lambda>a. ucast a)\<rparr>"

lemma pipe_example_simps [simp]:
  "pipe_ok 512 (pipe_example h t) \<longleftrightarrow> unat h < 4096 \<and> unat t < 4096"
  "pipe_len 512 (pipe_example h t) = unat ((h - t) AND 0xfff)"
  "current (pipe_example h t) = 2000" "i_count (inodes (pipe_example h t) 512) = 2" "\<not> pending (pipe_example h t)"
  "waitq (pipe_example h t) q = 0" "fs_mem (pipe_example h t) = (\<lambda>a. ucast a)"
  by (simp_all add: pipe_ok_def pipe_len_def PIPE_SIZE_def PIPE_HEAD_def PIPE_TAIL_def pipe_example_def pending_def cur_def)

lemma pipe_bytes_Nil: "pipe_bytes p s = [] \<longleftrightarrow> pipe_len p s = 0"
  by (simp add: pipe_bytes_def)

theorem pipe_read_takes_oldest_witness:
  "\<exists>u. pipe_read 1000 512 0 0x20 3 (pipe_example 2 4094) = Some (Ret (Finished 3) u) \<and> length (pipe_bytes 512 u) = 1"
  using pipe_read_takes_oldest [of 512 "pipe_example 2 4094" 3 1000 0 "0x20"]
  by (auto simp: pipe_bytes_Nil dest!: arg_cong [of _ _ length])

theorem pipe_write_appends_witness:
  "\<exists>u. pipe_write 1000 512 0 5000 (pipe_example 4094 4094) = Some (Ret (Sleeping 0 4095 905 4095) u) \<and>
    length (pipe_bytes 512 u) = 4095"
  using pipe_write_appends [of 512 "pipe_example 4094 4094" 5000 1000 0]
  by (auto simp: user_bytes_def dest!: arg_cong [of _ _ length])

theorem pipe_carries_bytes_witness:
  "\<exists>u v. pipe_put 1000 512 0x10 4 (pipe_example 4094 4094) = Some u \<and> pipe_get 512 0x20 4 u = Some (4, v) \<and>
    user_bytes 0x20 4 v = [0x10, 0x11, 0x12, 0x13]"
  using pipe_carries_bytes [of 512 "pipe_example 4094 4094" 4 1000 "0x10" "0x20"]
  by (auto simp: user_bytes_def pipe_bytes_Nil upt_conv_Cons)

end
