(* ===== verification/Requests.thy ===== *)
theory Requests
  imports Pipe
begin

text \<open>
  kernel/blk_drv: the table of requests to block devices, the elevator that queues them
  (ll_rw_blk.c, blk.h) and the ram disk (ramdisk.c).

  The entries of \<open>request\<close> are found by their address: \<open>i + 1\<close> stands for \<open>&request[i]\<close>. The
  request function of a device, a pointer in \<open>blk_dev\<close>, is an argument: it takes the major number,
  and \<open>None\<close> is the null pointer.
\<close>

section \<open>The request table\<close>

record request =
  rq_dev :: int
  rq_cmd :: int
  rq_errors :: int
  rq_sector :: u32
  rq_nr_sectors :: u32
  rq_buffer :: u32
  rq_waiting :: ptr
  rq_bh :: ptr
  rq_next :: ptr

record buffer_head =
  b_data :: u32
  b_blocknr :: u32
  b_dev :: u16
  b_uptodate :: bool
  b_dirt :: bool
  b_count :: u8
  b_lock :: bool
  b_prev :: ptr
  b_next :: ptr
  b_prev_free :: ptr
  b_next_free :: ptr

record blk = kernel +
  requests :: "ptr \<Rightarrow> request"
  bufs :: "ptr \<Rightarrow> buffer_head"
  current_request :: "nat \<Rightarrow> ptr"
  wait_for_request :: ptr
  rd_start :: u32
  rd_length :: int

text \<open>
  \<open>wait_for_request\<close> is the address of the variable of that name; the queue itself is in \<open>waitq\<close>,
  as is the wait queue of a buffer at the address of \<open>b_wait\<close>.
\<close>

definition NR_BLK_DEV :: nat where "NR_BLK_DEV = 7"
definition NR_REQUEST :: nat where "NR_REQUEST = 32"
definition READ :: int where "READ = 0"
definition WRITE :: int where "WRITE = 1"
definition READA :: int where "READA = 2"
definition WRITEA :: int where "WRITEA = 3"

definition MAJOR :: "int \<Rightarrow> nat" where "MAJOR d = unat (of_int d :: u32) div 256"
definition MINOR :: "int \<Rightarrow> int" where "MINOR d = d mod 256"

definition upd_req :: "ptr \<Rightarrow> (request \<Rightarrow> request) \<Rightarrow> 'a blk_scheme \<Rightarrow> 'a blk_scheme" where
  "upd_req r f s = s\<lparr>requests := (requests s)(r := f (requests s r))\<rparr>"

definition upd_buf :: "ptr \<Rightarrow> (buffer_head \<Rightarrow> buffer_head) \<Rightarrow> 'a blk_scheme \<Rightarrow> 'a blk_scheme" where
  "upd_buf b f s = s\<lparr>bufs := (bufs s)(b := f (bufs s b))\<rparr>"

definition b_wait :: "ptr \<Rightarrow> ptr" where "b_wait b = b + 16"

definition IN_ORDER :: "request \<Rightarrow> request \<Rightarrow> bool" where
  "IN_ORDER s1 s2 \<longleftrightarrow> rq_cmd s1 < rq_cmd s2 \<or> (rq_cmd s1 = rq_cmd s2 \<and>
     (rq_dev s1 < rq_dev s2 \<or> (rq_dev s1 = rq_dev s2 \<and> rq_sector s1 < rq_sector s2)))"

section \<open>The elevator\<close>

text \<open>The search for the request after which the new one goes. It ends when the chain does.\<close>

partial_function (option) find_place :: "ptr \<Rightarrow> ptr \<Rightarrow> 'a blk_scheme \<Rightarrow> ptr option" where
  "find_place tmp req s =
     (let next = rq_next (requests s tmp)
      in if next = NULL then Some tmp
         else if rq_bh (requests s req) = NULL then
           if rq_bh (requests s next) \<noteq> NULL then Some tmp else find_place next req s
         else if (IN_ORDER (requests s tmp) (requests s req) \<or> \<not> IN_ORDER (requests s tmp) (requests s next)) \<and>
                 IN_ORDER (requests s req) (requests s next) then Some tmp
         else find_place next req s)"

type_synonym 'a request_fns = "nat \<Rightarrow> ('a blk_scheme \<Rightarrow> (unit, 'a blk_scheme) outcome) option"

definition add_request :: "'a request_fns \<Rightarrow> nat \<Rightarrow> ptr \<Rightarrow> 'a blk_scheme \<Rightarrow> (unit, 'a blk_scheme) outcome option" where
  "add_request fns major req s =
     (let s = upd_req req (\<lambda>r. r\<lparr>rq_next := NULL\<rparr>) s;
          bh = rq_bh (requests s req);
          s = (if bh \<noteq> NULL then upd_buf bh (\<lambda>b. b\<lparr>b_dirt := False\<rparr>) s else s)
      in if current_request s major = NULL then
           let s = s\<lparr>current_request := (current_request s)(major := req)\<rparr>
           in Some (case fns major of Some request_fn \<Rightarrow> request_fn s | None \<Rightarrow> Panic s)
         else map_option
           (\<lambda>tmp. Ret () (upd_req tmp (\<lambda>r. r\<lparr>rq_next := req\<rparr>) (upd_req req (\<lambda>r. r\<lparr>rq_next := rq_next (requests s tmp)\<rparr>) s)))
           (find_place (current_request s major) req s))"

section \<open>Making requests\<close>

text \<open>A call either comes to an end or sleeps on a queue, from which it goes on at the place named.\<close>

datatype blk_step = BlkDone | BlkSleep ptr ptr

definition blk_sleep :: "ptr \<Rightarrow> ptr \<Rightarrow> 'a blk_scheme \<Rightarrow> (blk_step, 'a blk_scheme) outcome" where
  "blk_sleep init_task q s = and_then (sleep_on init_task q s) (\<lambda>tmp s. Ret (BlkSleep tmp q) s)"

definition unlock_buffer :: "ptr \<Rightarrow> 'a blk_scheme \<Rightarrow> 'a blk_scheme" where
  "unlock_buffer bh s = wake_up (b_wait bh) (upd_buf bh (\<lambda>b. b\<lparr>b_lock := False\<rparr>) s)"

text \<open>The search for a free entry, from the entry below \<open>n\<close> down to the first.\<close>

fun free_request :: "nat \<Rightarrow> 'a blk_scheme \<Rightarrow> ptr option" where
  "free_request 0 s = None"
| "free_request (Suc n) s = (if rq_dev (requests s (Suc n)) < 0 then Some (Suc n) else free_request n s)"

text \<open>From label \<open>repeat\<close> on, with the buffer locked; after a sleep it starts here again.\<close>

definition make_request_find ::
    "'a request_fns \<Rightarrow> ptr \<Rightarrow> nat \<Rightarrow> int \<Rightarrow> bool \<Rightarrow> ptr \<Rightarrow> 'a blk_scheme \<Rightarrow> (blk_step, 'a blk_scheme) outcome option" where
  "make_request_find fns init_task major rw rw_ahead bh s =
     (case free_request (if rw = READ then NR_REQUEST else NR_REQUEST * 2 div 3) s of
        Some req \<Rightarrow>
          map_option (\<lambda>out. and_then out (\<lambda>_ s. Ret BlkDone s))
            (add_request fns major req
              (upd_req req (\<lambda>r. r\<lparr>rq_dev := uint (b_dev (bufs s bh)), rq_cmd := rw, rq_errors := 0,
                 rq_sector := push_bit 1 (b_blocknr (bufs s bh)), rq_nr_sectors := 2,
                 rq_buffer := b_data (bufs s bh), rq_waiting := NULL, rq_bh := bh, rq_next := NULL\<rparr>) s))
      | None \<Rightarrow> Some (if rw_ahead then Ret BlkDone (unlock_buffer bh s)
                     else blk_sleep init_task (wait_for_request s) s))"

text \<open>From the call of \<open>lock_buffer\<close> on; \<open>rw\<close> is READ or WRITE here.\<close>

definition make_request_lock ::
    "'a request_fns \<Rightarrow> ptr \<Rightarrow> nat \<Rightarrow> int \<Rightarrow> bool \<Rightarrow> ptr \<Rightarrow> 'a blk_scheme \<Rightarrow> (blk_step, 'a blk_scheme) outcome option" where
  "make_request_lock fns init_task major rw rw_ahead bh s =
     (if b_lock (bufs s bh) then Some (blk_sleep init_task (b_wait bh) s)
      else let s = upd_buf bh (\<lambda>b. b\<lparr>b_lock := True\<rparr>) s
           in if (rw = WRITE \<and> \<not> b_dirt (bufs s bh)) \<or> (rw = READ \<and> b_uptodate (bufs s bh))
              then Some (Ret BlkDone (unlock_buffer bh s))
              else make_request_find fns init_task major rw rw_ahead bh s)"

definition make_request ::
    "'a request_fns \<Rightarrow> ptr \<Rightarrow> nat \<Rightarrow> int \<Rightarrow> ptr \<Rightarrow> 'a blk_scheme \<Rightarrow> (blk_step, 'a blk_scheme) outcome option" where
  "make_request fns init_task major rw bh s =
     (let rw_ahead = (rw = READA \<or> rw = WRITEA)
      in if rw_ahead \<and> b_lock (bufs s bh) then Some (Ret BlkDone s)
         else let rw = (if rw_ahead then if rw = READA then READ else WRITE else rw)
              in if rw \<noteq> READ \<and> rw \<noteq> WRITE then Some (Ret BlkDone s)
                 else make_request_lock fns init_task major rw rw_ahead bh s)"

definition ll_rw_block ::
    "'a request_fns \<Rightarrow> ptr \<Rightarrow> int \<Rightarrow> ptr \<Rightarrow> 'a blk_scheme \<Rightarrow> (blk_step, 'a blk_scheme) outcome option" where
  "ll_rw_block fns init_task rw bh s =
     (let major = MAJOR (uint (b_dev (bufs s bh)))
      in if major \<ge> NR_BLK_DEV \<or> fns major = None then Some (Ret BlkDone s)
         else make_request fns init_task major rw bh s)"

text \<open>
  A request for memory that is no buffer: the task waits for it in \<open>schedule\<close>, which is what
  \<open>yield_cpu\<close> stands for.
\<close>

definition page_request ::
    "'a request_fns \<Rightarrow> ptr \<Rightarrow> int \<Rightarrow> int \<Rightarrow> u32 \<Rightarrow> u32 \<Rightarrow> u32 \<Rightarrow> 'a blk_scheme \<Rightarrow>
     (blk_step, 'a blk_scheme) outcome option" where
  "page_request fns init_task rw dev sector nr_sectors buffer s =
     (case free_request NR_REQUEST s of
        Some req \<Rightarrow>
          map_option (\<lambda>out. and_then out (\<lambda>_ s. Ret BlkDone (yield_cpu s)))
            (add_request fns (MAJOR dev) req
              (upd_cur (\<lambda>t. t\<lparr>t_state := TASK_UNINTERRUPTIBLE\<rparr>)
                (upd_req req (\<lambda>r. r\<lparr>rq_dev := dev, rq_cmd := rw, rq_errors := 0, rq_sector := sector,
                   rq_nr_sectors := nr_sectors, rq_buffer := buffer, rq_waiting := current s, rq_bh := NULL,
                   rq_next := NULL\<rparr>) s)))
      | None \<Rightarrow> Some (blk_sleep init_task (wait_for_request s) s))"

definition ll_rw_page ::
    "'a request_fns \<Rightarrow> ptr \<Rightarrow> int \<Rightarrow> int \<Rightarrow> u32 \<Rightarrow> u32 \<Rightarrow> 'a blk_scheme \<Rightarrow> (blk_step, 'a blk_scheme) outcome option" where
  "ll_rw_page fns init_task rw dev page buffer s =
     (if MAJOR dev \<ge> NR_BLK_DEV \<or> fns (MAJOR dev) = None then Some (Ret BlkDone s)
      else if rw \<noteq> READ \<and> rw \<noteq> WRITE then Some (Panic s)
      else page_request fns init_task rw dev (push_bit 3 page) 8 buffer s)"

text \<open>The loop over the blocks of a swap file; a sleep returns the blocks that are left.\<close>

fun swap_file_blocks ::
    "'a request_fns \<Rightarrow> ptr \<Rightarrow> int \<Rightarrow> int \<Rightarrow> u32 list \<Rightarrow> u32 \<Rightarrow> 'a blk_scheme \<Rightarrow>
     (blk_step \<times> u32 list, 'a blk_scheme) outcome option" where
  "swap_file_blocks fns init_task rw dev [] buf s = Some (Ret (BlkDone, []) s)"
| "swap_file_blocks fns init_task rw dev (b # bs) buf s =
     (case page_request fns init_task rw dev (push_bit 1 b) 2 buf s of
        None \<Rightarrow> None
      | Some (Ret BlkDone s) \<Rightarrow> swap_file_blocks fns init_task rw dev bs (buf + 1024) s
      | Some (Ret (BlkSleep tmp q) s) \<Rightarrow> Some (Ret (BlkSleep tmp q, b # bs) s)
      | Some (DoExit c s) \<Rightarrow> Some (DoExit c s)
      | Some (Panic s) \<Rightarrow> Some (Panic s))"

definition ll_rw_swap_file ::
    "'a request_fns \<Rightarrow> ptr \<Rightarrow> int \<Rightarrow> int \<Rightarrow> u32 list \<Rightarrow> u32 \<Rightarrow> 'a blk_scheme \<Rightarrow>
     (blk_step \<times> u32 list, 'a blk_scheme) outcome option" where
  "ll_rw_swap_file fns init_task rw dev b buf s =
     (if MAJOR dev \<ge> NR_BLK_DEV \<or> fns (MAJOR dev) = None \<or> (rw \<noteq> READ \<and> rw \<noteq> WRITE)
      then Some (Ret (BlkDone, []) s) else swap_file_blocks fns init_task rw dev b buf s)"

definition blk_dev_init :: "'a blk_scheme \<Rightarrow> 'a blk_scheme" where
  "blk_dev_init s =
     fold (\<lambda>i. upd_req (Suc i) (\<lambda>r. r\<lparr>rq_dev := - 1, rq_next := NULL\<rparr>)) [0..<NR_REQUEST] s"

section \<open>The end of a request, and the ram disk\<close>

definition wake_task :: "ptr \<Rightarrow> 'a kernel_scheme \<Rightarrow> 'a kernel_scheme" where
  "wake_task t s = (if t \<noteq> NULL then upd_task t (\<lambda>t. t\<lparr>t_state := 0\<rparr>) s else s)"

text \<open>For a driver without a motor to switch off; the messages of a failed request are left out.\<close>

definition end_request :: "nat \<Rightarrow> bool \<Rightarrow> 'a blk_scheme \<Rightarrow> 'a blk_scheme" where
  "end_request major uptodate s =
     (let r = current_request s major; bh = rq_bh (requests s r);
          s = (if bh \<noteq> NULL then unlock_buffer bh (upd_buf bh (\<lambda>b. b\<lparr>b_uptodate := uptodate\<rparr>) s) else s);
          s = wake_up (wait_for_request s) (wake_task (rq_waiting (requests s r)) s);
          s = upd_req r (\<lambda>r. r\<lparr>rq_dev := - 1\<rparr>) s
      in s\<lparr>current_request := (current_request s)(major := rq_next (requests s r))\<rparr>)"

text \<open>\<open>memcpy\<close> between two places in kernel memory, byte by byte upwards.\<close>

fun kernel_memcpy :: "nat \<Rightarrow> u32 \<Rightarrow> u32 \<Rightarrow> 'a mm_scheme \<Rightarrow> 'a mm_scheme" where
  "kernel_memcpy 0 dest src s = s"
| "kernel_memcpy (Suc n) dest src s = kernel_memcpy n (dest + 1) (src + 1) (put_kbyte (kbyte src s) dest s)"

definition rd_transfer :: "request \<Rightarrow> 'a blk_scheme \<Rightarrow> (bool, 'a blk_scheme) outcome" where
  "rd_transfer r s =
     (let addr = rd_start s + push_bit 9 (rq_sector r); len = push_bit 9 (rq_nr_sectors r)
      in if MINOR (rq_dev r) \<noteq> 1 \<or> addr + len > rd_start s + of_int (rd_length s) then Ret False s
         else if rq_cmd r = WRITE then Ret True (kernel_memcpy (unat len) addr (rq_buffer r) s)
         else if rq_cmd r = READ then Ret True (kernel_memcpy (unat len) (rq_buffer r) addr s)
         else Panic s)"

partial_function (option) do_rd_request :: "'a blk_scheme \<Rightarrow> (unit, 'a blk_scheme) outcome option" where
  "do_rd_request s =
     (let c = current_request s 1; r = requests s c
      in if c = NULL then Some (Ret () s)
         else if MAJOR (rq_dev r) \<noteq> 1 \<or> (rq_bh r \<noteq> NULL \<and> \<not> b_lock (bufs s (rq_bh r))) then Some (Panic s)
         else (case rd_transfer r s of
                 Ret ok s \<Rightarrow> do_rd_request (end_request 1 ok s)
               | DoExit c s \<Rightarrow> Some (DoExit c s)
               | Panic s \<Rightarrow> Some (Panic s)))"

fun zero_bytes :: "nat \<Rightarrow> u32 \<Rightarrow> 'a mm_scheme \<Rightarrow> 'a mm_scheme" where
  "zero_bytes 0 a s = s"
| "zero_bytes (Suc n) a s = zero_bytes n (a + 1) (put_kbyte 0 a s)"

definition rd_init :: "u32 \<Rightarrow> int \<Rightarrow> 'a blk_scheme \<Rightarrow> int \<times> 'a blk_scheme" where
  "rd_init mem_start len s = (len, zero_bytes (nat len) mem_start (s\<lparr>rd_start := mem_start, rd_length := len\<rparr>))"

section \<open>The queue as a list\<close>

text \<open>What the elevator is meant to do, on the list of the queue behind its first request.\<close>

definition goes_before :: "(ptr \<Rightarrow> request) \<Rightarrow> ptr \<Rightarrow> ptr \<Rightarrow> ptr \<Rightarrow> bool" where
  "goes_before R req tmp next \<longleftrightarrow>
     (if rq_bh (R req) = NULL then rq_bh (R next) \<noteq> NULL
      else (IN_ORDER (R tmp) (R req) \<or> \<not> IN_ORDER (R tmp) (R next)) \<and> IN_ORDER (R req) (R next))"

fun place :: "(ptr \<Rightarrow> request) \<Rightarrow> ptr \<Rightarrow> ptr \<Rightarrow> ptr list \<Rightarrow> ptr list" where
  "place R req tmp [] = [req]"
| "place R req tmp (x # xs) = (if goes_before R req tmp x then req # x # xs else x # place R req x xs)"

definition queued :: "'a blk_scheme \<Rightarrow> nat \<Rightarrow> ptr list \<Rightarrow> bool" where
  "queued s major xs \<longleftrightarrow> linked (\<lambda>r. rq_next (requests s r)) (current_request s major) xs \<and> distinct xs"







section \<open>The elevator order\<close>



lemma IN_ORDER_trans: "IN_ORDER a b \<Longrightarrow> IN_ORDER b c \<Longrightarrow> IN_ORDER a c"
  by (auto simp: IN_ORDER_def)


lemma IN_ORDER_asym: "IN_ORDER a b \<Longrightarrow> \<not> IN_ORDER b a"
  by (auto simp: IN_ORDER_def)

abbreviation (input) run :: "(ptr \<Rightarrow> request) \<Rightarrow> ptr list \<Rightarrow> bool" where
  "run R \<equiv> sorted_wrt (\<lambda>x y. IN_ORDER (R x) (R y))"



lemma place_past_run:
  assumes "run R (tmp # xs)" "IN_ORDER (R req) (R tmp)" "rq_bh (R req) \<noteq> NULL"
  shows "place R req tmp xs = xs @ [req]"
  using assms
proof (induction xs arbitrary: tmp)
  case (Cons x xs)
  then have "\<not> goes_before R req tmp x"
    by (auto simp: goes_before_def dest: IN_ORDER_asym)
  moreover have "IN_ORDER (R req) (R x)"
    using IN_ORDER_trans [of "R req" "R tmp" "R x"] Cons.prems by simp
  ultimately show ?case
    using Cons by simp
qed simp






text \<open>
  Requests without a buffer are meant to go before all others, but a request with a buffer is put
  before one without as its sector says.
\<close>

lemma buffer_before_swap:
  assumes "rq_bh (R req) \<noteq> NULL" "IN_ORDER (R h) (R req)" "IN_ORDER (R req) (R sw)"
  shows "place R req h (sw # xs) = req # sw # xs"
  using assms by (simp add: goes_before_def)

section \<open>The ram disk serves its queue\<close>

lemma more_blk: "mm.more u = mm.more s \<Longrightarrow>
  requests u = requests s \<and> bufs u = bufs s \<and> current_request u = current_request s \<and> waitq u = waitq s \<and> tsk u = tsk s"
  by (cases u; cases s) simp

lemma more_kernel_memcpy: "mm.more (kernel_memcpy n dest src s) = mm.more s"
  by (induction n dest src s rule: kernel_memcpy.induct) simp_all

lemma rd_transfer_ret:
  assumes "rq_cmd r \<in> {READ, WRITE}"
  shows "\<exists>b u. rd_transfer r s = Ret b u \<and> mm.more u = mm.more s"
  using assms by (auto simp: rd_transfer_def Let_def more_kernel_memcpy)

definition rd_ready :: "'a blk_scheme \<Rightarrow> ptr \<Rightarrow> bool" where
  "rd_ready s r \<longleftrightarrow> MAJOR (rq_dev (requests s r)) = 1 \<and> rq_cmd (requests s r) \<in> {READ, WRITE} \<and>
     (rq_bh (requests s r) \<noteq> NULL \<longrightarrow> b_lock (bufs s (rq_bh (requests s r))))"

definition own_buffers :: "'a blk_scheme \<Rightarrow> ptr list \<Rightarrow> bool" where
  "own_buffers s xs \<longleftrightarrow> distinct (filter (\<lambda>b. b \<noteq> NULL) (map (\<lambda>r. rq_bh (requests s r)) xs))"

lemma end_request_fields:
  fixes s :: "'a blk_scheme" and major :: nat
  defines "r \<equiv> current_request s major"
  shows "requests (end_request major ok s) = (requests s)(r := (requests s r)\<lparr>rq_dev := - 1\<rparr>)"
    "current_request (end_request major ok s) = (current_request s)(major := rq_next (requests s r))"
    "bufs (end_request major ok s) = (if rq_bh (requests s r) \<noteq> NULL
       then (bufs s)(rq_bh (requests s r) := (bufs s (rq_bh (requests s r)))\<lparr>b_uptodate := ok, b_lock := False\<rparr>) else bufs s)"
  by (simp_all add: end_request_def r_def Let_def upd_req_def unlock_buffer_def upd_buf_def wake_up_def wake_task_def upd_task_def)

text \<open>
  C26. The ram disk serves every request: called on a queue of read and write requests of its own whose
  buffers are locked, the request function returns (it neither panics nor runs on), with the queue
  empty, every entry of the queue free again, no other entry touched, and the buffers of the queue
  unlocked - and only those.
\<close>

theorem ramdisk_serves_queue:
  assumes "queued s 1 xs" "\<forall>r \<in> set xs. rd_ready s r" "own_buffers s xs"
  shows "\<exists>u. do_rd_request s = Some (Ret () u) \<and> current_request u 1 = NULL \<and>
    (\<forall>r. requests u r = (if r \<in> set xs then (requests s r)\<lparr>rq_dev := - 1\<rparr> else requests s r)) \<and>
    (\<forall>b. b_lock (bufs u b) \<longleftrightarrow> b_lock (bufs s b) \<and> b \<notin> rq_bh ` requests s ` set xs - {NULL})"
  using assms
proof (induction xs arbitrary: s)
  case Nil
  then show ?case
    by (subst do_rd_request.simps) (simp add: queued_def)
next
  case (Cons x xs)
  then have x: "current_request s 1 = x" "x \<noteq> NULL" "x \<notin> set xs" "rd_ready s x"
    by (auto simp: queued_def)
  obtain ok v where v: "rd_transfer (requests s x) s = Ret ok v" "mm.more v = mm.more s"
    using rd_transfer_ret [of "requests s x" s] x(4) by (auto simp: rd_ready_def)
  define w where "w = end_request 1 ok v"
  have w: "requests w = (requests s)(x := (requests s x)\<lparr>rq_dev := - 1\<rparr>)"
    "current_request w 1 = rq_next (requests s x)"
    "bufs w = (if rq_bh (requests s x) \<noteq> NULL
       then (bufs s)(rq_bh (requests s x) := (bufs s (rq_bh (requests s x)))\<lparr>b_uptodate := ok, b_lock := False\<rparr>) else bufs s)"
    using more_blk [OF v(2)] x(1) by (simp_all add: w_def end_request_fields)
  have "do_rd_request s = do_rd_request w"
    using x v(1) by (subst do_rd_request.simps) (auto simp: rd_ready_def w_def Let_def)
  moreover have "(\<lambda>r. rq_next (requests w r)) = (\<lambda>r. rq_next (requests s r))"
    by (auto simp: w)
  then have "queued w 1 xs"
    using Cons.prems(1) unfolding queued_def w(2) by simp
  moreover have "rd_ready w r" if r: "r \<in> set xs" for r
  proof -
    have "rq_bh (requests s r) \<noteq> rq_bh (requests s x)" if "rq_bh (requests s r) \<noteq> NULL"
      using Cons.prems(3) r that by (auto simp: own_buffers_def image_iff split: if_splits)
    moreover have "rd_ready s r" "r \<noteq> x"
      using Cons.prems(2) r x(3) by auto
    ultimately show ?thesis
      by (simp add: rd_ready_def w)
  qed
  moreover have "map (\<lambda>r. rq_bh (requests w r)) xs = map (\<lambda>r. rq_bh (requests s r)) xs"
    by (simp add: w)
  then have "own_buffers w xs = own_buffers s xs"
    unfolding own_buffers_def by (simp only:)
  then have "own_buffers w xs"
    using Cons.prems(3) by (auto simp: own_buffers_def split: if_splits)
  ultimately obtain u where u: "do_rd_request s = Some (Ret () u)" "current_request u 1 = NULL"
    "\<forall>r. requests u r = (if r \<in> set xs then (requests w r)\<lparr>rq_dev := - 1\<rparr> else requests w r)"
    "\<forall>b. b_lock (bufs u b) \<longleftrightarrow> b_lock (bufs w b) \<and> b \<notin> rq_bh ` requests w ` set xs - {NULL}"
    using Cons.IH [of w] by (metis (no_types, lifting))
  have "rq_bh ` requests w ` set xs = rq_bh ` requests s ` set xs"
    using x(3) by (auto simp: w image_iff)
  with u w x(3) show ?case
    by (intro exI [of _ u]) auto
qed

section \<open>An example\<close>

text \<open>
  The first sectors of the ram disk are on their way: a read of sector 4 and a write of sector 2; a
  read of sector 6 is about to be queued. The buffers are at 1000, 2000 and 3000.
\<close>

definition rd_request :: "int \<Rightarrow> u32 \<Rightarrow> ptr \<Rightarrow> ptr \<Rightarrow> request" where
  "rd_request cmd sector bh next =
     \<lparr>rq_dev = 0x101, rq_cmd = cmd, rq_errors = 0, rq_sector = sector, rq_nr_sectors = 2, rq_buffer = 0x5000,
      rq_waiting = NULL, rq_bh = bh, rq_next = next\<rparr>"

definition blk_example :: blk where
  "blk_example = kernel.extend kernel_example
     (blk.fields
       ((\<lambda>r. rd_request READ 0 NULL NULL)(1 := rd_request READ 4 1000 2, 2 := rd_request WRITE 2 2000 NULL,
          3 := rd_request READ 6 3000 NULL))
       (\<lambda>b. \<lparr>b_data = 0x5000, b_blocknr = 1, b_dev = 0x101, b_uptodate = False, b_dirt = True, b_count = 1,
          b_lock = True, b_prev = NULL, b_next = NULL, b_prev_free = NULL, b_next_free = NULL\<rparr>)
       ((\<lambda>_. NULL)(1 := 1)) 500 0x4000 4096)"

lemmas blk_example_defs = blk_example_def kernel.extend_def blk.fields_def rd_request_def

lemma blk_example_queue: "queued blk_example 1 [1, 2]"
  by (simp add: queued_def blk_example_defs)


theorem ramdisk_serves_queue_witness:
  "\<exists>u. do_rd_request blk_example = Some (Ret () u) \<and> rq_dev (requests u 2) = - 1 \<and> \<not> b_lock (bufs u 2000)"
proof -
  have "\<forall>r \<in> set [1, 2]. rd_ready blk_example r" "own_buffers blk_example [1, 2]"
    by (simp_all add: rd_ready_def own_buffers_def MAJOR_def blk_example_defs)
  from ramdisk_serves_queue [OF blk_example_queue this] show ?thesis
    by (auto simp: blk_example_defs)
qed

end
