(* ===== verification/Malloc.thy ===== *)
theory Malloc
  imports MemFrame
begin

text \<open>
  lib/malloc.c: the kernel's allocator. A page (a bucket) holds objects of one size; its descriptor
  keeps the free objects of the page, chained through their first word, and counts the others.

  A descriptor is found by its address in \<open>descs\<close>; the pages of descriptors are never used for
  anything else. \<open>bucket_chain i\<close> is the field \<open>chain\<close> of \<open>bucket_dir[i]\<close>, whose field
  \<open>size\<close> is constant. Interrupts are off where the state changes, so \<open>cli\<close> and \<open>sti\<close>
  are no steps.
\<close>

section \<open>State\<close>

record bucket_desc =
  bd_page :: u32
  bd_next :: u32
  bd_freeptr :: u32
  bd_refcnt :: u16
  bd_bucket_size :: u16

record kmalloc = mm +
  descs :: "u32 \<Rightarrow> bucket_desc"
  bucket_chain :: "nat \<Rightarrow> u32"
  free_bucket_desc :: u32

definition bucket_dir :: "nat list" where
  "bucket_dir = [16, 32, 64, 128, 256, 512, 1024, 2048, 4096]"

definition upd_desc :: "u32 \<Rightarrow> (bucket_desc \<Rightarrow> bucket_desc) \<Rightarrow> 'a kmalloc_scheme \<Rightarrow> 'a kmalloc_scheme" where
  "upd_desc d f s = s\<lparr>descs := (descs s)(d := f (descs s d))\<rparr>"

section \<open>Allocation\<close>

definition find_bucket :: "u32 \<Rightarrow> nat option" where
  "find_bucket len = List.find (\<lambda>i. of_nat (bucket_dir ! i) \<ge> len) [0..<length bucket_dir]"

partial_function (option) find_free_desc :: "u32 \<Rightarrow> 'a kmalloc_scheme \<Rightarrow> u32 option" where
  "find_free_desc d s =
     (if d = 0 then Some 0 else if bd_freeptr (descs s d) \<noteq> 0 then Some d
      else find_free_desc (bd_next (descs s d)) s)"

fun link_descs :: "nat \<Rightarrow> u32 \<Rightarrow> 'a kmalloc_scheme \<Rightarrow> u32 \<times> 'a kmalloc_scheme" where
  "link_descs 0 d s = (d, s)"
| "link_descs (Suc n) d s = link_descs n (d + 16) (upd_desc d (\<lambda>b. b\<lparr>bd_next := d + 16\<rparr>) s)"

text \<open>The page comes cleared from \<open>get_free_page\<close>, and so do the descriptors in it.\<close>

definition clear_descs :: "u32 \<Rightarrow> 'a kmalloc_scheme \<Rightarrow> 'a kmalloc_scheme" where
  "clear_descs p s = s\<lparr>descs := (\<lambda>d. if d - p < 4096 then bucket_desc.make 0 0 0 0 0 else descs s d)\<rparr>"

definition init_bucket_desc :: "'a kmalloc_scheme \<Rightarrow> (unit, 'a kmalloc_scheme) outcome" where
  "init_bucket_desc s =
     (case get_free_page s of (first, s) \<Rightarrow>
        if first = 0 then Panic s
        else (case link_descs 255 first (clear_descs first s) of (bdesc, s) \<Rightarrow>
          Ret () ((upd_desc bdesc (\<lambda>b. b\<lparr>bd_next := free_bucket_desc s\<rparr>) s)\<lparr>free_bucket_desc := first\<rparr>)))"

text \<open>The chain of the \<open>n + 1\<close> objects of a page from \<open>cp\<close> on.\<close>

fun carve :: "nat \<Rightarrow> u32 \<Rightarrow> u32 \<Rightarrow> 'a mm_scheme \<Rightarrow> 'a mm_scheme" where
  "carve 0 sz cp s = write_word cp 0 s"
| "carve (Suc n) sz cp s = carve n sz (cp + sz) (write_word cp (cp + sz) s)"

definition new_bucket :: "nat \<Rightarrow> 'a kmalloc_scheme \<Rightarrow> (u32, 'a kmalloc_scheme) outcome" where
  "new_bucket i s =
     and_then (if free_bucket_desc s = 0 then init_bucket_desc s else Ret () s) (\<lambda>_ s.
       let d = free_bucket_desc s; sz = bucket_dir ! i;
           s = s\<lparr>free_bucket_desc := bd_next (descs s d)\<rparr>;
           s = upd_desc d (\<lambda>b. b\<lparr>bd_refcnt := 0, bd_bucket_size := of_nat sz\<rparr>) s
       in case get_free_page s of (cp, s) \<Rightarrow>
            let s = upd_desc d (\<lambda>b. b\<lparr>bd_page := cp, bd_freeptr := cp\<rparr>) s
            in if cp = 0 then Panic s
               else let s = carve (4096 div sz - 1) (of_nat sz) cp s;
                        s = upd_desc d (\<lambda>b. b\<lparr>bd_next := bucket_chain s i\<rparr>) s
                    in Ret d (s\<lparr>bucket_chain := (bucket_chain s)(i := d)\<rparr>))"

definition take_object :: "u32 \<Rightarrow> 'a kmalloc_scheme \<Rightarrow> u32 \<times> 'a kmalloc_scheme" where
  "take_object d s =
     (let retval = bd_freeptr (descs s d)
      in (retval, upd_desc d (\<lambda>b. b\<lparr>bd_freeptr := mem s retval, bd_refcnt := bd_refcnt b + 1\<rparr>) s))"

definition malloc :: "u32 \<Rightarrow> 'a kmalloc_scheme \<Rightarrow> (u32, 'a kmalloc_scheme) outcome option" where
  "malloc len s =
     (case find_bucket len of
        None \<Rightarrow> Some (Panic s)
      | Some i \<Rightarrow> map_option
          (\<lambda>d. and_then (if d = 0 then new_bucket i s else Ret d s) (\<lambda>d s. case take_object d s of (r, s) \<Rightarrow> Ret r s))
          (find_free_desc (bucket_chain s i) s))"

section \<open>Freeing\<close>

text \<open>The descriptor of \<open>page\<close> on a chain and the one before it; 0 at the end of the chain.\<close>

partial_function (option) find_page_desc :: "u32 \<Rightarrow> u32 \<Rightarrow> u32 \<Rightarrow> 'a kmalloc_scheme \<Rightarrow> (u32 \<times> u32) option" where
  "find_page_desc page prev d s =
     (if d = 0 \<or> bd_page (descs s d) = page then Some (prev, d)
      else find_page_desc page d (bd_next (descs s d)) s)"

fun find_owner :: "nat list \<Rightarrow> u32 \<Rightarrow> int \<Rightarrow> 'a kmalloc_scheme \<Rightarrow> (nat \<times> u32 \<times> u32) option option" where
  "find_owner [] page sz s = Some None"
| "find_owner (i # is) page sz s =
     (if int (bucket_dir ! i) < sz then find_owner is page sz s
      else case find_page_desc page 0 (bucket_chain s i) s of
             None \<Rightarrow> None
           | Some (prev, d) \<Rightarrow> if d \<noteq> 0 then Some (Some (i, prev, d)) else find_owner is page sz s)"

partial_function (option) find_prev :: "u32 \<Rightarrow> u32 \<Rightarrow> 'a kmalloc_scheme \<Rightarrow> u32 option" where
  "find_prev d prev s =
     (if prev = 0 \<or> bd_next (descs s prev) = d then Some prev else find_prev d (bd_next (descs s prev)) s)"

definition put_object :: "u32 \<Rightarrow> u32 \<Rightarrow> 'a kmalloc_scheme \<Rightarrow> 'a kmalloc_scheme" where
  "put_object obj d s =
     (let s = write_word obj (bd_freeptr (descs s d)) s
      in upd_desc d (\<lambda>b. b\<lparr>bd_freeptr := obj, bd_refcnt := bd_refcnt b - 1\<rparr>) s)"

definition release_bucket :: "u32 \<Rightarrow> 'a kmalloc_scheme \<Rightarrow> 'a kmalloc_scheme" where
  "release_bucket d s =
     (let s = free_page (bd_page (descs s d)) s
      in (upd_desc d (\<lambda>b. b\<lparr>bd_next := free_bucket_desc s\<rparr>) s)\<lparr>free_bucket_desc := d\<rparr>)"

definition unchain :: "nat \<Rightarrow> u32 \<Rightarrow> u32 \<Rightarrow> 'a kmalloc_scheme \<Rightarrow> (unit, 'a kmalloc_scheme) outcome option" where
  "unchain i prev d s =
     map_option
       (\<lambda>prev. if prev \<noteq> 0 then Ret () (upd_desc prev (\<lambda>b. b\<lparr>bd_next := bd_next (descs s d)\<rparr>) s)
              else if bucket_chain s i \<noteq> d then Panic s
              else Ret () (s\<lparr>bucket_chain := (bucket_chain s)(i := bd_next (descs s d))\<rparr>))
       (if (prev \<noteq> 0 \<and> bd_next (descs s prev) \<noteq> d) \<or> (prev = 0 \<and> bucket_chain s i \<noteq> d)
        then find_prev d (bucket_chain s i) s else Some prev)"

definition free_s :: "u32 \<Rightarrow> int \<Rightarrow> 'a kmalloc_scheme \<Rightarrow> (unit, 'a kmalloc_scheme) outcome option" where
  "free_s obj sz s =
     (case find_owner [0..<length bucket_dir] (obj AND 0xfffff000) sz s of
        None \<Rightarrow> None
      | Some None \<Rightarrow> Some (Panic s)
      | Some (Some (i, prev, d)) \<Rightarrow>
          let s = put_object obj d s
          in if bd_refcnt (descs s d) \<noteq> 0 then Some (Ret () s)
             else map_option (\<lambda>out. and_then out (\<lambda>_ s. Ret () (release_bucket d s))) (unchain i prev d s))"

section \<open>The shape of the heap\<close>

text \<open>
  Object \<open>k\<close> of a page with objects of size \<open>bucket_dir ! i\<close>; pages are numbered as in \<open>mem_map\<close>.
\<close>

definition per_page :: "nat \<Rightarrow> nat" where "per_page i = 4096 div (bucket_dir ! i)"

definition obj :: "nat \<Rightarrow> nat \<Rightarrow> nat \<Rightarrow> u32" where
  "obj n i k = page_addr n + of_nat (k * bucket_dir ! i)"

abbreviation (input) "bd_nexts s \<equiv> \<lambda>d. bd_next (descs s d)"

text \<open>
  A bucket: descriptor \<open>d\<close> owns page \<open>n\<close>, on which exactly the objects \<open>ks\<close> are free, and they are
  the free list.
\<close>

definition bucket_ok :: "'a kmalloc_scheme \<Rightarrow> nat \<Rightarrow> u32 \<Rightarrow> nat \<Rightarrow> nat list \<Rightarrow> bool" where
  "bucket_ok s i d n ks \<longleftrightarrow> n < PAGING_PAGES \<and> page_addr n < HIGH_MEMORY s \<and> mem_map s n = 1 \<and>
     bd_page (descs s d) = page_addr n \<and> bd_bucket_size (descs s d) = of_nat (bucket_dir ! i) \<and>
     unat (bd_refcnt (descs s d)) + length ks = per_page i \<and> distinct ks \<and> set ks \<subseteq> {..<per_page i} \<and>
     linked (mem s) (bd_freeptr (descs s d)) (map (obj n i) ks)"

definition chains_ok :: "'a kmalloc_scheme \<Rightarrow> (nat \<Rightarrow> u32 list) \<Rightarrow> u32 list \<Rightarrow> bool" where
  "chains_ok s ch fd \<longleftrightarrow>
     (\<forall>i < 9. linked (bd_nexts s) (bucket_chain s i) (ch i) \<and> distinct (ch i) \<and> set (ch i) \<inter> set fd = {}) \<and>
     linked (bd_nexts s) (free_bucket_desc s) fd \<and> distinct fd"

abbreviation (input) "used ch \<equiv> \<Union>i \<in> {..<9 :: nat}. set (ch i)"

definition desc_page :: "'a kmalloc_scheme \<Rightarrow> u32 \<Rightarrow> nat \<Rightarrow> bool" where
  "desc_page s d n \<longleftrightarrow> n < PAGING_PAGES \<and> d - page_addr n < 4096 \<and> mem_map s n \<noteq> 0"

definition kinv :: "'a kmalloc_scheme \<Rightarrow> (nat \<Rightarrow> u32 list) \<Rightarrow> u32 list \<Rightarrow> (u32 \<Rightarrow> nat) \<Rightarrow> (u32 \<Rightarrow> nat list) \<Rightarrow> bool" where
  "kinv s ch fd pg fl \<longleftrightarrow> mm_ok s \<and> chains_ok s ch fd \<and>
     (\<forall>i < 9. \<forall>d \<in> set (ch i). bucket_ok s i d (pg d) (fl d)) \<and> inj_on pg (used ch) \<and>
     (\<forall>d \<in> used ch \<union> set fd. \<exists>n. desc_page s d n \<and> n \<notin> pg ` used ch)"

lemma length_bucket_dir [simp]: "length bucket_dir = 9"
  by (simp add: bucket_dir_def)

lemma less9: "i < 9 \<longleftrightarrow> i \<in> {0, 1, 2, 3, 4, 5, 6, 7, 8 :: nat}"
  by auto

lemma bucket_dir_ok:
  assumes "i < 9"
  shows "per_page i * bucket_dir ! i = 4096" "16 \<le> bucket_dir ! i" "bucket_dir ! i \<le> 4096" "0 < per_page i" "per_page i \<le> 256"
  using assms unfolding less9 by (auto simp: bucket_dir_def per_page_def)

lemma bucket_dir_inj:
  assumes "i < 9" "j < 9" "(of_nat (bucket_dir ! i) :: u16) = of_nat (bucket_dir ! j)"
  shows "i = j"
  using assms unfolding less9 by (auto simp: bucket_dir_def)

lemma unat_obj:
  assumes "n < PAGING_PAGES" "i < 9" "k < per_page i"
  shows "unat (obj n i k) = 0x100000 + 4096 * n + k * bucket_dir ! i" "k * bucket_dir ! i + bucket_dir ! i \<le> 4096"
proof -
  have "(k + 1) * bucket_dir ! i \<le> per_page i * bucket_dir ! i"
    using assms(3) by (intro mult_le_mono1) simp
  then show k: "k * bucket_dir ! i + bucket_dir ! i \<le> 4096"
    using bucket_dir_ok [OF assms(2)] by simp
  have "unat (of_nat (k * bucket_dir ! i) :: u32) = k * bucket_dir ! i"
    using k unfolding unat_of_nat by (intro mod_less) simp
  then show "unat (obj n i k) = 0x100000 + 4096 * n + k * bucket_dir ! i"
    using k assms(1) bucket_dir_ok(2) [OF assms(2)] unat_page_addr [OF assms(1)]
    by (simp add: obj_def unat_word_ariths mm_consts)
qed

lemma unat_page_of: "unat (x AND 0xfffff000) = unat x div 4096 * 4096" for x :: u32
proof -
  have "0xfffff000 = (NOT (mask 12) :: u32)"
    by (simp add: mask_eq_exp_minus_1)
  then have "x AND 0xfffff000 = x AND NOT (mask 12)"
    by (simp only:)
  also have "\<dots> = push_bit 12 (drop_bit 12 x)"
    by (rule bit_word_eqI) (auto simp: bit_simps)
  finally have "unat (x AND 0xfffff000) = unat x div 4096 mod 2 ^ 32 * 4096 mod 2 ^ 32"
    by (simp add: push_bit_eq_mult drop_bit_eq_div unat_word_ariths unat_div)
  moreover have "unat x div 4096 * 4096 < 2 ^ 32"
    using unat32_bound [of x] div_times_less_eq_dividend [of "unat x" 4096] by (rule le_less_trans [rotated])
  ultimately show ?thesis
    by simp
qed

lemma obj_page:
  assumes "n < PAGING_PAGES" "i < 9" "k < per_page i"
  shows "obj n i k AND 0xfffff000 = page_addr n"
proof -
  have "unat (obj n i k) div 4096 = 256 + n"
    using unat_obj [OF assms] bucket_dir_ok(2) [OF assms(2)] by simp
  then have "unat (obj n i k AND 0xfffff000) = unat (page_addr n)"
    unfolding unat_page_of using unat_page_addr [OF assms(1)] by simp
  then show ?thesis
    by (simp only: word_unat_eq_iff)
qed

lemma page_addr_inj: "m < PAGING_PAGES \<Longrightarrow> n < PAGING_PAGES \<Longrightarrow> page_addr m = page_addr n \<longleftrightarrow> m = n"
  by (metis MAP_NR_page_addr)

lemma obj_inj:
  assumes "m < PAGING_PAGES" "n < PAGING_PAGES" "i < 9" "j < 9" "k < per_page i" "l < per_page j" "obj m i k = obj n j l"
  shows "m = n" "i = j \<Longrightarrow> k = l"
proof -
  show m: "m = n"
    using obj_page [of m i k] obj_page [of n j l] assms page_addr_inj by metis
  have "k * bucket_dir ! i = l * bucket_dir ! j"
    using unat_obj(1) [of m i k] unat_obj(1) [of n j l] assms m by simp
  then show "i = j \<Longrightarrow> k = l"
    using bucket_dir_ok(2) [OF assms(3)] by auto
qed

lemma obj_nonzero: "n < PAGING_PAGES \<Longrightarrow> i < 9 \<Longrightarrow> k < per_page i \<Longrightarrow> obj n i k \<noteq> 0"
  using unat_obj(1) [of n i k] by auto


section \<open>One bucket changes\<close>

lemma bucket_ok_cong:
  assumes "(descs u d)\<lparr>bd_next := 0\<rparr> = (descs s d)\<lparr>bd_next := 0\<rparr>" "HIGH_MEMORY u = HIGH_MEMORY s"
    "mem_map u n = mem_map s n" "\<And>k. k \<in> set ks \<Longrightarrow> mem u (obj n i k) = mem s (obj n i k)"
  shows "bucket_ok u i d n ks = bucket_ok s i d n ks"
proof -
  have "linked (mem u) p (map (obj n i) ks) = linked (mem s) p (map (obj n i) ks)" for p
    using assms(4) by (intro linked_cong) auto
  moreover have "bd_page (descs u d) = bd_page (descs s d)" "bd_bucket_size (descs u d) = bd_bucket_size (descs s d)"
    "bd_refcnt (descs u d) = bd_refcnt (descs s d)" "bd_freeptr (descs u d) = bd_freeptr (descs s d)"
    using assms(1) by (cases "descs u d"; cases "descs s d"; simp)+
  ultimately show ?thesis
    by (simp add: bucket_ok_def assms(2,3))
qed

lemma chains_ok_cong:
  "bd_nexts u = bd_nexts s \<Longrightarrow> bucket_chain u = bucket_chain s \<Longrightarrow> free_bucket_desc u = free_bucket_desc s \<Longrightarrow>
   chains_ok u ch fd = chains_ok s ch fd"
  by (simp add: chains_ok_def)

lemma kinv_bucket:
  assumes "kinv s ch fd pg fl" "i < 9" "d \<in> set (ch i)"
  shows "bucket_ok s i d (pg d) (fl d)"
  using assms by (simp add: kinv_def)

lemma chain_unique:
  assumes "kinv s ch fd pg fl" "i < 9" "j < 9" "d \<in> set (ch i)" "d \<in> set (ch j)"
  shows "i = j"
  using kinv_bucket [OF assms(1,2,4)] kinv_bucket [OF assms(1,3,5)] assms(2,3)
  by (intro bucket_dir_inj) (auto simp: bucket_ok_def)

lemma other_page:
  assumes "kinv s ch fd pg fl" "i < 9" "j < 9" "d \<in> set (ch i)" "e \<in> set (ch j)" "d \<noteq> e"
  shows "pg d \<noteq> pg e"
proof -
  have "inj_on pg (used ch)" "d \<in> used ch" "e \<in> used ch"
    using assms by (auto simp: kinv_def)
  then show ?thesis
    using assms(6) by (simp add: inj_on_eq_iff)
qed

lemma kinv_change:
  assumes inv: "kinv s ch fd pg fl" "i < 9" "d \<in> set (ch i)"
    and same: "bucket_chain u = bucket_chain s" "free_bucket_desc u = free_bucket_desc s" "mem_map u = mem_map s"
      "HIGH_MEMORY u = HIGH_MEMORY s" "descs u = (descs s)(d := b)" "bd_next b = bd_next (descs s d)"
    and mem: "\<And>x. mem u x \<noteq> mem s x \<Longrightarrow> x \<in> obj (pg d) i ` {..<per_page i}"
    and ok: "bucket_ok u i d (pg d) ks"
  shows "kinv u ch fd pg (fl(d := ks))"
proof -
  have "bucket_ok u j e (pg e) (fl e)" if e: "j < 9" "e \<in> set (ch j)" "e \<noteq> d" for j e
  proof -
    have e_ok: "bucket_ok s j e (pg e) (fl e)" and d_ok: "bucket_ok s i d (pg d) (fl d)"
      using kinv_bucket [OF inv(1)] inv(2,3) e by blast+
    have pg: "pg d \<noteq> pg e"
      using other_page [OF inv(1,2) e(1) inv(3) e(2)] e(3) by blast
    have "mem u (obj (pg e) j k) = mem s (obj (pg e) j k)" if k: "k \<in> set (fl e)" for k
    proof (rule ccontr)
      assume "mem u (obj (pg e) j k) \<noteq> mem s (obj (pg e) j k)"
      then obtain l where "l < per_page i" "obj (pg e) j k = obj (pg d) i l"
        using mem by blast
      moreover have "k < per_page j"
        using e_ok k by (auto simp: bucket_ok_def)
      ultimately show False
        using obj_inj(1) [of "pg e" "pg d" j i k l] e_ok d_ok e(1) inv(2) pg by (auto simp: bucket_ok_def)
    qed
    then have "bucket_ok u j e (pg e) (fl e) = bucket_ok s j e (pg e) (fl e)"
      using e(3) same by (intro bucket_ok_cong) simp_all
    with e_ok show ?thesis
      by simp
  qed
  moreover have "j = i" if "j < 9" "d \<in> set (ch j)" for j
    using chain_unique [OF inv(1) that(1) inv(2) that(2) inv(3)] .
  ultimately have "\<forall>j < 9. \<forall>e \<in> set (ch j). bucket_ok u j e (pg e) ((fl(d := ks)) e)"
    using ok by (metis fun_upd_apply)
  moreover have "chains_ok u ch fd = chains_ok s ch fd"
    using same by (intro chains_ok_cong) auto
  moreover have "desc_page u e n = desc_page s e n" for e n
    by (simp add: desc_page_def same)
  moreover have "mm_ok u = mm_ok s"
    by (simp add: mm_ok_def same)
  ultimately show ?thesis
    using inv(1) by (simp add: kinv_def)
qed

lemma take_object_ok:
  assumes inv: "kinv s ch fd pg fl" "i < 9" "d \<in> set (ch i)" "fl d = k # ks"
  obtains u where "take_object d s = (obj (pg d) i k, u)" "kinv u ch fd pg (fl(d := ks))" "mem_map u = mem_map s"
    "k < per_page i" "k \<notin> set ks"
proof -
  have ok: "bucket_ok s i d (pg d) (k # ks)"
    using kinv_bucket [OF inv(1-3)] inv(4) by simp
  then have p: "bd_freeptr (descs s d) = obj (pg d) i k"
    "linked (mem s) (mem s (obj (pg d) i k)) (map (obj (pg d) i) ks)"
    by (simp_all add: bucket_ok_def)
  let ?b = "(descs s d)\<lparr>bd_freeptr := mem s (obj (pg d) i k), bd_refcnt := bd_refcnt (descs s d) + 1\<rparr>"
  let ?u = "s\<lparr>descs := (descs s)(d := ?b)\<rparr>"
  have "unat (bd_refcnt (descs s d)) + 1 \<le> 256"
    using ok bucket_dir_ok(5) [OF inv(2)] by (simp add: bucket_ok_def)
  then have "unat (bd_refcnt (descs s d) + 1) = unat (bd_refcnt (descs s d)) + 1"
    by (simp add: unat_word_ariths)
  then have "bucket_ok ?u i d (pg d) ks"
    using ok p(2) by (simp add: bucket_ok_def)
  then have "kinv ?u ch fd pg (fl(d := ks))"
    by (rule kinv_change [OF inv(1-3), where b = ?b, rotated -1]) simp_all
  moreover have "take_object d s = (obj (pg d) i k, ?u)"
    by (simp add: take_object_def upd_desc_def p(1) Let_def)
  ultimately show thesis
    using ok that by (auto simp: bucket_ok_def)
qed

lemma put_object_ok:
  assumes inv: "kinv s ch fd pg fl" "i < 9" "d \<in> set (ch i)" "k < per_page i" "k \<notin> set (fl d)"
  shows "kinv (put_object (obj (pg d) i k) d s) ch fd pg (fl(d := k # fl d))"
proof -
  have ok: "bucket_ok s i d (pg d) (fl d)"
    using kinv_bucket [OF inv(1-3)] .
  let ?o = "obj (pg d) i k"
  let ?b = "(descs s d)\<lparr>bd_freeptr := ?o, bd_refcnt := bd_refcnt (descs s d) - 1\<rparr>"
  let ?u = "(write_word ?o (bd_freeptr (descs s d)) s)\<lparr>descs := (descs s)(d := ?b)\<rparr>"
  have "length (fl d) = card (set (fl d))"
    using ok by (simp add: bucket_ok_def distinct_card)
  also have "\<dots> < card {..<per_page i}"
    using ok inv(4,5) by (intro psubset_card_mono) (auto simp: bucket_ok_def)
  finally have "bd_refcnt (descs s d) \<noteq> 0"
    using ok by (auto simp: bucket_ok_def)
  then have "unat (bd_refcnt (descs s d) - 1) + 1 = unat (bd_refcnt (descs s d))"
    by (simp add: unat_minus_one unat_gt_0)
  moreover have "?o \<notin> obj (pg d) i ` set (fl d)"
    using obj_inj(2) [of "pg d" "pg d" i i k] inv ok by (auto simp: bucket_ok_def)
  moreover have "?o \<noteq> 0"
    using ok inv by (intro obj_nonzero) (auto simp: bucket_ok_def)
  ultimately have "bucket_ok ?u i d (pg d) (k # fl d)"
    using ok inv by (simp add: bucket_ok_def write_word_def linked_upd)
  then have "kinv ?u ch fd pg (fl(d := k # fl d))"
    using inv(4) by (intro kinv_change [OF inv(1-3), where b = ?b]) (auto simp: write_word_def split: if_splits)
  then show ?thesis
    by (simp add: put_object_def upd_desc_def write_word_def)
qed


section \<open>A bucket is released\<close>

text \<open>The descriptor \<open>d\<close> leaves its chain for the list of free ones.\<close>

lemma chains_ok_release:
  assumes ok: "chains_ok s ch fd" "i < 9" "ch i = ys @ d # zs" "\<And>j. j < 9 \<Longrightarrow> j \<noteq> i \<Longrightarrow> set (ch j) \<inter> set (ch i) = {}"
    and w: "bucket_chain w = (if ys = [] then (bucket_chain s)(i := bd_next (descs s d)) else bucket_chain s)"
      "free_bucket_desc w = d"
      "bd_nexts w = (if ys = [] then bd_nexts s else (bd_nexts s)(last ys := bd_next (descs s d)))(d := free_bucket_desc s)"
  shows "chains_ok w (ch(i := ys @ zs)) (d # fd)"
proof -
  have i: "linked (bd_nexts s) (bucket_chain s i) (ys @ d # zs)" "distinct (ys @ d # zs)"
    "set (ys @ d # zs) \<inter> set fd = {}" "distinct fd" "linked (bd_nexts s) (free_bucket_desc s) fd"
    unfolding ok(3) [symmetric] using ok(1,2) by (simp_all add: chains_ok_def)
  note r = linked_remove [OF i(1,2)]
  have d: "d \<noteq> 0"
    using linked_nonzero [OF i(1)] by simp
  have "linked (bd_nexts w) (bucket_chain w i) (ys @ zs)"
    using r i(2) by (cases "ys = []") (simp_all add: w linked_upd)
  moreover have "linked (bd_nexts w) (bucket_chain w j) (ch j) \<and> distinct (ch j) \<and> set (ch j) \<inter> set (d # fd) = {}"
    if j: "j < 9" "j \<noteq> i" for j
  proof -
    have "d \<notin> set (ch j)" "ys \<noteq> [] \<Longrightarrow> last ys \<notin> set (ch j)"
      using ok(3,4) j by force+
    moreover have "linked (bd_nexts s) (bucket_chain s j) (ch j)" "distinct (ch j)" "set (ch j) \<inter> set fd = {}"
      using ok(1) j by (auto simp: chains_ok_def)
    ultimately show ?thesis
      using j by (cases "ys = []") (simp_all add: w linked_upd)
  qed
  moreover have "linked (bd_nexts w) (free_bucket_desc w) (d # fd)"
  proof -
    have "ys \<noteq> [] \<Longrightarrow> last ys \<notin> set fd" "d \<notin> set fd"
      using i(3) by force+
    then show ?thesis
      using i(5) d by (cases "ys = []") (simp_all add: w linked_upd)
  qed
  ultimately show ?thesis
    using i by (auto simp: chains_ok_def)
qed

lemma used_upd: "i < 9 \<Longrightarrow> used (ch(i := xs)) = set xs \<union> (\<Union>j \<in> {..<9} - {i}. set (ch j))"
  by (auto split: if_splits)

lemma used_split: "i < 9 \<Longrightarrow> used ch = set (ch i) \<union> (\<Union>j \<in> {..<9} - {i}. set (ch j))"
  using used_upd [of i ch "ch i"] by simp

lemma kinv_release:
  assumes inv: "kinv s ch fd pg fl" "i < 9" "ch i = ys @ d # zs"
    and w: "chains_ok w (ch(i := ys @ zs)) (d # fd)" "mem w = mem s" "HIGH_MEMORY w = HIGH_MEMORY s"
      "mem_map w = (mem_map s)(pg d := 0)" "\<And>e. (descs w e)\<lparr>bd_next := 0\<rparr> = (descs s e)\<lparr>bd_next := 0\<rparr>"
  shows "kinv w (ch(i := ys @ zs)) (d # fd) pg fl"
proof -
  let ?ch = "ch(i := ys @ zs)"
  have d: "d \<in> set (ch i)" "bucket_ok s i d (pg d) (fl d)"
    using kinv_bucket [OF inv(1,2)] inv(3) by auto
  have "used ch = insert d (used ?ch)"
    unfolding used_split [OF inv(2), of ch] used_upd [OF inv(2)] inv(3) by simp
  moreover have "d \<notin> used ?ch"
  proof
    assume "d \<in> used ?ch"
    then obtain j where j: "j < 9" "d \<in> set (?ch j)"
      by auto
    moreover have "distinct (ys @ d # zs)"
      unfolding inv(3) [symmetric] using inv(1,2) by (simp add: kinv_def chains_ok_def)
    ultimately have "j \<noteq> i" "d \<in> set (ch j)"
      by (auto split: if_splits)
    with j(1) show False
      using chain_unique [OF inv(1) _ inv(2) _ d(1)] by blast
  qed
  moreover have "inj_on pg (used ch)"
    using inv(1) by (simp add: kinv_def)
  ultimately have used: "used ?ch \<subseteq> used ch" "inj_on pg (used ?ch)" "pg d \<notin> pg ` used ?ch"
    by (auto simp: inj_on_insert)
  have "bucket_ok w j e (pg e) (fl e)" if e: "j < 9" "e \<in> set (?ch j)" for j e
  proof -
    have "e \<in> used ?ch"
      using e by blast
    then have "pg e \<noteq> pg d"
      using used(3) by (metis imageI)
    moreover have "bucket_ok s j e (pg e) (fl e)"
      using e inv(3) kinv_bucket [OF inv(1)] by (auto split: if_splits)
    ultimately show ?thesis
      using w by (subst bucket_ok_cong [of w e s]) simp_all
  qed
  moreover have "\<exists>n. desc_page w e n \<and> n \<notin> pg ` used ?ch" if e: "e \<in> used ?ch \<union> set (d # fd)" for e
  proof -
    have "e \<in> used ch \<union> set fd"
      using e used(1) d(1) inv(2) by auto
    then obtain n where n: "desc_page s e n" "n \<notin> pg ` used ch"
      using inv(1) unfolding kinv_def by blast
    then have "n \<noteq> pg d"
      using d(1) inv(2) by blast
    then have "desc_page w e n"
      using n(1) by (simp add: desc_page_def w(4))
    moreover have "n \<notin> pg ` used ?ch"
      using n(2) used(1) by blast
    ultimately show ?thesis
      by blast
  qed
  moreover have "mm_ok w"
    using inv(1) d(2) by (auto simp: kinv_def mm_ok_def w(3,4) bucket_ok_def)
  ultimately show ?thesis
    using w(1) used(2) by (simp add: kinv_def)
qed

text \<open>The search through a chain finds the descriptor of a page and the one before it.\<close>

lemma find_page_desc_ok:
  assumes "linked (bd_nexts s) c (ys @ d # zs)" "\<And>e. e \<in> set ys \<Longrightarrow> bd_page (descs s e) \<noteq> page" "bd_page (descs s d) = page"
  shows "find_page_desc page p c s = Some (last (p # ys), d)"
  using assms
proof (induction ys arbitrary: c p)
  case Nil
  then show ?case
    by (subst find_page_desc.simps) simp
next
  case (Cons y ys)
  then show ?case
    by (subst find_page_desc.simps) auto
qed

lemma find_page_desc_none:
  assumes "linked (bd_nexts s) c ys" "\<And>e. e \<in> set ys \<Longrightarrow> bd_page (descs s e) \<noteq> page"
  shows "find_page_desc page p c s = Some (last (p # ys), 0)"
  using assms
proof (induction ys arbitrary: c p)
  case Nil
  then show ?case
    by (subst find_page_desc.simps) simp
next
  case (Cons y ys)
  then show ?case
    by (subst find_page_desc.simps) auto
qed

lemma find_free_desc_ok:
  assumes "linked (bd_nexts s) c ys"
  shows "find_free_desc c s = Some (case List.find (\<lambda>d. bd_freeptr (descs s d) \<noteq> 0) ys of None \<Rightarrow> 0 | Some d \<Rightarrow> d)"
  using assms
proof (induction ys arbitrary: c)
  case Nil
  then show ?case
    by (subst find_free_desc.simps) simp
next
  case (Cons y ys)
  then show ?case
    by (subst find_free_desc.simps) auto
qed


section \<open>A bucket is added\<close>

lemma page_addr_range:
  assumes "n < PAGING_PAGES" "x - page_addr n < 4096"
  shows "x AND 0xfffff000 = page_addr n"
proof -
  have b: "unat (x - page_addr n) < 4096"
    using assms(2) by (simp add: word_less_nat_alt)
  have "unat x = (unat (page_addr n) + unat (x - page_addr n)) mod 2 ^ 32"
    using unat_word_ariths(1) [of "page_addr n" "x - page_addr n"] by simp
  then have "unat x = 0x100000 + 4096 * n + unat (x - page_addr n)"
    using b assms(1) unat_page_addr [OF assms(1)] by (simp add: mm_consts)
  then have "unat x div 4096 = 256 + n"
    using b by simp
  then have "unat (x AND 0xfffff000) = unat (page_addr n)"
    unfolding unat_page_of using unat_page_addr [OF assms(1)] by simp
  then show ?thesis
    by (simp only: word_unat_eq_iff)
qed

lemma one_page:
  "m < PAGING_PAGES \<Longrightarrow> n < PAGING_PAGES \<Longrightarrow> x - page_addr m < 4096 \<Longrightarrow> x - page_addr n < 4096 \<Longrightarrow> m = n"
  using page_addr_range [of m x] page_addr_range [of n x] page_addr_inj by metis

lemma obj_Suc: "obj n i k + of_nat (bucket_dir ! i) = obj n i (Suc k)"
  by (simp add: obj_def algebra_simps)

text \<open>The objects from \<open>k\<close> on are chained, and nothing else is written.\<close>

lemma carve_ok:
  assumes "n < PAGING_PAGES" "i < 9" "k + m + 1 = per_page i"
  shows "linked (mem (carve m (of_nat (bucket_dir ! i)) (obj n i k) s)) (obj n i k) (map (obj n i) [k..<per_page i]) \<and>
    (\<exists>M. carve m (of_nat (bucket_dir ! i)) (obj n i k) s = s\<lparr>mem := M\<rparr> \<and> (\<forall>x. M x \<noteq> mem s x \<longrightarrow> x \<in> obj n i ` {k..<per_page i}))"
  using assms
proof (induction m arbitrary: k s)
  case 0
  then have "[k..<per_page i] = [k]" "{k..<per_page i} = {k}" "obj n i k \<noteq> 0"
    by (auto simp: upt_conv_Cons obj_nonzero)
  then show ?case
    by (auto simp: write_word_def intro!: exI [of _ "(mem s)(obj n i k := 0)"])
next
  case (Suc m)
  let ?s = "write_word (obj n i k) (obj n i (Suc k)) s"
  let ?w = "carve m (of_nat (bucket_dir ! i)) (obj n i (Suc k)) ?s"
  have k: "k < per_page i" "Suc k + m + 1 = per_page i" "[k..<per_page i] = k # [Suc k..<per_page i]"
    using Suc.prems by (simp_all add: upt_conv_Cons)
  from Suc.IH [OF Suc.prems(1,2) k(2), of ?s]
  have l: "linked (mem ?w) (obj n i (Suc k)) (map (obj n i) [Suc k..<per_page i])"
    and "\<exists>M. ?w = ?s\<lparr>mem := M\<rparr> \<and> (\<forall>x. M x \<noteq> mem ?s x \<longrightarrow> x \<in> obj n i ` {Suc k..<per_page i})"
    by blast+
  then obtain M where M: "?w = ?s\<lparr>mem := M\<rparr>" "\<And>x. M x \<noteq> mem ?s x \<Longrightarrow> x \<in> obj n i ` {Suc k..<per_page i}"
    by blast
  have "obj n i k \<noteq> obj n i l" if "l \<in> {Suc k..<per_page i}" for l
    using obj_inj(2) [of n n i i k l] Suc.prems(1,2) k(1) that by fastforce
  then have "obj n i k \<notin> obj n i ` {Suc k..<per_page i}"
    by blast
  then have "M (obj n i k) = obj n i (Suc k)"
    using M(2) [of "obj n i k"] by (auto simp: write_word_def)
  moreover have "obj n i k \<noteq> 0"
    using Suc.prems(1,2) k(1) by (rule obj_nonzero)
  ultimately have "linked (mem ?w) (obj n i k) (map (obj n i) [k..<per_page i])"
    using l by (simp add: k(3) M(1))
  moreover have "x \<in> obj n i ` {k..<per_page i}" if "M x \<noteq> mem s x" for x
  proof (cases "x = obj n i k")
    case False
    then have "x \<in> obj n i ` {Suc k..<per_page i}"
      using M(2) [of x] that by (simp add: write_word_def)
    then show ?thesis
      by auto
  qed (use k(1) in auto)
  moreover have "?w = s\<lparr>mem := M\<rparr>"
    unfolding M(1) by (simp add: write_word_def)
  ultimately show ?case
    by (simp add: obj_Suc) blast
qed

lemma chains_ok_add:
  assumes ok: "chains_ok s ch (d # fd)" "i < 9" "\<And>j. j < 9 \<Longrightarrow> d \<notin> set (ch j)"
    and w: "bucket_chain w = (bucket_chain s)(i := d)" "free_bucket_desc w = bd_next (descs s d)"
      "bd_nexts w = (bd_nexts s)(d := bucket_chain s i)"
  shows "chains_ok w (ch(i := d # ch i)) fd"
proof -
  have "linked (bd_nexts w) (bucket_chain w j) ((ch(i := d # ch i)) j)" if "j < 9" for j
    using ok that by (auto simp: chains_ok_def w linked_upd)
  moreover have "distinct ((ch(i := d # ch i)) j)" "set ((ch(i := d # ch i)) j) \<inter> set fd = {}" if "j < 9" for j
    using ok that by (auto simp: chains_ok_def)
  moreover have "linked (bd_nexts w) (free_bucket_desc w) fd" "distinct fd"
    using ok(1) by (auto simp: chains_ok_def w linked_upd)
  ultimately show ?thesis
    by (simp add: chains_ok_def)
qed

text \<open>A bucket does not notice what is written in another page.\<close>

lemma bucket_ok_other:
  assumes "bucket_ok s i d m ks" "i < 9" "n < PAGING_PAGES" "m \<noteq> n" "\<And>x. mem w x \<noteq> mem s x \<Longrightarrow> x - page_addr n < 4096"
    "descs w d = descs s d" "HIGH_MEMORY w = HIGH_MEMORY s" "mem_map w m = mem_map s m"
  shows "bucket_ok w i d m ks"
proof -
  have "mem w (obj m i k) = mem s (obj m i k)" if "k \<in> set ks" for k
  proof -
    have "k < per_page i" "m < PAGING_PAGES"
      using assms(1) that by (auto simp: bucket_ok_def)
    then have "obj m i k AND 0xfffff000 = page_addr m" "page_addr m \<noteq> page_addr n"
      using obj_page assms(2-4) page_addr_inj by blast+
    then show ?thesis
      using assms(5) page_addr_range [OF assms(3)] by metis
  qed
  then have "bucket_ok w i d m ks = bucket_ok s i d m ks"
    using assms(6-8) by (intro bucket_ok_cong) simp_all
  with assms(1) show ?thesis
    by simp
qed

lemma kinv_add:
  assumes inv: "kinv s ch (d # fd) pg fl" "i < 9" and n: "n < PAGING_PAGES" "mem_map s n = 0"
    and w: "bucket_chain w = (bucket_chain s)(i := d)" "free_bucket_desc w = bd_next (descs s d)"
      "descs w = (descs s)(d := b)" "bd_next b = bucket_chain s i" "HIGH_MEMORY w = HIGH_MEMORY s"
      "mem_map w = (mem_map s)(n := 1)" "\<And>x. mem w x \<noteq> mem s x \<Longrightarrow> x - page_addr n < 4096"
      "bucket_ok w i d n ks"
  shows "kinv w (ch(i := d # ch i)) fd (pg(d := n)) (fl(d := ks))"
proof -
  let ?ch = "ch(i := d # ch i)"
  have c: "chains_ok s ch (d # fd)"
    using inv(1) by (simp add: kinv_def)
  then have d: "d \<notin> set (ch j)" if "j < 9" for j
    using that by (auto simp: chains_ok_def)
  have used: "used ?ch = insert d (used ch)"
    unfolding used_upd [OF inv(2)] used_split [OF inv(2), of ch] by simp
  have "chains_ok w ?ch fd"
    using w(1,2) by (intro chains_ok_add [OF c inv(2) d]) (auto simp: w(3,4))
  moreover have old: "bucket_ok w j e (pg e) (fl e) \<and> pg e \<noteq> n" if e: "j < 9" "e \<in> set (ch j)" for j e
  proof -
    have ok: "bucket_ok s j e (pg e) (fl e)"
      using kinv_bucket [OF inv(1) e] .
    then have "pg e \<noteq> n"
      using n(2) by (auto simp: bucket_ok_def)
    moreover have "e \<noteq> d"
      using d e by blast
    ultimately show ?thesis
      by (intro conjI bucket_ok_other [OF ok e(1) n(1) _ w(7)]) (simp_all add: w(3,5,6))
  qed
  have "bucket_ok w j e ((pg(d := n)) e) ((fl(d := ks)) e)" if e: "j < 9" "e \<in> set (?ch j)" for j e
    using old [of j e] w(8) d [of j] e by (cases "e = d"; cases "j = i") auto
  moreover have "inj_on (pg(d := n)) (used ?ch)"
  proof -
    have "d \<notin> used ch"
      using d by blast
    moreover have "n \<notin> pg ` used ch"
      using old by blast
    ultimately show ?thesis
      using inv(1) unfolding used kinv_def by (auto simp: inj_on_def)
  qed
  moreover have "\<exists>m. desc_page w e m \<and> m \<notin> (pg(d := n)) ` used ?ch" if e: "e \<in> used ?ch \<union> set fd" for e
  proof -
    have "e \<in> used ch \<union> set (d # fd)"
      using e used by auto
    then obtain m where m: "desc_page s e m" "m \<notin> pg ` used ch"
      using inv(1) unfolding kinv_def by blast
    then have "m \<noteq> n"
      using n(2) by (auto simp: desc_page_def)
    then have "desc_page w e m" "m \<notin> (pg(d := n)) ` used ?ch"
      using m unfolding used by (auto simp: desc_page_def w(6) split: if_splits)
    then show ?thesis
      by blast
  qed
  moreover have "mm_ok w"
    using inv(1) by (auto simp: kinv_def mm_ok_def w(5,6) split: if_splits)
  ultimately show ?thesis
    unfolding kinv_def by blast
qed


definition free_pages :: "'a mm_scheme \<Rightarrow> nat" where
  "free_pages s = card {n. n < PAGING_PAGES \<and> mem_map s n = 0}"

lemma free_pages_alloc:
  assumes "n < PAGING_PAGES" "mem_map s n = 0" "mem_map u = (mem_map s)(n := 1)"
  shows "free_pages s = Suc (free_pages u)"
proof -
  have "{m. m < PAGING_PAGES \<and> mem_map s m = 0} = insert n {m. m < PAGING_PAGES \<and> mem_map u m = 0}"
    "n \<notin> {m. m < PAGING_PAGES \<and> mem_map u m = 0}"
    using assms by auto
  then show ?thesis
    by (simp add: free_pages_def)
qed

lemma page_free_pages: "mm_ok s \<Longrightarrow> 0 < free_pages s \<Longrightarrow> page_free s"
  unfolding free_pages_def page_free_def by (auto simp: card_gt_0_iff)

lemma link_descs_ok:
  "link_descs m e s = (e + of_nat (16 * m), s\<lparr>descs := (\<lambda>d. if \<exists>j < m. d = e + of_nat (16 * j)
     then (descs s d)\<lparr>bd_next := d + 16\<rparr> else descs s d)\<rparr>)"
proof (induction m arbitrary: e s)
  case (Suc m)
  let ?t = "upd_desc e (\<lambda>b. b\<lparr>bd_next := e + 16\<rparr>) s"
  have ex: "(\<exists>j < Suc m. d = e + of_nat (16 * j)) \<longleftrightarrow> d = e \<or> (\<exists>j < m. d = e + 16 + of_nat (16 * j))" for d
    by (simp add: Ex_less_Suc2 add.assoc)
  have "link_descs (Suc m) e s = (e + 16 + of_nat (16 * m), ?t\<lparr>descs := (\<lambda>d. if \<exists>j < m. d = e + 16 + of_nat (16 * j)
      then (descs ?t d)\<lparr>bd_next := d + 16\<rparr> else descs ?t d)\<rparr>)"
    by (simp only: link_descs.simps Suc.IH)
  moreover have "(\<lambda>d. if \<exists>j < m. d = e + 16 + of_nat (16 * j) then (descs ?t d)\<lparr>bd_next := d + 16\<rparr> else descs ?t d) =
    (\<lambda>d. if \<exists>j < Suc m. d = e + of_nat (16 * j) then (descs s d)\<lparr>bd_next := d + 16\<rparr> else descs s d)"
    unfolding ex by (rule ext) (auto simp: upd_desc_def)
  moreover have "?t\<lparr>descs := D\<rparr> = s\<lparr>descs := D\<rparr>" for D
    by (simp add: upd_desc_def)
  moreover have "e + 16 + of_nat (16 * m) = e + of_nat (16 * Suc m)"
    by simp
  ultimately show ?case
    by (simp only:)
qed simp

lemma linked_map:
  "k \<le> n \<Longrightarrow> (\<And>j. k \<le> j \<Longrightarrow> j < n \<Longrightarrow> N (a j) = a (Suc j)) \<Longrightarrow> N (a n) = 0 \<Longrightarrow> (\<And>j. k \<le> j \<Longrightarrow> j \<le> n \<Longrightarrow> a j \<noteq> 0) \<Longrightarrow>
   linked N (a k) (map a [k..<Suc n])"
proof (induction "n - k" arbitrary: k)
  case 0
  then show ?case
    by (simp add: upt_conv_Cons)
next
  case (Suc m)
  from Suc(1) [of "Suc k"] Suc(2-) show ?case
    by (simp add: upt_conv_Cons del: upt_Suc)
qed

lemma kinv_init:
  assumes inv: "kinv s ch [] pg fl" and n: "n < PAGING_PAGES" "mem_map s n = 0"
    and u: "bucket_chain u = bucket_chain s" "HIGH_MEMORY u = HIGH_MEMORY s" "mem_map u = (mem_map s)(n := 1)"
      "\<And>x. mem u x \<noteq> mem s x \<Longrightarrow> x - page_addr n < 4096"
      "\<And>d. \<not> d - page_addr n < 4096 \<Longrightarrow> descs u d = descs s d"
      "linked (bd_nexts u) (free_bucket_desc u) fd" "distinct fd" "\<And>d. d \<in> set fd \<Longrightarrow> d - page_addr n < 4096"
  shows "kinv u ch fd pg fl"
proof -
  have old: "descs u d = descs s d" "d \<notin> set fd" if d: "d \<in> used ch" for d
  proof -
    obtain m where "desc_page s d m"
      using inv d unfolding kinv_def by blast
    then have "\<not> d - page_addr n < 4096"
      using n(2) one_page [OF n(1), of m d] by (auto simp: desc_page_def)
    then show "descs u d = descs s d" "d \<notin> set fd"
      using u(5,8) by blast+
  qed
  have "linked (bd_nexts u) (bucket_chain u i) (ch i)" if i: "i < 9" for i
  proof -
    have "bd_nexts u d = bd_nexts s d" if "d \<in> set (ch i)" for d
      using old(1) [of d] i that by (metis UN_I lessThan_iff)
    then have "linked (bd_nexts u) (bucket_chain s i) (ch i) = linked (bd_nexts s) (bucket_chain s i) (ch i)"
      by (rule linked_cong)
    then show ?thesis
      using inv i by (simp add: kinv_def chains_ok_def u(1))
  qed
  moreover have "distinct (ch i)" "set (ch i) \<inter> set fd = {}" if "i < 9" for i
    using inv old(2) that by (auto simp: kinv_def chains_ok_def)
  ultimately have "chains_ok u ch fd"
    using u(6,7) by (simp add: chains_ok_def)
  moreover have pg: "pg d \<noteq> n" "bucket_ok u i d (pg d) (fl d)" if d: "i < 9" "d \<in> set (ch i)" for i d
  proof -
    have ok: "bucket_ok s i d (pg d) (fl d)"
      using kinv_bucket [OF inv d] .
    then show "pg d \<noteq> n"
      using n(2) by (auto simp: bucket_ok_def)
    then show "bucket_ok u i d (pg d) (fl d)"
      using old(1) [of d] d by (intro bucket_ok_other [OF ok d(1) n(1) _ u(4)]) (auto simp: u(2,3))
  qed
  moreover have "\<exists>m. desc_page u d m \<and> m \<notin> pg ` used ch" if d: "d \<in> used ch \<union> set fd" for d
  proof (cases "d \<in> set fd")
    case True
    then have "desc_page u d n" "n \<notin> pg ` used ch"
      using n(1) u(8) pg(1) by (auto simp: desc_page_def u(3))
    then show ?thesis
      by blast
  next
    case False
    with d obtain m where m: "desc_page s d m" "m \<notin> pg ` used ch"
      using inv unfolding kinv_def by blast
    with n(2) have "desc_page u d m"
      by (auto simp: desc_page_def u(3))
    with m(2) show ?thesis
      by blast
  qed
  moreover have "mm_ok u"
    using inv by (auto simp: kinv_def mm_ok_def u(2,3))
  ultimately show ?thesis
    using inv unfolding kinv_def by blast
qed

text \<open>The descriptors of a new page of them, one after the other.\<close>

lemma obj_0: "obj n 0 j = page_addr n + of_nat (16 * j)"
  by (simp add: obj_def bucket_dir_def)

lemma link_descs_page:
  "link_descs 255 (page_addr n) s = (obj n 0 255, s\<lparr>descs := (\<lambda>d. if \<exists>j < 255. d = obj n 0 j
     then (descs s d)\<lparr>bd_next := d + 16\<rparr> else descs s d)\<rparr>)"
  unfolding obj_0 by (rule link_descs_ok)

lemma obj_0_facts:
  assumes "n < PAGING_PAGES" "j < 256"
  shows "obj n 0 j \<noteq> 0" "k < 256 \<Longrightarrow> obj n 0 j = obj n 0 k \<longleftrightarrow> j = k" "obj n 0 j - page_addr n < 4096"
proof -
  have p: "per_page 0 = 256"
    by (simp add: per_page_def bucket_dir_def)
  show "obj n 0 j \<noteq> 0"
    using obj_nonzero [of n 0 j] assms p by simp
  show "k < 256 \<Longrightarrow> obj n 0 j = obj n 0 k \<longleftrightarrow> j = k"
    using obj_inj(2) [of n n 0 0 j k] assms p by auto
  have "unat (of_nat (16 * j) :: u32) = 16 * j"
    unfolding unat_of_nat using assms(2) by (intro mod_less) simp
  then have "(of_nat (16 * j) :: u32) < 4096"
    using assms(2) by (simp add: word_less_nat_alt del: of_nat_mult)
  then show "obj n 0 j - page_addr n < 4096"
    unfolding obj_0 by simp
qed

lemma linked_desc_page:
  assumes n: "n < PAGING_PAGES"
    and N: "\<And>d. N d = (if d = obj n 0 255 then 0 else if \<exists>j < 255. d = obj n 0 j then d + 16 else M d)"
  shows "linked N (page_addr n) (map (obj n 0) [0..<256])"
proof -
  have "linked N (obj n 0 0) (map (obj n 0) [0..<Suc 255])"
  proof (rule linked_map)
    fix j :: nat
    assume j: "j < 255"
    then have "obj n 0 j \<noteq> obj n 0 255"
      using obj_0_facts(2) [OF n, of j 255] by simp
    then have "N (obj n 0 j) = obj n 0 j + 16"
      using j by (auto simp: N)
    then show "N (obj n 0 j) = obj n 0 (Suc j)"
      by (simp add: obj_0)
  qed (use obj_0_facts(1) [OF n] in \<open>simp_all add: N\<close>)
  moreover have "obj n 0 0 = page_addr n"
    by (simp add: obj_0)
  ultimately show ?thesis
    by simp
qed

lemma init_bucket_desc_ok:
  assumes inv: "kinv s ch [] pg fl" "0 < free_pages s"
  obtains u fd where "init_bucket_desc s = Ret () u" "kinv u ch fd pg fl" "fd \<noteq> []" "free_pages s = Suc (free_pages u)"
proof -
  have "page_free s"
    using inv by (intro page_free_pages) (auto simp: kinv_def)
  then obtain n where n: "n < PAGING_PAGES" "mem_map s n = 0" "paging_page s (page_addr n)"
    "get_free_page s = (page_addr n, zero_page (page_addr n) (s\<lparr>mem_map := (mem_map s)(n := 1)\<rparr>))"
    by (rule get_free_page_first)
  define D where "D d = (if d - page_addr n < 4096 then bucket_desc.make 0 0 0 0 0 else descs s d)" for d
  define D' where "D' d = (if \<exists>j < 255. d = obj n 0 j then (D d)\<lparr>bd_next := d + 16\<rparr> else D d)" for d
  define u where "u = (zero_page (page_addr n) (s\<lparr>mem_map := (mem_map s)(n := 1)\<rparr>))
    \<lparr>descs := D'(obj n 0 255 := (D' (obj n 0 255))\<lparr>bd_next := 0\<rparr>), free_bucket_desc := page_addr n\<rparr>"
  define fd where "fd = map (obj n 0) [0..<256]"
  have "bd_nexts u d = (if d = obj n 0 255 then 0 else if \<exists>j < 255. d = obj n 0 j then d + 16 else bd_next (D d))" for d
    by (auto simp: u_def D'_def)
  then have "linked (bd_nexts u) (free_bucket_desc u) fd"
    unfolding fd_def using linked_desc_page [OF n(1), of "bd_nexts u" "\<lambda>d. bd_next (D d)"] by (simp add: u_def)
  moreover have "distinct fd"
    using obj_0_facts(2) [OF n(1)] by (auto simp: fd_def distinct_map inj_on_def)
  moreover have "d - page_addr n < 4096" if "d \<in> set fd" for d
    using that obj_0_facts(3) [OF n(1)] by (auto simp: fd_def)
  moreover have "descs u d = descs s d" if "\<not> d - page_addr n < 4096" for d
    using that obj_0_facts(3) [OF n(1)] by (auto simp: u_def D'_def D_def)
  moreover have u: "mem_map u = (mem_map s)(n := 1)"
    by (simp add: u_def zero_page_def)
  ultimately have "kinv u ch fd pg fl"
    by (intro kinv_init [OF inv(1) n(1,2)]) (simp_all add: u_def zero_page_def split: if_splits)
  moreover have "init_bucket_desc s = Ret () u"
  proof -
    have "free_bucket_desc s = 0"
      using inv(1) by (simp add: kinv_def chains_ok_def)
    moreover have "page_addr n \<noteq> 0"
      using page_addr_pos [OF n(1)] .
    moreover let ?z = "zero_page (page_addr n) (s\<lparr>mem_map := (mem_map s)(n := 1)\<rparr>)"
    have "D = (\<lambda>d. if d - page_addr n < 4096 then bucket_desc.make 0 0 0 0 0 else descs ?z d)"
      by (rule ext) (simp add: D_def zero_page_def)
    then have c: "clear_descs (page_addr n) ?z = ?z\<lparr>descs := D\<rparr>"
      unfolding clear_descs_def by (simp only:)
    have "link_descs 255 (page_addr n) (clear_descs (page_addr n) ?z) = (obj n 0 255, ?z\<lparr>descs := D'\<rparr>)"
      by (simp add: c link_descs_page D'_def [abs_def] cong: if_cong)
    ultimately show ?thesis
      by (simp add: init_bucket_desc_def n(4) u_def zero_page_def upd_desc_def)
  qed
  moreover have "free_pages s = Suc (free_pages u)" "fd \<noteq> []"
    using free_pages_alloc [OF n(1,2) u] by (simp_all add: fd_def)
  ultimately show thesis
    using that by blast
qed

lemma obj_in_page:
  assumes "n < PAGING_PAGES" "i < 9" "x \<in> obj n i ` {0..<per_page i}"
  shows "x - page_addr n < 4096"
proof -
  obtain k where k: "k < per_page i" "x = obj n i k"
    using assms(3) by auto
  then have "unat (of_nat (k * bucket_dir ! i) :: u32) = k * bucket_dir ! i" "k * bucket_dir ! i < 4096"
    using unat_obj(2) [OF assms(1,2) k(1)] bucket_dir_ok(2) [OF assms(2)] unfolding unat_of_nat by auto
  then have "(of_nat (k * bucket_dir ! i) :: u32) < 4096"
    by (simp add: word_less_nat_alt del: of_nat_mult)
  then show ?thesis
    by (simp add: k(2) obj_def)
qed

lemma new_bucket_ok:
  assumes inv: "kinv s ch fd pg fl" "i < 9" "2 \<le> free_pages s"
  obtains u d n fd' where "new_bucket i s = Ret d u" "d \<notin> used ch"
    "kinv u (ch(i := d # ch i)) fd' (pg(d := n)) (fl(d := [0..<per_page i]))"
proof -
  obtain v fd' where v: "(if free_bucket_desc s = 0 then init_bucket_desc s else Ret () s) = Ret () v"
    "kinv v ch fd' pg fl" "fd' \<noteq> []" "0 < free_pages v"
  proof (cases "free_bucket_desc s = 0")
    case True
    then have "fd = []"
      using inv(1) by (cases fd) (auto simp: kinv_def chains_ok_def)
    then obtain u fd' where "init_bucket_desc s = Ret () u" "kinv u ch fd' pg fl" "fd' \<noteq> []" "free_pages s = Suc (free_pages u)"
      using init_bucket_desc_ok [of s ch pg fl] inv(1,3) by auto
    with True inv(3) that show thesis
      by simp
  next
    case False
    then have "fd \<noteq> []"
      using inv(1) by (auto simp: kinv_def chains_ok_def)
    with False inv(1,3) that show thesis
      by simp
  qed
  then obtain d fd'' where d: "fd' = d # fd''"
    by (cases fd') auto
  define w where "w = upd_desc d (\<lambda>b. b\<lparr>bd_refcnt := 0, bd_bucket_size := of_nat (bucket_dir ! i)\<rparr>)
    (v\<lparr>free_bucket_desc := bd_next (descs v d)\<rparr>)"
  have "page_free w"
    using v by (simp add: w_def upd_desc_def kinv_def page_free_def mm_ok_def) (auto simp: free_pages_def card_gt_0_iff)
  then obtain n where n: "n < PAGING_PAGES" "mem_map w n = 0" "paging_page w (page_addr n)"
    "get_free_page w = (page_addr n, zero_page (page_addr n) (w\<lparr>mem_map := (mem_map w)(n := 1)\<rparr>))"
    by (rule get_free_page_first)
  define y where "y = upd_desc d (\<lambda>b. b\<lparr>bd_page := page_addr n, bd_freeptr := page_addr n\<rparr>)
    (zero_page (page_addr n) (w\<lparr>mem_map := (mem_map w)(n := 1)\<rparr>))"
  define m where "m = 4096 div bucket_dir ! i - 1"
  have m: "0 + m + 1 = per_page i" "obj n i 0 = page_addr n"
    using bucket_dir_ok(4) [OF inv(2)] by (simp_all add: m_def per_page_def obj_def)
  obtain M where M: "linked M (page_addr n) (map (obj n i) [0..<per_page i])"
    "carve m (of_nat (bucket_dir ! i)) (page_addr n) y = y\<lparr>mem := M\<rparr>"
    "\<And>x. M x \<noteq> mem y x \<Longrightarrow> x \<in> obj n i ` {0..<per_page i}"
    using carve_ok [OF n(1) inv(2) m(1), of y] unfolding m(2) by auto
  define b where "b = (descs v d)\<lparr>bd_refcnt := 0, bd_bucket_size := of_nat (bucket_dir ! i), bd_page := page_addr n,
    bd_freeptr := page_addr n, bd_next := bucket_chain v i\<rparr>"
  define u where "u = y\<lparr>mem := M, descs := (descs v)(d := b), bucket_chain := (bucket_chain v)(i := d)\<rparr>"
  have f: "free_bucket_desc v = d" "d \<notin> used ch"
    using v(2) d by (auto simp: kinv_def chains_ok_def)
  have "new_bucket i s = Ret d u"
  proof -
    have "new_bucket i s = (case get_free_page w of (cp, s) \<Rightarrow>
        let s = upd_desc d (\<lambda>b. b\<lparr>bd_page := cp, bd_freeptr := cp\<rparr>) s
        in if cp = 0 then Panic s
           else let s = carve m (of_nat (bucket_dir ! i)) cp s; s = upd_desc d (\<lambda>b. b\<lparr>bd_next := bucket_chain s i\<rparr>) s
                in Ret d (s\<lparr>bucket_chain := (bucket_chain s)(i := d)\<rparr>))"
      unfolding new_bucket_def v(1) by (simp only: and_then_simps Let_def f(1) w_def m_def)
    also have "\<dots> = (let s = y\<lparr>mem := M\<rparr>; s = upd_desc d (\<lambda>b. b\<lparr>bd_next := bucket_chain s i\<rparr>) s
                in Ret d (s\<lparr>bucket_chain := (bucket_chain s)(i := d)\<rparr>))"
      using page_addr_pos [OF n(1)] unfolding n(4) prod.case Let_def y_def [symmetric] M(2) by (simp only: if_False)
    also have "\<dots> = Ret d u"
      by (simp add: u_def y_def w_def b_def upd_desc_def zero_page_def)
    finally show ?thesis .
  qed
  moreover have "kinv u (ch(i := d # ch i)) fd'' (pg(d := n)) (fl(d := [0..<per_page i]))"
  proof -
    have "x - page_addr n < 4096" if "mem u x \<noteq> mem v x" for x
    proof (rule ccontr)
      assume x: "\<not> x - page_addr n < 4096"
      then have "M x \<noteq> mem y x"
        using that by (simp add: u_def y_def w_def upd_desc_def zero_page_def)
      then show False
        using M(3) x obj_in_page [OF n(1) inv(2)] by blast
    qed
    moreover have "bucket_ok u i d n [0..<per_page i]"
      using n(1,3) M(1) by (auto simp: bucket_ok_def u_def y_def w_def b_def upd_desc_def zero_page_def paging_page_def)
    ultimately show ?thesis
      using n(2) f(1) by (intro kinv_add [OF v(2) [unfolded d] inv(2) n(1), where b = b])
        (simp_all add: u_def y_def w_def b_def upd_desc_def zero_page_def)
  qed
  ultimately show thesis
    using that f(2) by blast
qed

section \<open>The objects handed out\<close>

definition heap_objs :: "(nat \<Rightarrow> u32 list) \<Rightarrow> (u32 \<Rightarrow> nat) \<Rightarrow> (u32 \<Rightarrow> nat list) \<Rightarrow> (u32 \<times> nat) set" where
  "heap_objs ch pg fl = {(obj (pg d) i k, i) |i d k. i < 9 \<and> d \<in> set (ch i) \<and> k < per_page i \<and> k \<notin> set (fl d)}"

lemma heap_objs_eq:
  assumes "\<And>i d. i < 9 \<Longrightarrow> d \<in> set (ch i) \<Longrightarrow> pg' d = pg d"
    "\<And>i d k. i < 9 \<Longrightarrow> k < per_page i \<Longrightarrow> d \<in> set (ch i) \<and> k \<notin> set (fl d) \<longleftrightarrow> d \<in> set (ch' i) \<and> k \<notin> set (fl' d)"
  shows "heap_objs ch pg fl = heap_objs ch' pg' fl'"
proof -
  have "x = (obj (pg d) i k, i) \<and> i < 9 \<and> d \<in> set (ch i) \<and> k < per_page i \<and> k \<notin> set (fl d) \<longleftrightarrow>
    x = (obj (pg' d) i k, i) \<and> i < 9 \<and> d \<in> set (ch' i) \<and> k < per_page i \<and> k \<notin> set (fl' d)" for x i d k
    using assms by metis
  then show ?thesis
    by (simp add: heap_objs_def)
qed

text \<open>
  \<open>kheap s H\<close>: the allocator's state is sound and \<open>H\<close> are the objects in use, each with the number
  of its bucket size; every bucket has one.
\<close>

definition kheap :: "'a kmalloc_scheme \<Rightarrow> (u32 \<times> nat) set \<Rightarrow> bool" where
  "kheap s H \<longleftrightarrow> (\<exists>ch fd pg fl. kinv s ch fd pg fl \<and> (\<forall>i < 9. \<forall>d \<in> set (ch i). length (fl d) < per_page i) \<and>
     H = heap_objs ch pg fl)"

lemma kheapI:
  "kinv s ch fd pg fl \<Longrightarrow> \<forall>i < 9. \<forall>d \<in> set (ch i). length (fl d) < per_page i \<Longrightarrow> kheap s (heap_objs ch pg fl)"
  unfolding kheap_def by blast

lemma kinv_pages:
  assumes "kinv s ch fd pg fl" "i < 9" "d \<in> set (ch i)"
  shows "pg d < PAGING_PAGES" "distinct (fl d)" "set (fl d) \<subseteq> {..<per_page i}"
    "unat (bd_refcnt (descs s d)) + length (fl d) = per_page i" "bd_page (descs s d) = page_addr (pg d)" "mem_map s (pg d) = 1"
  using kinv_bucket [OF assms] by (simp_all add: bucket_ok_def)

lemma heap_objs_take:
  assumes inv: "kinv s ch fd pg fl" "i < 9" "d \<in> set (ch i)" and k: "k < per_page i" "set (fl d) = insert k (set ks)" "k \<notin> set ks"
  shows "heap_objs ch pg (fl(d := ks)) = insert (obj (pg d) i k, i) (heap_objs ch pg fl)"
    "(obj (pg d) i k, i) \<notin> heap_objs ch pg fl"
proof -
  have uniq: "j = i" if "j < 9" "d \<in> set (ch j)" for j
    using chain_unique [OF inv(1) that(1) inv(2) that(2) inv(3)] .
  have "l \<notin> set ((fl(d := ks)) e) \<longleftrightarrow> l \<notin> set (fl e) \<or> (e = d \<and> l = k)" for e l
    using k(2,3) by auto
  then show "heap_objs ch pg (fl(d := ks)) = insert (obj (pg d) i k, i) (heap_objs ch pg fl)"
    unfolding heap_objs_def using inv(2,3) k(1) uniq by blast
  show "(obj (pg d) i k, i) \<notin> heap_objs ch pg fl"
  proof
    assume "(obj (pg d) i k, i) \<in> heap_objs ch pg fl"
    then obtain e l where e: "e \<in> set (ch i)" "l < per_page i" "l \<notin> set (fl e)" "obj (pg d) i k = obj (pg e) i l"
      by (auto simp: heap_objs_def)
    then have "pg d = pg e" "k = l"
      using obj_inj [of "pg d" "pg e" i i k l] kinv_pages(1) [OF inv(1,2)] inv(2,3) k(1) by auto
    moreover have "d = e"
      using other_page [OF inv(1,2,2,3) e(1)] \<open>pg d = pg e\<close> by blast
    ultimately show False
      using e(3) k(2) by simp
  qed
qed

lemma kheap_disjoint:
  assumes "kheap s H" "(p, i) \<in> H" "(q, j) \<in> H" "(p, i) \<noteq> (q, j)"
  shows "{unat p..<unat p + bucket_dir ! i} \<inter> {unat q..<unat q + bucket_dir ! j} = {}"
proof -
  obtain ch fd pg fl where inv: "kinv s ch fd pg fl" and H: "H = heap_objs ch pg fl"
    using assms(1) by (auto simp: kheap_def)
  obtain d k where d: "i < 9" "d \<in> set (ch i)" "k < per_page i" "p = obj (pg d) i k"
    using assms(2) unfolding H heap_objs_def by blast
  obtain e l where e: "j < 9" "e \<in> set (ch j)" "l < per_page j" "q = obj (pg e) j l"
    using assms(3) unfolding H heap_objs_def by blast
  note n = kinv_pages(1) [OF inv d(1,2)] kinv_pages(1) [OF inv e(1,2)]
  note u = unat_obj [OF n(1) d(1,3)] unat_obj [OF n(2) e(1,3)]
  show ?thesis
  proof (cases "pg d = pg e")
    case False
    then have "4096 * pg d + 4096 \<le> 4096 * pg e \<or> 4096 * pg e + 4096 \<le> 4096 * pg d"
      by linarith
    then show ?thesis
      using u unfolding d(4) e(4) by auto
  next
    case True
    then have "d = e"
      using other_page [OF inv d(1) e(1) d(2) e(2)] by blast
    then have "i = j"
      using chain_unique [OF inv d(1) e(1)] d(2) e(2) by blast
    then have "k \<noteq> l"
      using True assms(4) d(4) e(4) by auto
    then have "(k + 1) * bucket_dir ! i \<le> l * bucket_dir ! i \<or> (l + 1) * bucket_dir ! i \<le> k * bucket_dir ! i"
      by (metis Suc_eq_plus1 Suc_leI mult_le_mono1 nat_neq_iff)
    then show ?thesis
      using u True \<open>i = j\<close> unfolding d(4) e(4) by auto
  qed
qed

lemma find_bucket_ok:
  assumes "len \<le> 4096"
  obtains i where "find_bucket len = Some i" "i < 9" "unat len \<le> bucket_dir ! i" "\<And>j. j < i \<Longrightarrow> bucket_dir ! j < unat len"
proof -
  have "\<not> (\<forall>i \<in> set [0..<9]. \<not> len \<le> of_nat (bucket_dir ! i))"
    using assms by (auto simp: bucket_dir_def intro!: bexI [of _ 8])
  then obtain i where i: "find_bucket len = Some i"
    by (cases "find_bucket len") (auto simp: find_bucket_def find_None_iff)
  then have i': "i < 9" "len \<le> of_nat (bucket_dir ! i)" "\<And>j. j < i \<Longrightarrow> \<not> len \<le> of_nat (bucket_dir ! j)"
    by (auto simp: find_bucket_def find_Some_iff)
  have u: "unat (of_nat (bucket_dir ! j) :: u32) = bucket_dir ! j" if "j < 9" for j
    using bucket_dir_ok(3) [OF that] unfolding unat_of_nat by (intro mod_less) simp
  then have "bucket_dir ! j < unat len" if "j < i" for j
    using i'(3) [OF that] that i'(1) by (simp add: word_le_nat_alt not_le)
  moreover have "unat len \<le> bucket_dir ! i"
    using i'(2) u [OF i'(1)] by (simp add: word_le_nat_alt)
  ultimately show thesis
    using that i i'(1) by blast
qed

text \<open>The allocator as the list of the objects in use.\<close>

lemma kheap_take:
  assumes t: "kinv t ch fd pg fl" "i < 9" "d \<in> set (ch i)" "fl d \<noteq> []" "heap_objs ch pg fl = H"
      "\<And>j e. j < 9 \<Longrightarrow> e \<in> set (ch j) \<Longrightarrow> e \<noteq> d \<Longrightarrow> length (fl e) < per_page j"
  shows "\<exists>p u. take_object d t = (p, u) \<and> (p, i) \<notin> H \<and> kheap u (insert (p, i) H)"
proof -
  obtain k ks where ks: "fl d = k # ks"
    using t(4) by (cases "fl d") auto
  obtain u where u: "take_object d t = (obj (pg d) i k, u)" "kinv u ch fd pg (fl(d := ks))" "k < per_page i" "k \<notin> set ks"
    using take_object_ok [OF t(1-3) ks] by blast
  have "set (fl d) = insert k (set ks)"
    by (simp add: ks)
  note o = heap_objs_take [OF t(1-3) u(3) this u(4)]
  have "length ks < per_page j" if "j < 9" "d \<in> set (ch j)" for j
    using kinv_pages(4) [OF t(1) that] by (simp add: ks)
  then have "\<forall>j < 9. \<forall>e \<in> set (ch j). length ((fl(d := ks)) e) < per_page j"
    using t(6) by simp
  from kheapI [OF u(2) this] have "kheap u (insert (obj (pg d) i k, i) H)"
    unfolding o(1) t(5) .
  with u(1) o(2) t(5) show ?thesis
    by blast
qed

lemma malloc_kheap:
  assumes heap: "kheap s H" "2 \<le> free_pages s" and i: "find_bucket len = Some i" "i < 9"
  shows "\<exists>p u. malloc len s = Some (Ret p u) \<and> (p, i) \<notin> H \<and> kheap u (insert (p, i) H)"
proof -
  obtain ch fd pg fl where inv: "kinv s ch fd pg fl" and busy: "\<And>j d. j < 9 \<Longrightarrow> d \<in> set (ch j) \<Longrightarrow> length (fl d) < per_page j"
    and H: "H = heap_objs ch pg fl"
    using heap(1) unfolding kheap_def by blast
  have c: "linked (bd_nexts s) (bucket_chain s i) (ch i)"
    using inv i(2) by (simp add: kinv_def chains_ok_def)
  show ?thesis
  proof (cases "List.find (\<lambda>d. bd_freeptr (descs s d) \<noteq> 0) (ch i)")
    case None
    obtain d u n fd' where d: "new_bucket i s = Ret d u" "d \<notin> used ch"
      "kinv u (ch(i := d # ch i)) fd' (pg(d := n)) (fl(d := [0..<per_page i]))"
      by (rule new_bucket_ok [OF inv i(2) heap(2)])
    have "heap_objs (ch(i := d # ch i)) (pg(d := n)) (fl(d := [0..<per_page i])) = H"
      unfolding H using d(2) by (intro heap_objs_eq [symmetric]) (auto split: if_splits)
    moreover have "length ((fl(d := [0..<per_page i])) e) < per_page j"
      if "j < 9" "e \<in> set ((ch(i := d # ch i)) j)" "e \<noteq> d" for j e
      using busy [of j e] that by (auto split: if_splits)
    ultimately have "\<exists>p v. take_object d u = (p, v) \<and> (p, i) \<notin> H \<and> kheap v (insert (p, i) H)"
      using bucket_dir_ok(4) [OF i(2)] by (intro kheap_take [OF d(3) i(2)]) simp_all
    then obtain p v where "take_object d u = (p, v)" "(p, i) \<notin> H" "kheap v (insert (p, i) H)"
      by blast
    with i(1) d(1) None show ?thesis
      by (simp add: malloc_def find_free_desc_ok [OF c])
  next
    case (Some d)
    then have d: "d \<in> set (ch i)" "bd_freeptr (descs s d) \<noteq> 0"
      by (auto simp: find_Some_iff)
    then have "fl d \<noteq> []"
      using kinv_bucket [OF inv i(2) d(1)] by (auto simp: bucket_ok_def)
    then obtain p v where "take_object d s = (p, v)" "(p, i) \<notin> H" "kheap v (insert (p, i) H)"
      using kheap_take [OF inv i(2) d(1)] H busy by blast
    moreover have "d \<noteq> 0"
      using linked_nonzero [OF c d(1)] .
    ultimately show ?thesis
      using i(1) Some by (simp add: malloc_def find_free_desc_ok [OF c])
  qed
qed

lemma kinv_chain:
  assumes "kinv s ch fd pg fl" "i < 9"
  shows "linked (bd_nexts s) (bucket_chain s i) (ch i)" "distinct (ch i)"
  using assms by (simp_all add: kinv_def chains_ok_def)

lemma find_owner_skip:
  assumes "kinv s ch fd pg fl" "set is \<subseteq> {..<9}" "\<And>j d. j \<in> set is \<Longrightarrow> d \<in> set (ch j) \<Longrightarrow> bd_page (descs s d) \<noteq> page"
  shows "find_owner (is @ js) page sz s = find_owner js page sz s"
  using assms(2,3)
proof (induction "is")
  case (Cons j "is")
  then have "linked (bd_nexts s) (bucket_chain s j) (ch j)"
    using kinv_chain(1) [OF assms(1)] by simp
  then have "find_page_desc page 0 (bucket_chain s j) s = Some (last (0 # ch j), 0)"
    using Cons.prems(2) by (intro find_page_desc_none) auto
  moreover have "find_owner (is @ js) page sz s = find_owner js page sz s"
    using Cons.prems by (intro Cons.IH) auto
  ultimately show ?case
    by simp
qed simp

lemma linked_before: "linked N p (ys @ d # zs) \<Longrightarrow> (if ys = [] then p else N (last ys)) = d"
  by (induction ys arbitrary: p) auto

text \<open>The bucket that an object lies in is found, with the descriptor before it.\<close>

lemma find_owner_ok:
  assumes inv: "kinv s ch fd pg fl" "i < 9" "ch i = ys @ d # zs" and sz: "sz \<le> int (bucket_dir ! i)"
  shows "find_owner [0..<9] (page_addr (pg d)) sz s = Some (Some (i, last (0 # ys), d))"
proof -
  have d: "d \<in> set (ch i)" "distinct (ys @ d # zs)" "linked (bd_nexts s) (bucket_chain s i) (ys @ d # zs)"
    using kinv_chain [OF inv(1,2)] unfolding inv(3) by simp_all
  have other: "bd_page (descs s e) \<noteq> page_addr (pg d)" if e: "j < 9" "e \<in> set (ch j)" "e \<noteq> d" for j e
    using other_page [OF inv(1,2) e(1) d(1) e(2)] kinv_pages(1,5) [OF inv(1) e(1,2)] kinv_pages(1) [OF inv(1,2) d(1)] e(3)
    by (auto simp: page_addr_inj)
  have split: "[0..<9] = [0..<i] @ i # [Suc i..<9]"
    using inv(2) by (metis less_imp_le upt_add_eq_append upt_conv_Cons le_add_diff_inverse zero_le)
  have "bd_page (descs s e) \<noteq> page_addr (pg d)" if "j < i" "e \<in> set (ch j)" for j e
    using chain_unique [OF inv(1) _ inv(2) _ d(1), of j] that inv(2) other [of j e] by auto
  then have "find_owner [0..<9] (page_addr (pg d)) sz s = find_owner (i # [Suc i..<9]) (page_addr (pg d)) sz s"
    unfolding split using inv(2) by (intro find_owner_skip [OF inv(1)]) auto
  moreover have "find_page_desc (page_addr (pg d)) 0 (bucket_chain s i) s = Some (last (0 # ys), d)"
    using d(2) other [OF inv(2)] inv(3) kinv_pages(5) [OF inv(1,2) d(1)]
    by (intro find_page_desc_ok [OF d(3)]) auto
  moreover have "d \<noteq> 0"
    using linked_nonzero [OF d(3)] by simp
  ultimately show ?thesis
    using sz by simp
qed

text \<open>An empty bucket leaves its chain, and its page goes back to the pool.\<close>

lemma release_ok:
  assumes inv: "kinv s ch fd pg fl" "i < 9" "ch i = ys @ d # zs"
  obtains v where "unchain i (last (0 # ys)) d s = Some (Ret () v)"
    "kinv (release_bucket d v) (ch(i := ys @ zs)) (d # fd) pg fl"
    "mem_map (release_bucket d v) = (mem_map s)(pg d := 0)"
proof -
  have d: "d \<in> set (ch i)" "linked (bd_nexts s) (bucket_chain s i) (ys @ d # zs)" "distinct (ys @ d # zs)"
    using kinv_chain [OF inv(1,2)] unfolding inv(3) by simp_all
  note ok = kinv_bucket [OF inv(1,2) d(1)]
  define v where "v = (if ys = [] then s\<lparr>bucket_chain := (bucket_chain s)(i := bd_next (descs s d))\<rparr>
    else upd_desc (last ys) (\<lambda>b. b\<lparr>bd_next := bd_next (descs s d)\<rparr>) s)"
  have last: "ys \<noteq> [] \<Longrightarrow> last ys \<noteq> 0" "ys \<noteq> [] \<Longrightarrow> last ys \<noteq> d"
    using linked_nonzero [OF d(2)] d(3) by auto
  have u: "unchain i (last (0 # ys)) d s = Some (Ret () v)"
    using linked_before [OF d(2)] last(1) by (cases "ys = []") (simp_all add: unchain_def v_def)
  have p: "paging_page v (page_addr (pg d))" "bd_page (descs v d) = page_addr (pg d)" "mem_map v = mem_map s"
    using ok page_addr_LOW [of "pg d"] last(2) by (auto simp: bucket_ok_def v_def upd_desc_def paging_page_def)
  have f: "free_page (page_addr (pg d)) v = v\<lparr>mem_map := (mem_map s)(pg d := 0)\<rparr>"
    using ok unfolding free_page_map [OF p(1)] by (simp add: p(3) bucket_ok_def MAP_NR_page_addr)
  let ?w = "release_bucket d v"
  have w: "?w = v\<lparr>mem_map := (mem_map s)(pg d := 0), descs := (descs v)(d := (descs v d)\<lparr>bd_next := free_bucket_desc v\<rparr>),
    free_bucket_desc := d\<rparr>"
    by (simp add: release_bucket_def upd_desc_def p(2) f Let_def)
  have "set (ch j) \<inter> set (ch i) = {}" if "j < 9" "j \<noteq> i" for j
    using chain_unique [OF inv(1) that(1) inv(2)] that(2) by blast
  moreover have "bucket_chain ?w = (if ys = [] then (bucket_chain s)(i := bd_next (descs s d)) else bucket_chain s)"
    "free_bucket_desc ?w = d"
    "bd_nexts ?w = (if ys = [] then bd_nexts s else (bd_nexts s)(last ys := bd_next (descs s d)))(d := free_bucket_desc s)"
    unfolding w by (auto simp: v_def upd_desc_def)
  moreover have "chains_ok s ch fd"
    using inv(1) by (simp add: kinv_def)
  ultimately have "chains_ok ?w (ch(i := ys @ zs)) (d # fd)"
    using inv(2,3) by (intro chains_ok_release [where s = s and i = i and ch = ch and ys = ys and zs = zs and d = d])
  then have "kinv ?w (ch(i := ys @ zs)) (d # fd) pg fl"
    by (rule kinv_release [OF inv]; unfold w) (simp_all add: v_def upd_desc_def)
  with u that show thesis
    by (simp add: w)
qed

lemma put_object_refcnt:
  assumes inv: "kinv s ch fd pg fl" "i < 9" "d \<in> set (ch i)" "k < per_page i" "k \<notin> set (fl d)"
  shows "bd_refcnt (descs (put_object (obj (pg d) i k) d s) d) = 0 \<longleftrightarrow> length (k # fl d) = per_page i"
proof -
  have "unat (bd_refcnt (descs (put_object (obj (pg d) i k) d s) d)) + length (k # fl d) = per_page i"
    using kinv_pages(4) [OF put_object_ok [OF inv] inv(2,3)] by simp
  then have "unat (bd_refcnt (descs (put_object (obj (pg d) i k) d s) d)) = 0 \<longleftrightarrow> length (k # fl d) = per_page i"
    by linarith
  then show ?thesis
    by (simp add: unsigned_eq_0_iff)
qed

lemma mem_map_put_object: "mem_map (put_object p d s) = mem_map s"
  by (simp add: put_object_def upd_desc_def write_word_def Let_def)

lemma full_list:
  assumes "distinct ks" "set ks \<subseteq> {..<n}"
  shows "length ks < n \<longleftrightarrow> (\<exists>l < n. l \<notin> set ks)" "length ks \<le> n"
proof -
  have "length ks = card (set ks)"
    using assms(1) by (simp add: distinct_card)
  moreover have "card (set ks) \<le> n"
    using assms(2) card_mono [of "{..<n}" "set ks"] by simp
  moreover have "card (set ks) = n \<longleftrightarrow> set ks = {..<n}"
    using assms(2) card_subset_eq [of "{..<n}" "set ks"] by (metis card_lessThan finite_lessThan)
  ultimately show "length ks < n \<longleftrightarrow> (\<exists>l < n. l \<notin> set ks)" "length ks \<le> n"
    using assms(2) by (auto simp: less_le)
qed

lemma page_in_use:
  assumes inv: "kinv s ch fd pg fl" "i < 9" "d \<in> set (ch i)"
  shows "(\<exists>(q, j) \<in> heap_objs ch pg fl. q AND 0xfffff000 = page_addr (pg d)) \<longleftrightarrow> length (fl d) < per_page i"
proof
  assume "\<exists>(q, j) \<in> heap_objs ch pg fl. q AND 0xfffff000 = page_addr (pg d)"
  then obtain j e l where e: "j < 9" "e \<in> set (ch j)" "l < per_page j" "l \<notin> set (fl e)"
    "obj (pg e) j l AND 0xfffff000 = page_addr (pg d)"
    unfolding heap_objs_def by blast
  then have "pg d = pg e"
    using obj_page [of "pg e" j l] page_addr_inj kinv_pages(1) [OF inv(1)] inv(2,3) by metis
  then have "d = e"
    using other_page [OF inv(1,2) e(1) inv(3) e(2)] by blast
  then have "i = j"
    using chain_unique [OF inv(1,2) e(1) inv(3)] e(2) by blast
  with e(3,4) \<open>d = e\<close> show "length (fl d) < per_page i"
    using full_list(1) [OF kinv_pages(2,3) [OF inv]] by auto
next
  assume "length (fl d) < per_page i"
  then obtain l where l: "l < per_page i" "l \<notin> set (fl d)"
    using full_list(1) [OF kinv_pages(2,3) [OF inv]] by auto
  then have "(obj (pg d) i l, i) \<in> heap_objs ch pg fl"
    using inv(2,3) unfolding heap_objs_def by blast
  moreover have "obj (pg d) i l AND 0xfffff000 = page_addr (pg d)"
    using obj_page [OF kinv_pages(1) [OF inv] inv(2) l(1)] .
  ultimately show "\<exists>(q, j) \<in> heap_objs ch pg fl. q AND 0xfffff000 = page_addr (pg d)"
    by (intro bexI [where x = "(obj (pg d) i l, i)"]) simp_all
qed

text \<open>
  Freeing an object; its page goes back to the pool when no other object of the page is in use.
\<close>

lemma free_kheap:
  assumes heap: "kheap s H" and p: "(p, i) \<in> H" and sz: "sz \<le> int (bucket_dir ! i)"
  shows "\<exists>u. free_s p sz s = Some (Ret () u) \<and> kheap u (H - {(p, i)}) \<and>
    mem_map u = (if \<exists>(q, j) \<in> H - {(p, i)}. q AND 0xfffff000 = p AND 0xfffff000 then mem_map s
                 else (mem_map s)(MAP_NR (p AND 0xfffff000) := 0))"
proof -
  obtain ch fd pg fl where inv: "kinv s ch fd pg fl" and busy: "\<forall>j < 9. \<forall>d \<in> set (ch j). length (fl d) < per_page j"
    and H: "H = heap_objs ch pg fl"
    using heap unfolding kheap_def by blast
  obtain d k where d: "i < 9" "d \<in> set (ch i)" "k < per_page i" "k \<notin> set (fl d)" "p = obj (pg d) i k"
    using p unfolding H heap_objs_def by blast
  obtain ys zs where ch: "ch i = ys @ d # zs"
    using d(2) by (meson split_list)
  let ?fl = "fl(d := k # fl d)" and ?s = "put_object p d s"
  have s: "kinv ?s ch fd pg ?fl"
    unfolding d(5) using put_object_ok [OF inv d(1-4)] .
  have page: "p AND 0xfffff000 = page_addr (pg d)"
    unfolding d(5) using obj_page [OF kinv_pages(1) [OF inv d(1,2)] d(1,3)] .
  note owner = find_owner_ok [OF inv d(1) ch sz]
  have H': "heap_objs ch pg ?fl = H - {(p, i)}"
    using heap_objs_take [OF s d(1-3), of "fl d"] d(4,5) by (auto simp: H)
  have rest: "(\<exists>(q, j) \<in> H - {(p, i)}. q AND 0xfffff000 = page_addr (pg d)) \<longleftrightarrow> length (k # fl d) < per_page i"
    using page_in_use [OF s d(1,2)] unfolding H' by simp
  have le: "length (k # fl d) \<le> per_page i"
    using full_list(2) [OF kinv_pages(2,3) [OF s d(1,2)]] by simp
  have uniq: "j = i" if "j < 9" "d \<in> set (ch j)" for j
    using chain_unique [OF inv that(1) d(1) that(2) d(2)] .
  show ?thesis
  proof (cases "length (k # fl d) = per_page i")
    case False
    then have "free_s p sz s = Some (Ret () ?s)"
      using put_object_refcnt [OF inv d(1-4)] unfolding d(5) [symmetric]
      by (simp add: free_s_def page owner Let_def)
    moreover have "length (?fl e) < per_page j" if "j < 9" "e \<in> set (ch j)" for j e
      using busy that le False uniq [of j] by (cases "e = d") auto
    ultimately show ?thesis
      using kheapI [OF s] rest le False unfolding H' page by (auto simp: mem_map_put_object)
  next
    case True
    obtain v where v: "unchain i (last (0 # ys)) d ?s = Some (Ret () v)"
      "kinv (release_bucket d v) (ch(i := ys @ zs)) (d # fd) pg ?fl"
      "mem_map (release_bucket d v) = (mem_map ?s)(pg d := 0)"
      by (rule release_ok [OF s d(1) ch])
    then have "free_s p sz s = Some (Ret () (release_bucket d v))"
      using True put_object_refcnt [OF inv d(1-4)] unfolding d(5) [symmetric]
      by (simp add: free_s_def page owner Let_def)
    moreover have "kheap (release_bucket d v) (H - {(p, i)})"
    proof -
      have "distinct (ys @ d # zs)"
        using kinv_chain(2) [OF inv d(1)] unfolding ch .
      then have e: "e \<in> set ((ch(i := ys @ zs)) j) \<longleftrightarrow> e \<in> set (ch j) \<and> e \<noteq> d" if j: "j < 9" for j e
      proof (cases "j = i")
        case False
        then show ?thesis
          using uniq [OF j] by auto
      qed (use ch \<open>distinct (ys @ d # zs)\<close> in auto)
      have "k \<in> set (?fl d)" if "k < per_page i" for k
        using full_list(1) [OF kinv_pages(2,3) [OF s d(1,2)]] True that by auto
      then have "heap_objs ch pg ?fl = heap_objs (ch(i := ys @ zs)) pg ?fl"
        using e uniq by (intro heap_objs_eq) (auto simp del: fun_upd_apply)
      moreover have "length (?fl e') < per_page j" if "j < 9" "e' \<in> set ((ch(i := ys @ zs)) j)" for j e'
        using busy e [of j e'] that by auto
      ultimately show ?thesis
        using kheapI [OF v(2)] unfolding H' [symmetric] by simp
    qed
    ultimately show ?thesis
      using rest True v(3) kinv_pages(1) [OF inv d(1,2)] unfolding page
      by (simp add: mem_map_put_object MAP_NR_page_addr)
  qed
qed

section \<open>The allocator's contract\<close>

text \<open>
  What a client may rely on: an allocation returns an object that was not in use and adds it to
  those that are; giving an object back takes it out, and neither touches any other.
\<close>

locale object_heap =
  fixes heap :: "'s \<Rightarrow> ('p \<times> 'c) set \<Rightarrow> bool"
    and alloc :: "'n \<Rightarrow> 's \<Rightarrow> ('p, 's) outcome option"
    and release :: "'p \<Rightarrow> 's \<Rightarrow> (unit, 's) outcome option"
    and class_of :: "'n \<Rightarrow> 'c option"
    and ready :: "'s \<Rightarrow> bool"
  assumes alloc_new: "\<lbrakk>heap s H; ready s; class_of n = Some c\<rbrakk> \<Longrightarrow>
      \<exists>p u. alloc n s = Some (Ret p u) \<and> (p, c) \<notin> H \<and> heap u (insert (p, c) H)"
    and release_old: "\<lbrakk>heap s H; (p, c) \<in> H\<rbrakk> \<Longrightarrow> \<exists>u. release p s = Some (Ret () u) \<and> heap u (H - {(p, c)})"
begin

lemma alloc_release:
  assumes "heap s H" "ready s" "class_of n = Some c"
  shows "\<exists>p u v. alloc n s = Some (Ret p u) \<and> release p u = Some (Ret () v) \<and> heap v H"
proof -
  obtain p u where u: "alloc n s = Some (Ret p u)" "(p, c) \<notin> H" "heap u (insert (p, c) H)"
    using alloc_new [OF assms] by blast
  then obtain v where "release p u = Some (Ret () v)" "heap v (insert (p, c) H - {(p, c)})"
    using release_old [of u "insert (p, c) H" p c] by blast
  with u show ?thesis
    by auto
qed

lemma release_other:
  assumes "heap s H" "(p, c) \<in> H" "(q, d) \<in> H" "(p, c) \<noteq> (q, d)"
  shows "\<exists>u v. release p s = Some (Ret () u) \<and> release q u = Some (Ret () v) \<and> heap v (H - {(p, c), (q, d)})"
proof -
  obtain u where u: "release p s = Some (Ret () u)" "heap u (H - {(p, c)})"
    using release_old [OF assms(1,2)] by blast
  then obtain v where "release q u = Some (Ret () v)" "heap v (H - {(p, c)} - {(q, d)})"
    using release_old [OF u(2), of q d] assms(3,4) by blast
  moreover have "H - {(p, c)} - {(q, d)} = H - {(p, c), (q, d)}"
    by blast
  ultimately show ?thesis
    using u(1) by metis
qed

end

text \<open>With interrupts off and two free pages, \<open>malloc\<close> and \<open>free(x)\<close>, which is \<open>free_s(x, 0)\<close>, keep it.\<close>

interpretation kernel_heap: object_heap kheap malloc "\<lambda>p. free_s p 0" find_bucket "\<lambda>s. 2 \<le> free_pages s"
proof unfold_locales
  fix s :: "'a kmalloc_scheme" and H len i
  assume s: "kheap s H" "2 \<le> free_pages s" "find_bucket len = Some i"
  then have "i < 9"
    by (auto simp: find_bucket_def find_Some_iff)
  with s show "\<exists>p u. malloc len s = Some (Ret p u) \<and> (p, i) \<notin> H \<and> kheap u (insert (p, i) H)"
    by (intro malloc_kheap)
next
  fix s :: "'a kmalloc_scheme" and H p and i :: nat
  assume "kheap s H" "(p, i) \<in> H"
  then show "\<exists>u. free_s p 0 s = Some (Ret () u) \<and> kheap u (H - {(p, i)})"
    using free_kheap [of s H p i 0] by auto
qed

section \<open>The properties\<close>

text \<open>
  C27. With two free pages, \<open>malloc\<close> of at most 4096 bytes returns an object of the smallest bucket
  size that is large enough, which overlaps no object in use; the allocator's structure stays
  sound, and exactly that object is added to those in use.
\<close>

theorem malloc_fresh:
  assumes "kheap s H" "2 \<le> free_pages s" "len \<le> 4096"
  shows "\<exists>i p u. malloc len s = Some (Ret p u) \<and> kheap u (insert (p, i) H) \<and>
    unat len \<le> bucket_dir ! i \<and> (\<forall>j < i. bucket_dir ! j < unat len) \<and>
    (\<forall>(q, j) \<in> H. {unat p..<unat p + bucket_dir ! i} \<inter> {unat q..<unat q + bucket_dir ! j} = {})"
proof -
  obtain i where i: "find_bucket len = Some i" "i < 9" "unat len \<le> bucket_dir ! i" "\<And>j. j < i \<Longrightarrow> bucket_dir ! j < unat len"
    using find_bucket_ok [OF assms(3)] by blast
  obtain p u where u: "malloc len s = Some (Ret p u)" "(p, i) \<notin> H" "kheap u (insert (p, i) H)"
    using malloc_kheap [OF assms(1,2) i(1,2)] by blast
  have "\<forall>(q, j) \<in> H. {unat p..<unat p + bucket_dir ! i} \<inter> {unat q..<unat q + bucket_dir ! j} = {}"
    using kheap_disjoint [OF u(3)] u(2) by fast
  with u i show ?thesis
    by blast
qed

text \<open>
  C28. \<open>free_s\<close> of an object in use, with any size up to its bucket's or with 0, returns: the object
  is taken out of those in use, the structure stays sound, and the reference count of its page
  drops to 0 if and only if no other object of the page is in use; no other page is affected.
\<close>

theorem free_s_returns_page:
  assumes "kheap s H" "(p, i) \<in> H" "sz \<le> int (bucket_dir ! i)"
  shows "\<exists>u. free_s p sz s = Some (Ret () u) \<and> kheap u (H - {(p, i)}) \<and>
    mem_map u = (if \<exists>(q, j) \<in> H - {(p, i)}. q AND 0xfffff000 = p AND 0xfffff000 then mem_map s
                 else (mem_map s)(MAP_NR (p AND 0xfffff000) := 0))"
  using free_kheap [OF assms] .

text \<open>
  An object that is allocated and given back leaves the objects in use as they were.
\<close>

theorem malloc_free:
  assumes "kheap s H" "2 \<le> free_pages s" "find_bucket len = Some i"
  shows "\<exists>p u v. malloc len s = Some (Ret p u) \<and> free_s p 0 u = Some (Ret () v) \<and> kheap v H"
  using kernel_heap.alloc_release [OF assms] .

text \<open>A request for more than a page stops the machine.\<close>

lemma malloc_too_long: "4096 < len \<Longrightarrow> malloc len s = Some (Panic s)"
proof -
  assume len: "4096 < len"
  have "\<not> len \<le> of_nat (bucket_dir ! i)" if "i < 9" for i
  proof -
    have "unat (of_nat (bucket_dir ! i) :: u32) \<le> 4096"
      using bucket_dir_ok(3) [OF that] unfolding unat_of_nat by (meson mod_less_eq_dividend order_trans)
    then show ?thesis
      using len by (simp add: word_less_nat_alt word_le_nat_alt)
  qed
  then have "find_bucket len = None"
    by (auto simp: find_bucket_def find_None_iff)
  then show ?thesis
    by (simp add: malloc_def)
qed

section \<open>An example\<close>

text \<open>Before the first allocation, with the pages 7 to 9 free.\<close>

definition heap_example :: kmalloc where
  "heap_example = mm.extend (mm_example\<lparr>mem_map := (\<lambda>i. if 7 \<le> i \<and> i < 10 then 0 else 1)\<rparr>)
     (kmalloc.fields (\<lambda>_. bucket_desc.make 0 0 0 0 0) (\<lambda>_. 0) 0)"

lemma heap_example_ok: "kheap heap_example {}" "free_pages heap_example = 3"
proof -
  have m: "mem_map heap_example i = (if 7 \<le> i \<and> i < 10 then 0 else 1)" "HIGH_MEMORY heap_example = 0x1000000" for i
    by (simp_all add: heap_example_def mm.extend_def kmalloc.fields_def mm_example_def)
  have "page_addr i < 0x1000000" if "i < 10" for i
    using unat_page_addr [of i] that by (simp add: word_less_nat_alt mm_consts)
  then have "mm_ok heap_example"
    by (auto simp: mm_ok_def m mm_consts split: if_splits)
  then have "kinv heap_example (\<lambda>_. []) [] (\<lambda>_. 0) (\<lambda>_. [])"
    by (simp add: kinv_def chains_ok_def heap_example_def mm.extend_def kmalloc.fields_def)
  from kheapI [OF this] show "kheap heap_example {}"
    by (simp add: heap_objs_def)
  have "{n. n < PAGING_PAGES \<and> mem_map heap_example n = 0} = {7..<10}"
    by (auto simp: m mm_consts)
  then show "free_pages heap_example = 3"
    by (simp add: free_pages_def)
qed

theorem malloc_fresh_witness:
  "\<exists>i p u. malloc 100 heap_example = Some (Ret p u) \<and> kheap u {(p, i)} \<and> 100 \<le> bucket_dir ! i"
  using malloc_fresh [OF heap_example_ok(1), of 100] by (auto simp: heap_example_ok(2))

theorem malloc_free_witness:
  "\<exists>p u v. malloc 100 heap_example = Some (Ret p u) \<and> free_s p 0 u = Some (Ret () v) \<and> kheap v {}"
proof -
  have "find_bucket 100 = Some 3"
    by (simp add: find_bucket_def bucket_dir_def upt_conv_Cons)
  then show ?thesis
    by (intro malloc_free [OF heap_example_ok(1)]) (simp_all add: heap_example_ok(2))
qed

theorem free_s_returns_page_witness:
  "\<exists>p u v. malloc 100 heap_example = Some (Ret p u) \<and> free_s p 100 u = Some (Ret () v) \<and>
     mem_map v (MAP_NR (p AND 0xfffff000)) = 0"
proof -
  have i: "find_bucket 100 = Some 3" "bucket_dir ! 3 = 128"
    by (simp_all add: find_bucket_def bucket_dir_def upt_conv_Cons)
  obtain p u where u: "malloc 100 heap_example = Some (Ret p u)" "kheap u {(p, 3)}"
    using malloc_kheap [OF heap_example_ok(1) _ i(1)] by (auto simp: heap_example_ok(2))
  show ?thesis
    using free_s_returns_page [OF u(2), of p 3 100] u(1) by (auto simp: i(2))
qed

end
