(* ===== verification/Tty.thy ===== *)
theory Tty
  imports Exit Pipe
begin

text \<open>
  kernel/chr_drv/tty_io.c and include/linux/tty.h: the queues of a terminal, the line discipline
  (\<open>copy_to_cooked\<close>), and reading and writing. pty.c, serial.c and tty_ioctl.c follow in other theories.

  A queue is found by its address. The \<open>write\<close> function of a terminal, a pointer in its
  structure, is a number there; what the numbers stand for is the argument \<open>wr\<close> of the
  definitions, because those functions call back into this file (theory Serial has the table).
  \<open>toupper\<close> leaves characters from 128 on as they are; in the code it looks at what lies before \<open>_ctype\<close>. \<open>None\<close> is a call that does not
  return. The fields \<open>pgrp\<close> and \<open>session\<close> of a terminal are \<open>tty_pgrp\<close> and \<open>tty_session\<close> of the kernel.
\<close>

section \<open>State\<close>

record tty_queue =
  q_data :: u32
  q_head :: u32
  q_tail :: u32
  q_buf :: "u32 \<Rightarrow> u8"

text \<open>\<open>c_pad\<close> is the two bytes behind \<open>c_cc\<close> that align the structure.\<close>

record termios =
  c_iflag :: u32
  c_oflag :: u32
  c_cflag :: u32
  c_lflag :: u32
  c_line :: u8
  c_cc :: "nat \<Rightarrow> u8"
  c_pad :: "nat \<Rightarrow> u8"

record winsize =
  ws_row :: u16
  ws_col :: u16
  ws_xpixel :: u16
  ws_ypixel :: u16

record tty_struct =
  tt_termios :: termios
  tt_stopped :: bool
  tt_winsize :: winsize
  tt_write :: nat
  tt_read_q :: ptr
  tt_write_q :: ptr
  tt_secondary :: ptr

record ttys = kernel +
  tty_table :: "nat \<Rightarrow> tty_struct"
  queues :: "ptr \<Rightarrow> tty_queue"
  cr_flag :: bool
  fg_console :: nat
  port_out :: "(u16 \<times> u8) list"

text \<open>\<open>port_out\<close> is what has been written to the hardware's ports, the last byte first.\<close>

type_synonym 'a tty_write = "nat \<Rightarrow> nat \<Rightarrow> 'a ttys_scheme \<Rightarrow> 'a ttys_scheme option"

definition VINTR :: nat where "VINTR = 0"
definition VQUIT :: nat where "VQUIT = 1"
definition VERASE :: nat where "VERASE = 2"
definition VKILL :: nat where "VKILL = 3"
definition VEOF :: nat where "VEOF = 4"
definition VTIME :: nat where "VTIME = 5"
definition VMIN :: nat where "VMIN = 6"
definition VSTART :: nat where "VSTART = 8"
definition VSTOP :: nat where "VSTOP = 9"
definition VSUSP :: nat where "VSUSP = 10"

definition INLCR :: u32 where "INLCR = 0x40"
definition IGNCR :: u32 where "IGNCR = 0x80"
definition ICRNL :: u32 where "ICRNL = 0x100"
definition IUCLC :: u32 where "IUCLC = 0x200"
definition IXON :: u32 where "IXON = 0x400"
definition OPOST :: u32 where "OPOST = 1"
definition OLCUC :: u32 where "OLCUC = 2"
definition ONLCR :: u32 where "ONLCR = 4"
definition OCRNL :: u32 where "OCRNL = 8"
definition ONLRET :: u32 where "ONLRET = 0x20"
definition CBAUD :: u32 where "CBAUD = 0xf"
definition ISIG :: u32 where "ISIG = 1"
definition ICANON :: u32 where "ICANON = 2"
definition ECHO :: u32 where "ECHO = 8"
definition ECHONL :: u32 where "ECHONL = 0x40"
definition TOSTOP :: u32 where "TOSTOP = 0x100"
definition ECHOCTL :: u32 where "ECHOCTL = 0x200"
definition ECHOKE :: u32 where "ECHOKE = 0x800"

definition SIGINT :: int where "SIGINT = 2"
definition SIGQUIT :: int where "SIGQUIT = 3"
definition SIGTSTP :: int where "SIGTSTP = 20"
definition SIGTTIN :: int where "SIGTTIN = 21"

definition upd_tty :: "nat \<Rightarrow> (tty_struct \<Rightarrow> tty_struct) \<Rightarrow> 'a ttys_scheme \<Rightarrow> 'a ttys_scheme" where
  "upd_tty i f s = s\<lparr>tty_table := (tty_table s)(i := f (tty_table s i))\<rparr>"

definition upd_q :: "ptr \<Rightarrow> (tty_queue \<Rightarrow> tty_queue) \<Rightarrow> 'a ttys_scheme \<Rightarrow> 'a ttys_scheme" where
  "upd_q q f s = s\<lparr>queues := (queues s)(q := f (queues s q))\<rparr>"

abbreviation (input) read_q :: "nat \<Rightarrow> 'a ttys_scheme \<Rightarrow> ptr" where "read_q i s \<equiv> tt_read_q (tty_table s i)"
abbreviation (input) write_q :: "nat \<Rightarrow> 'a ttys_scheme \<Rightarrow> ptr" where "write_q i s \<equiv> tt_write_q (tty_table s i)"
abbreviation (input) secondary :: "nat \<Rightarrow> 'a ttys_scheme \<Rightarrow> ptr" where "secondary i s \<equiv> tt_secondary (tty_table s i)"

section \<open>The queues\<close>

text \<open>The wait queue \<open>proc_list\<close> of a queue, by its address.\<close>

definition proc_list :: "ptr \<Rightarrow> ptr" where "proc_list q = q + 12"

definition q_inc :: "u32 \<Rightarrow> u32" where "q_inc a = (a + 1) AND 1023"
definition q_dec :: "u32 \<Rightarrow> u32" where "q_dec a = (a - 1) AND 1023"
definition q_empty :: "tty_queue \<Rightarrow> bool" where "q_empty q \<longleftrightarrow> q_head q = q_tail q"
definition q_left :: "tty_queue \<Rightarrow> u32" where "q_left q = (q_tail q - q_head q - 1) AND 1023"
definition q_last :: "tty_queue \<Rightarrow> u8" where "q_last q = q_buf q (1023 AND (q_head q - 1))"
definition q_full :: "tty_queue \<Rightarrow> bool" where "q_full q \<longleftrightarrow> q_left q = 0"
definition q_chars :: "tty_queue \<Rightarrow> u32" where "q_chars q = (q_head q - q_tail q) AND 1023"
definition q_get :: "tty_queue \<Rightarrow> u8 \<times> tty_queue" where "q_get q = (q_buf q (q_tail q), q\<lparr>q_tail := q_inc (q_tail q)\<rparr>)"
definition q_put :: "u8 \<Rightarrow> tty_queue \<Rightarrow> tty_queue" where
  "q_put c q = q\<lparr>q_buf := (q_buf q)(q_head q := c), q_head := q_inc (q_head q)\<rparr>"
definition q_unput :: "tty_queue \<Rightarrow> tty_queue" where "q_unput q = q\<lparr>q_head := q_dec (q_head q)\<rparr>"

definition PUTCH :: "u8 \<Rightarrow> ptr \<Rightarrow> 'a ttys_scheme \<Rightarrow> 'a ttys_scheme" where
  "PUTCH c q s = upd_q q (q_put c) s"

definition GETCH :: "ptr \<Rightarrow> 'a ttys_scheme \<Rightarrow> u8 \<times> 'a ttys_scheme" where
  "GETCH q s = (fst (q_get (queues s q)), upd_q q (\<lambda>r. snd (q_get r)) s)"

definition TTY_TABLE :: "nat \<Rightarrow> 'a ttys_scheme \<Rightarrow> nat" where
  "TTY_TABLE nr s = (if nr \<noteq> 0 then if nr < 64 then nr - 1 else nr else fg_console s)"

section \<open>The line discipline\<close>

abbreviation (input) L_FLAG :: "termios \<Rightarrow> u32 \<Rightarrow> bool" where "L_FLAG t f \<equiv> c_lflag t AND f \<noteq> 0"
abbreviation (input) I_FLAG :: "termios \<Rightarrow> u32 \<Rightarrow> bool" where "I_FLAG t f \<equiv> c_iflag t AND f \<noteq> 0"
abbreviation (input) O_FLAG :: "termios \<Rightarrow> u32 \<Rightarrow> bool" where "O_FLAG t f \<equiv> c_oflag t AND f \<noteq> 0"

text \<open>
  \<open>c\<close> is the control character number \<open>i\<close>, unless that is disabled, and \<open>c\<close> ends a line.
\<close>

definition is_cc :: "termios \<Rightarrow> nat \<Rightarrow> u8 \<Rightarrow> bool" where
  "is_cc t i c \<longleftrightarrow> c_cc t i \<noteq> 0 \<and> c = c_cc t i"

definition line_end :: "termios \<Rightarrow> u8 \<Rightarrow> bool" where
  "line_end t c \<longleftrightarrow> c = 10 \<or> is_cc t VEOF c"

definition c_tolower :: "u8 \<Rightarrow> u8" where "c_tolower c = (if 65 \<le> c \<and> c \<le> 90 then c + 32 else c)"
definition c_toupper :: "u8 \<Rightarrow> u8" where "c_toupper c = (if 97 \<le> c \<and> c \<le> 122 then c - 32 else c)"

text \<open>The mapping of an input character; \<open>None\<close> is one that is dropped.\<close>

definition map_input :: "termios \<Rightarrow> u8 \<Rightarrow> u8 option" where
  "map_input t c =
     map_option (\<lambda>c. if I_FLAG t IUCLC then c_tolower c else c)
       (if c = 13 then if I_FLAG t ICRNL then Some 10 else if I_FLAG t IGNCR then None else Some c
        else if c = 10 \<and> I_FLAG t INLCR then Some 13 else Some c)"

definition call_write :: "'a tty_write \<Rightarrow> nat \<Rightarrow> 'a ttys_scheme \<Rightarrow> 'a ttys_scheme option" where
  "call_write wr i s = wr (tt_write (tty_table s i)) i s"

text \<open>Taking the last character back: its echo is wiped out, and it leaves the queue.\<close>

definition erase_char :: "'a tty_write \<Rightarrow> nat \<Rightarrow> u8 \<Rightarrow> 'a ttys_scheme \<Rightarrow> 'a ttys_scheme option" where
  "erase_char wr i c s =
     map_option (\<lambda>s. upd_q (secondary i s) q_unput s)
       (if L_FLAG (tt_termios (tty_table s i)) ECHO
        then let s = (if c < 32 then PUTCH 127 (write_q i s) s else s)
             in call_write wr i (PUTCH 127 (write_q i s) s)
        else Some s)"

definition line_start :: "nat \<Rightarrow> 'a ttys_scheme \<Rightarrow> bool" where
  "line_start i s \<longleftrightarrow> q_empty (queues s (secondary i s)) \<or>
     line_end (tt_termios (tty_table s i)) (q_last (queues s (secondary i s)))"

partial_function (option) kill_line :: "'a tty_write \<Rightarrow> nat \<Rightarrow> 'a ttys_scheme \<Rightarrow> 'a ttys_scheme option" where
  "kill_line wr i s =
     (if line_start i s then Some s
      else Option.bind (erase_char wr i (q_last (queues s (secondary i s))) s) (kill_line wr i))"

definition echo_char :: "nat \<Rightarrow> u8 \<Rightarrow> 'a ttys_scheme \<Rightarrow> 'a ttys_scheme" where
  "echo_char i c s =
     (let t = tt_termios (tty_table s i); q = write_q i s
      in if (L_FLAG t ECHO \<or> L_FLAG t ECHONL) \<and> c = 10 then PUTCH 13 q (PUTCH 10 q s)
         else if L_FLAG t ECHO then
           if c < 32 \<and> L_FLAG t ECHOCTL then PUTCH (c + 64) q (PUTCH 94 q s) else PUTCH c q s
         else s)"

definition accept_char :: "'a tty_write \<Rightarrow> nat \<Rightarrow> u8 \<Rightarrow> 'a ttys_scheme \<Rightarrow> 'a ttys_scheme option" where
  "accept_char wr i c s =
     (let s = (if line_end (tt_termios (tty_table s i)) c
               then upd_q (secondary i s) (\<lambda>q. q\<lparr>q_data := q_data q + 1\<rparr>) s else s)
      in map_option (\<lambda>s. PUTCH c (secondary i s) s) (call_write wr i (echo_char i c s)))"

definition tty_kill :: "nat \<Rightarrow> int \<Rightarrow> 'a ttys_scheme \<Rightarrow> 'a ttys_scheme" where
  "tty_kill i sig s = snd (kill_pg (tty_pgrp s (int i)) sig True s)"

text \<open>What becomes of a character from the read queue, once it is mapped.\<close>

definition cook_char :: "'a tty_write \<Rightarrow> nat \<Rightarrow> u8 \<Rightarrow> 'a ttys_scheme \<Rightarrow> 'a ttys_scheme option" where
  "cook_char wr i c s =
     (let t = tt_termios (tty_table s i)
      in if L_FLAG t ICANON \<and> is_cc t VKILL c then kill_line wr i s
         else if L_FLAG t ICANON \<and> is_cc t VERASE c then
           if line_start i s then Some s else erase_char wr i (q_last (queues s (secondary i s))) s
         else if I_FLAG t IXON \<and> is_cc t VSTOP c then call_write wr i (upd_tty i (\<lambda>t. t\<lparr>tt_stopped := True\<rparr>) s)
         else if I_FLAG t IXON \<and> is_cc t VSTART c then call_write wr i (upd_tty i (\<lambda>t. t\<lparr>tt_stopped := False\<rparr>) s)
         else if L_FLAG t ISIG \<and> is_cc t VINTR c then Some (tty_kill i SIGINT s)
         else if L_FLAG t ISIG \<and> is_cc t VQUIT c then Some (tty_kill i SIGQUIT s)
         else if L_FLAG t ISIG \<and> is_cc t VSUSP c then
           Some (if \<not> is_orphaned_pgrp (tty_pgrp s (int i)) s then tty_kill i SIGTSTP s else s)
         else accept_char wr i c s)"

partial_function (option) cook_loop :: "'a tty_write \<Rightarrow> nat \<Rightarrow> 'a ttys_scheme \<Rightarrow> 'a ttys_scheme option" where
  "cook_loop wr i s =
     (if q_empty (queues s (read_q i s)) \<or> q_full (queues s (secondary i s)) then Some s
      else case GETCH (read_q i s) s of (c, s) \<Rightarrow>
        Option.bind (case map_input (tt_termios (tty_table s i)) c of None \<Rightarrow> Some s | Some c \<Rightarrow> cook_char wr i c s)
          (cook_loop wr i))"

definition copy_to_cooked :: "'a tty_write \<Rightarrow> nat \<Rightarrow> 'a ttys_scheme \<Rightarrow> 'a ttys_scheme option" where
  "copy_to_cooked wr i s =
     (if read_q i s = NULL \<and> write_q i s = NULL \<and> secondary i s = NULL then Some s
      else map_option (\<lambda>s. wake_up (proc_list (secondary i s)) s) (cook_loop wr i s))"

section \<open>Reading\<close>

definition tty_signal :: "int \<Rightarrow> 'a ttys_scheme \<Rightarrow> int \<times> 'a ttys_scheme" where
  "tty_signal sig s =
     (if is_orphaned_pgrp (t_pgrp (cur s)) s then (- EIO, s)
      else let s = snd (kill_pg (t_pgrp (cur s)) sig True s);
               handler = sa_handler (t_sigaction (cur s) (nat (sig - 1)))
           in if t_blocked (cur s) AND sig_mask sig \<noteq> 0 \<or> handler = 1 then (- EIO, s)
              else if handler \<noteq> 0 then (- EINTR, s)
              else (- ERESTARTSYS, s))"

text \<open>The inner loop: characters to the user until the line or the queue ends or \<open>nr\<close> are read.\<close>

fun get_chars :: "nat \<Rightarrow> u32 \<Rightarrow> nat \<Rightarrow> 'a ttys_scheme \<Rightarrow> (u32 \<times> nat) \<times> 'a ttys_scheme" where
  "get_chars i b 0 s = ((b, 0), s)"
| "get_chars i b (Suc nr) s =
     (let t = tt_termios (tty_table s i); q = secondary i s
      in case GETCH q s of (c, s) \<Rightarrow>
        let s = (if line_end t c then upd_q q (\<lambda>r. r\<lparr>q_data := q_data r - 1\<rparr>) s else s)
        in if is_cc t VEOF c \<and> L_FLAG t ICANON then ((b, Suc nr), s)
           else let s = put_fs_byte c b s
                in if nr = 0 \<or> (c = 10 \<and> L_FLAG t ICANON) \<or> q_empty (queues s q) then ((b + 1, nr), s)
                   else get_chars i (b + 1) nr s)"

datatype tty_result = TtyRet int | TtySleep ptr ptr u32 nat

text \<open>
  A reader that sleeps stops with the task it found in the queue, the queue, and what is left to
  read; \<open>tty_read_wake\<close> goes on.
\<close>

definition tty_read_end :: "u32 \<Rightarrow> u32 \<Rightarrow> u16 \<Rightarrow> 'a ttys_scheme \<Rightarrow> tty_result \<times> 'a ttys_scheme" where
  "tty_read_end buf b flags s =
     (let s = upd_cur (\<lambda>t. t\<lparr>t_timeout := 0\<rparr>) s
      in (TtyRet (if b - buf \<noteq> 0 then sint (b - buf) else if pending s then - ERESTARTSYS
                  else if flags AND O_NONBLOCK \<noteq> 0 then - EAGAIN else 0), s))"

text \<open>Whether there is nothing to read yet.\<close>

definition tty_read_waits :: "nat \<Rightarrow> 'a ttys_scheme \<Rightarrow> bool" where
  "tty_read_waits i s \<longleftrightarrow> q_empty (queues s (secondary i s)) \<or>
     (L_FLAG (tt_termios (tty_table s i)) ICANON \<and> \<not> q_full (queues s (read_q i s)) \<and>
      q_data (queues s (secondary i s)) = 0)"

partial_function (option) tty_read_loop ::
    "'a tty_write \<Rightarrow> ptr \<Rightarrow> nat \<Rightarrow> nat \<Rightarrow> u32 \<Rightarrow> int \<Rightarrow> u32 \<Rightarrow> u16 \<Rightarrow> u32 \<Rightarrow> nat \<Rightarrow> 'a ttys_scheme \<Rightarrow>
     (tty_result, 'a ttys_scheme) outcome option" where
  "tty_read_loop wr init_task channel i buf minimum time flags b nr s =
     (if nr = 0 then (case tty_read_end buf b flags s of (r, s) \<Rightarrow> Some (Ret r s))
      else
        Option.bind (let other = channel XOR 0x40
                     in if channel AND 0x80 \<noteq> 0 \<and> tt_write (tty_table s other) \<noteq> 0 then call_write wr other s else Some s)
          (\<lambda>s. if tty_read_waits i s then
               if t_timeout (cur s) = 0 \<or> pending s \<or>
                  (channel AND 0xC0 = 0xC0 \<and> c_cflag (tt_termios (tty_table s (channel XOR 0x40))) AND CBAUD = 0)
               then (case tty_read_end buf b flags s of (r, s) \<Rightarrow> Some (Ret r s))
               else Some (and_then (interruptible_sleep_on init_task (proc_list (secondary i s)) s)
                      (\<lambda>tmp s. Ret (TtySleep tmp (proc_list (secondary i s)) b nr) s))
             else (case get_chars i b nr s of ((b, nr), s) \<Rightarrow>
               let s = wake_up (proc_list (read_q i s)) s;
                   s = (if time \<noteq> 0 then upd_cur (\<lambda>t. t\<lparr>t_timeout := time + jiffies s\<rparr>) s else s)
               in if L_FLAG (tt_termios (tty_table s i)) ICANON \<or> sint (b - buf) \<ge> minimum
                  then (case tty_read_end buf b flags s of (r, s) \<Rightarrow> Some (Ret r s))
                  else tty_read_loop wr init_task channel i buf minimum time flags b nr s)))"

definition tty_read_wake ::
    "'a tty_write \<Rightarrow> ptr \<Rightarrow> nat \<Rightarrow> nat \<Rightarrow> u32 \<Rightarrow> int \<Rightarrow> u32 \<Rightarrow> u16 \<Rightarrow> u32 \<Rightarrow> nat \<Rightarrow> 'a ttys_scheme \<Rightarrow>
     (tty_result, 'a ttys_scheme) outcome option" where
  "tty_read_wake wr init_task channel i buf minimum time flags b nr s =
     Option.bind (copy_to_cooked wr i s) (tty_read_loop wr init_task channel i buf minimum time flags b nr)"

text \<open>The minimum and the inter-character time of a read, with the time-out it sets.\<close>

definition tty_read_params :: "nat \<Rightarrow> nat \<Rightarrow> u16 \<Rightarrow> 'a ttys_scheme \<Rightarrow> (int \<times> u32) \<times> 'a ttys_scheme" where
  "tty_read_params i nr flags s =
     (let t = tt_termios (tty_table s i);
          time = 10 * ucast (c_cc t VTIME); minimum = uint (c_cc t VMIN);
          (minimum, time, s) =
            (if L_FLAG t ICANON then (int nr, 0, upd_cur (\<lambda>t. t\<lparr>t_timeout := 0xffffffff\<rparr>) s)
             else if minimum \<noteq> 0 then (minimum, time, upd_cur (\<lambda>t. t\<lparr>t_timeout := 0xffffffff\<rparr>) s)
             else (int nr, 0, if time \<noteq> 0 then upd_cur (\<lambda>t. t\<lparr>t_timeout := time + jiffies s\<rparr>) s else s));
          (time, s) = (if flags AND O_NONBLOCK \<noteq> 0 then (0, upd_cur (\<lambda>t. t\<lparr>t_timeout := 0\<rparr>) s) else (time, s))
      in ((min minimum (int nr), time), s))"

definition tty_read ::
    "'a tty_write \<Rightarrow> ptr \<Rightarrow> nat \<Rightarrow> u32 \<Rightarrow> nat \<Rightarrow> u16 \<Rightarrow> 'a ttys_scheme \<Rightarrow> (tty_result, 'a ttys_scheme) outcome option" where
  "tty_read wr init_task channel buf nr flags s =
     (let i = TTY_TABLE channel s
      in if channel > 255 \<or> read_q i s = NULL \<or> secondary i s = NULL then Some (Ret (TtyRet (- EIO)) s)
         else if t_tty (cur s) = int channel \<and> tty_pgrp s (int i) \<noteq> t_pgrp (cur s) then
           (case tty_signal SIGTTIN s of (r, s) \<Rightarrow> Some (Ret (TtyRet r) s))
         else (case tty_read_params i nr flags s of ((minimum, time), s) \<Rightarrow>
           tty_read_wake wr init_task channel i buf minimum time flags buf nr s))"

section \<open>Writing\<close>

text \<open>
  One pass of the loop of \<open>sleep_if_full\<close>; \<open>waiting\<close> tells whether the loop has been entered.
\<close>

definition waits_if_full :: "bool \<Rightarrow> ptr \<Rightarrow> 'a ttys_scheme \<Rightarrow> bool" where
  "waits_if_full waiting q s \<longleftrightarrow>
     (if waiting then True else q_full (queues s q)) \<and> \<not> pending s \<and> q_left (queues s q) < 128"

text \<open>The inner loop, which fills the queue; \<open>cr_flag\<close> is kept between calls.\<close>

function put_chars :: "nat \<Rightarrow> u32 \<Rightarrow> nat \<Rightarrow> 'a ttys_scheme \<Rightarrow> (u32 \<times> nat) \<times> 'a ttys_scheme" where
  "put_chars i b nr s =
     (if nr = 0 \<or> q_full (queues s (write_q i s)) then ((b, nr), s)
      else let t = tt_termios (tty_table s i); q = write_q i s;
               c = get_fs_byte b s; post = O_FLAG t OPOST;
               c = (if post then if c = 13 \<and> O_FLAG t OCRNL then 10
                                 else if c = 10 \<and> O_FLAG t ONLRET then 13 else c else c)
           in if post \<and> c = 10 \<and> \<not> cr_flag s \<and> O_FLAG t ONLCR
              then put_chars i b nr (PUTCH 13 q (s\<lparr>cr_flag := True\<rparr>))
              else put_chars i (b + 1) (nr - 1)
                (PUTCH (if post \<and> O_FLAG t OLCUC then c_toupper c else c) q (s\<lparr>cr_flag := False\<rparr>)))"
  by pat_completeness auto
termination
  by (relation "measure (\<lambda>(i, b, nr, s). 2 * nr + (if cr_flag s then 0 else 1))") (auto simp: PUTCH_def upd_q_def)

declare put_chars.simps [simp del]

text \<open>
  \<open>b - buf\<close> is returned in the end. A writer that finds the queue full sleeps; between two rounds it
  calls \<open>schedule\<close>.
\<close>

partial_function (option) tty_write_loop ::
    "'a tty_write \<Rightarrow> ptr \<Rightarrow> nat \<Rightarrow> u32 \<Rightarrow> bool \<Rightarrow> u32 \<Rightarrow> nat \<Rightarrow> 'a ttys_scheme \<Rightarrow>
     (tty_result, 'a ttys_scheme) outcome option" where
  "tty_write_loop wr init_task i buf waiting b nr s =
     (if nr = 0 then Some (Ret (TtyRet (sint (b - buf))) s)
      else if waits_if_full waiting (write_q i s) s then
        Some (and_then (interruptible_sleep_on init_task (proc_list (write_q i s)) s)
          (\<lambda>tmp s. Ret (TtySleep tmp (proc_list (write_q i s)) b nr) s))
      else if pending s then Some (Ret (TtyRet (sint (b - buf))) s)
      else (case put_chars i b nr s of ((b, nr), s) \<Rightarrow>
        Option.bind (call_write wr i s)
          (\<lambda>s. tty_write_loop wr init_task i buf False b nr (if nr > 0 then yield_cpu s else s))))"

definition tty_write ::
    "'a tty_write \<Rightarrow> ptr \<Rightarrow> nat \<Rightarrow> u32 \<Rightarrow> nat \<Rightarrow> 'a ttys_scheme \<Rightarrow> (tty_result, 'a ttys_scheme) outcome option" where
  "tty_write wr init_task channel buf nr s =
     (let i = TTY_TABLE channel s
      in if channel > 255 \<or> write_q i s = NULL \<or> tt_write (tty_table s i) = 0 then Some (Ret (TtyRet (- EIO)) s)
         else if L_FLAG (tt_termios (tty_table s i)) TOSTOP \<and> t_tty (cur s) = int channel \<and>
                 tty_pgrp s (int i) \<noteq> t_pgrp (cur s) then
           (case tty_signal SIGTTOU s of (r, s) \<Rightarrow> Some (Ret (TtyRet r) s))
         else tty_write_loop wr init_task i buf False buf nr s)"

section \<open>The tables at the start\<close>

definition INIT_C_CC :: "u8 list" where
  "INIT_C_CC = [3, 28, 127, 21, 4, 0, 1, 0, 17, 19, 26, 0, 18, 15, 23, 22, 0]"

definition init_termios :: "u32 \<Rightarrow> u32 \<Rightarrow> u32 \<Rightarrow> u32 \<Rightarrow> termios" where
  "init_termios i o' c l =
     \<lparr>c_iflag = i, c_oflag = o', c_cflag = c, c_lflag = l, c_line = 0,
      c_cc = (\<lambda>k. if k < 17 then INIT_C_CC ! k else 0), c_pad = (\<lambda>_. 0)\<rparr>"

definition no_queue :: "u32 \<Rightarrow> tty_queue" where
  "no_queue port = \<lparr>q_data = port, q_head = 0, q_tail = 0, q_buf = (\<lambda>_. 0)\<rparr>"

text \<open>
  Queue \<open>k\<close> of the array, of 1040 bytes each, from its address \<open>a\<close> on; and the entries of a kind of
  terminals, with the number of their first queue.
\<close>

definition queue_at :: "ptr \<Rightarrow> nat \<Rightarrow> ptr" where "queue_at a k = a + 1040 * k"

definition init_tty :: "ptr \<Rightarrow> termios \<Rightarrow> winsize \<Rightarrow> nat \<Rightarrow> nat \<Rightarrow> tty_struct" where
  "init_tty a t w f k =
     \<lparr>tt_termios = t, tt_stopped = False, tt_winsize = w, tt_write = f, tt_read_q = queue_at a k,
      tt_write_q = queue_at a (k + 1), tt_secondary = queue_at a (k + 2)\<rparr>"

definition CON_WRITE :: nat where "CON_WRITE = 1"
definition RS_WRITE :: nat where "RS_WRITE = 2"
definition MPTY_WRITE :: nat where "MPTY_WRITE = 3"
definition SPTY_WRITE :: nat where "SPTY_WRITE = 4"

definition init_queue :: "nat \<Rightarrow> tty_queue" where
  "init_queue k = no_queue (if k = 24 \<or> k = 25 then 0x3f8 else if k = 27 \<or> k = 28 then 0x2f8 else 0)"

definition init_tty_table :: "ptr \<Rightarrow> nat \<Rightarrow> u16 \<Rightarrow> u16 \<Rightarrow> nat \<Rightarrow> tty_struct" where
  "init_tty_table a NR_CONSOLES lines cols i =
     (let w = \<lparr>ws_row = 25, ws_col = 80, ws_xpixel = 0, ws_ypixel = 0\<rparr>
      in if i < NR_CONSOLES then
           init_tty a (init_termios ICRNL (OPOST OR ONLCR) 0x3f (IXON OR ISIG OR ICANON OR ECHO OR ECHOCTL OR ECHOKE))
             \<lparr>ws_row = lines, ws_col = cols, ws_xpixel = 0, ws_ypixel = 0\<rparr> CON_WRITE (3 * i)
         else if 64 \<le> i \<and> i < 66 then init_tty a (init_termios 0 0 0x3b 0) w RS_WRITE (24 + 3 * (i - 64))
         else if 128 \<le> i \<and> i < 132 then init_tty a (init_termios 0 0 0x3d 0) w MPTY_WRITE (30 + 3 * (i - 128))
         else if 192 \<le> i \<and> i < 196 then
           init_tty a (init_termios 0 0 0x3d (IXON OR ISIG OR ICANON)) w SPTY_WRITE (42 + 3 * (i - 192))
         else \<lparr>tt_termios = init_termios 0 0 0 0, tt_stopped = False,
           tt_winsize = \<lparr>ws_row = 0, ws_col = 0, ws_xpixel = 0, ws_ypixel = 0\<rparr>, tt_write = 0, tt_read_q = NULL,
           tt_write_q = NULL, tt_secondary = NULL\<rparr>)"

text \<open>\<open>tty_init\<close>, without \<open>con_init\<close> and \<open>rs_init\<close>: \<open>a\<close> is the address of the array of 54 queues.\<close>

definition tty_init :: "ptr \<Rightarrow> nat \<Rightarrow> u16 \<Rightarrow> u16 \<Rightarrow> 'a ttys_scheme \<Rightarrow> 'a ttys_scheme" where
  "tty_init a NR_CONSOLES lines cols s =
     s\<lparr>tty_table := init_tty_table a NR_CONSOLES lines cols,
       queues := (\<lambda>q. if \<exists>k < 54. q = queue_at a k then init_queue ((q - a) div 1040) else queues s q),
       waitq := (\<lambda>p. if \<exists>k < 54. p = proc_list (queue_at a k) then NULL else waitq s p),
       tty_pgrp := (\<lambda>_. 0), tty_session := (\<lambda>_. 0)\<rparr>"

section \<open>A queue as a list\<close>

definition q_ok :: "tty_queue \<Rightarrow> bool" where
  "q_ok q \<longleftrightarrow> unat (q_head q) < 1024 \<and> unat (q_tail q) < 1024"

definition q_len :: "tty_queue \<Rightarrow> nat" where "q_len q = unat (q_chars q)"

definition q_list :: "tty_queue \<Rightarrow> u8 list" where
  "q_list q = map (\<lambda>k. q_buf q (of_nat ((unat (q_tail q) + k) mod 1024))) [0..<q_len q]"

lemma and_1023: "unat (x AND 1023) = unat x mod 1024" for x :: u32
proof -
  have "x AND 1023 = take_bit 10 x"
    by (simp add: take_bit_eq_mask mask_eq_exp_minus_1)
  then show ?thesis
    by (simp add: unsigned_take_bit_eq take_bit_nat_def)
qed

lemma sub_and_1023:
  fixes a b :: u32
  assumes "unat a < 1024" "unat b \<le> 1024"
  shows "unat ((a - b) AND 1023) = (unat a + 1024 - unat b) mod 1024"
proof -
  have "unat (a - b) = (unat a + 2 ^ 32 - unat b) mod 2 ^ 32"
    using unat32_bound [of a] unat32_bound [of b] by (auto simp: unat_sub_if_size word_size not_le le_mod_geq)
  then have "unat (a - b) mod 1024 = (unat a + 2 ^ 32 - unat b) mod 1024"
    by (simp add: mod_mod_cancel)
  also have "(2::nat) ^ 32 = 1024 + 1024 * (2 ^ 22 - 1)"
    by simp
  also have "(unat a + (1024 + 1024 * (2 ^ 22 - 1)) - unat b) mod 1024 = (unat a + 1024 - unat b + 1024 * (2 ^ 22 - 1)) mod 1024"
    using assms by (intro arg_cong [where f = "\<lambda>x. x mod 1024"]) simp
  also have "\<dots> = (unat a + 1024 - unat b) mod 1024"
    by (rule mod_mult_self2)
  finally show ?thesis
    by (simp only: and_1023)
qed

lemma q_len_eq:
  assumes "q_ok q"
  shows "q_len q = (unat (q_head q) + 1024 - unat (q_tail q)) mod 1024"
  using sub_and_1023 assms by (simp add: q_len_def q_chars_def q_ok_def)

lemma q_len_less: "q_len q < 1024"
  by (simp add: q_len_def q_chars_def and_1023)

lemma ring_distance:
  assumes "l < 1024" "t < (1024 :: nat)"
  shows "((t + l) mod 1024 + 1024 - t) mod 1024 = l"
proof (cases "t + l < 1024")
  case False
  then have "(t + l) mod 1024 = t + l - 1024"
    using assms by (simp add: mod_if)
  then show ?thesis
    using False assms by simp
qed simp

lemma ring_inj: "t < (1024 :: nat) \<Longrightarrow> k < 1024 \<Longrightarrow> l < 1024 \<Longrightarrow> (t + k) mod 1024 = (t + l) mod 1024 \<longleftrightarrow> k = l"
  using ring_distance [of k t] ring_distance [of l t] by metis

lemma q_lenI: "q_ok q \<Longrightarrow> unat (q_head q) = (unat (q_tail q) + l) mod 1024 \<Longrightarrow> l < 1024 \<Longrightarrow> q_len q = l"
  using ring_distance [of l "unat (q_tail q)"] by (simp add: q_len_eq q_ok_def)

lemma head_of_tail:
  assumes "q_ok q"
  shows "unat (q_head q) = (unat (q_tail q) + q_len q) mod 1024"
proof -
  have "unat (q_head q) < 1024" "unat (q_tail q) < 1024"
    using assms by (simp_all add: q_ok_def)
  moreover have "(unat (q_tail q) + q_len q) mod 1024 = (unat (q_tail q) + (unat (q_head q) + 1024 - unat (q_tail q))) mod 1024"
    unfolding q_len_eq [OF assms] by (simp add: mod_simps)
  ultimately show ?thesis
    by simp
qed

lemma q_inc_ok: "unat a < 1024 \<Longrightarrow> unat (q_inc a) = (unat a + 1) mod 1024"
  unfolding q_inc_def and_1023 by (simp add: unat_word_ariths)

lemma q_dec_ok: "unat a < 1024 \<Longrightarrow> unat (q_dec a) = (unat a + 1023) mod 1024"
  unfolding q_dec_def using sub_and_1023 [of a 1] by (simp add: add.commute)

lemma q_list_nth: "k < q_len q \<Longrightarrow> q_list q ! k = q_buf q (of_nat ((unat (q_tail q) + k) mod 1024))"
  by (simp add: q_list_def)

lemma length_q_list [simp]: "length (q_list q) = q_len q"
  by (simp add: q_list_def)

lemma q_empty_iff:
  assumes "q_ok q"
  shows "q_empty q \<longleftrightarrow> q_list q = []"
proof -
  have "unat (q_tail q) < 1024"
    using assms by (simp add: q_ok_def)
  then have "unat (q_head q) = unat (q_tail q) \<longleftrightarrow> q_len q = 0"
    using head_of_tail [OF assms] ring_inj [of "unat (q_tail q)" "q_len q" 0] q_len_less [of q] by simp
  then show ?thesis
    by (simp add: q_empty_def word_unat_eq_iff flip: length_0_conv)
qed

lemma q_full_iff:
  assumes "q_ok q"
  shows "q_full q \<longleftrightarrow> q_len q = 1023"
proof -
  have "q_left q = (q_tail q - (q_head q + 1)) AND 1023"
    by (simp add: q_left_def algebra_simps)
  moreover have "unat (q_head q + 1) = unat (q_head q) + 1"
    using assms by (simp add: q_ok_def unat_word_ariths)
  ultimately have left: "unat (q_left q) = (unat (q_tail q) + 1024 - (unat (q_head q) + 1)) mod 1024"
    using sub_and_1023 [of "q_tail q" "q_head q + 1"] assms by (simp add: q_ok_def)
  have "(unat (q_tail q) + 1024 - (unat (q_head q) + 1)) mod 1024 = 1023 - q_len q"
  proof -
    let ?l = "q_len q" and ?t = "unat (q_tail q)"
    have l: "?l < 1024" "?t < 1024" "unat (q_head q) = (?t + ?l) mod 1024"
      using q_len_less head_of_tail [OF assms] assms by (simp_all add: q_ok_def)
    show ?thesis
    proof (cases "?t + ?l < 1024")
      case True
      then have "unat (q_head q) = ?t + ?l"
        using l(3) by simp
      then show ?thesis
        using True by simp
    next
      case False
      then have "unat (q_head q) = ?t + ?l - 1024"
        using l by (simp add: mod_if)
      then have "?t + 1024 - (unat (q_head q) + 1) = 1024 + (1023 - ?l)"
        using False l(1) by simp
      then show ?thesis
        using l(1) by (simp only: mod_add_self1) simp
    qed
  qed
  then have "unat (q_left q) = 0 \<longleftrightarrow> q_len q = 1023"
    using left q_len_less [of q] by linarith
  then show ?thesis
    by (simp add: q_full_def unsigned_eq_0_iff)
qed

lemma q_put_ok:
  assumes "q_ok q" "\<not> q_full q"
  shows "q_ok (q_put c q)" "q_list (q_put c q) = q_list q @ [c]"
proof -
  let ?t = "unat (q_tail q)" and ?h = "unat (q_head q)"
  have h: "?h < 1024" "?t < 1024" "q_len q < 1023" "?h = (?t + q_len q) mod 1024"
    using assms q_full_iff [OF assms(1)] q_len_less [of q] head_of_tail [OF assms(1)] by (auto simp: q_ok_def)
  show ok: "q_ok (q_put c q)"
    using assms(1) by (simp add: q_ok_def q_put_def q_inc_ok)
  have len: "q_len (q_put c q) = Suc (q_len q)"
    using h by (intro q_lenI [OF ok]) (simp_all add: q_put_def q_inc_ok mod_simps)
  show "q_list (q_put c q) = q_list q @ [c]"
  proof (rule nth_equalityI)
    fix k assume "k < length (q_list (q_put c q))"
    then have k: "k < Suc (q_len q)"
      by (simp add: len)
    then have "q_list (q_put c q) ! k = q_buf (q_put c q) (of_nat ((?t + k) mod 1024))"
      using q_list_nth [of k "q_put c q"] len by (simp add: q_put_def)
    moreover have "(of_nat ((?t + k) mod 1024) :: u32) = q_head q \<longleftrightarrow> k = q_len q"
    proof -
      have "unat (of_nat ((?t + k) mod 1024) :: u32) = (?t + k) mod 1024"
        by (simp add: unat_of_nat mod_less)
      then have "(of_nat ((?t + k) mod 1024) :: u32) = q_head q \<longleftrightarrow> (?t + k) mod 1024 = (?t + q_len q) mod 1024"
        using h(4) by (metis word_unat_eq_iff)
      also have "\<dots> \<longleftrightarrow> k = q_len q"
        using k h by (intro ring_inj) simp_all
      finally show ?thesis .
    qed
    ultimately show "q_list (q_put c q) ! k = (q_list q @ [c]) ! k"
      using k q_list_nth [of k q] by (auto simp: q_put_def nth_append less_Suc_eq)
  qed (simp add: len)
qed

lemma q_get_ok:
  assumes "q_ok q" "\<not> q_empty q"
  shows "q_ok (snd (q_get q))" "q_list q = fst (q_get q) # q_list (snd (q_get q))"
proof -
  let ?t = "unat (q_tail q)" and ?h = "unat (q_head q)" and ?r = "snd (q_get q)"
  have h: "?h < 1024" "?t < 1024" "q_len q \<noteq> 0"
    using assms q_empty_iff [OF assms(1)] by (auto simp: q_ok_def simp flip: length_q_list)
  show ok: "q_ok ?r"
    using assms(1) by (simp add: q_ok_def q_get_def q_inc_ok)
  obtain m where m: "q_len q = Suc m"
    using h(3) by (cases "q_len q") auto
  then have "q_len ?r = m"
    using h(2) head_of_tail [OF assms(1)] q_len_less [of q]
    by (intro q_lenI [OF ok]) (simp_all add: q_get_def q_inc_ok mod_simps)
  then have len: "q_len q = Suc (q_len ?r)"
    using m by simp
  show "q_list q = fst (q_get q) # q_list ?r"
  proof (rule nth_equalityI)
    fix k assume "k < length (q_list q)"
    then have k: "k < q_len q"
      by simp
    show "q_list q ! k = (fst (q_get q) # q_list ?r) ! k"
    proof (cases k)
      case 0
      then show ?thesis
        using k h(2) by (simp add: q_list_nth q_get_def)
    next
      case (Suc j)
      have "((?t + 1) mod 1024 + j) mod 1024 = (?t + k) mod 1024"
        by (simp add: Suc mod_simps)
      then show ?thesis
        using k Suc len q_list_nth [of j ?r] q_inc_ok [OF h(2)] by (simp add: q_list_nth q_get_def)
    qed
  qed (simp add: len)
qed

lemma q_unput_ok:
  assumes "q_ok q" "\<not> q_empty q"
  shows "q_ok (q_unput q)" "q_list q = q_list (q_unput q) @ [q_last q]"
proof -
  let ?t = "unat (q_tail q)" and ?h = "unat (q_head q)" and ?r = "q_unput q"
  have h: "?h < 1024" "?t < 1024" "q_len q \<noteq> 0" "?h = (?t + q_len q) mod 1024" "q_len q < 1024"
    using assms q_empty_iff [OF assms(1)] head_of_tail [OF assms(1)] q_len_less [of q]
    by (auto simp: q_ok_def simp flip: length_q_list)
  show ok: "q_ok ?r"
    using assms(1) by (simp add: q_ok_def q_unput_def q_dec_ok)
  have behind: "(?h + 1023) mod 1024 = (?t + (q_len q - 1)) mod 1024"
  proof -
    have "(?h + 1023) mod 1024 = (?t + q_len q + 1023) mod 1024"
      unfolding h(4) by (simp add: mod_simps)
    also have "?t + q_len q + 1023 = ?t + (q_len q - 1) + 1024"
      using h(3) by simp
    finally show ?thesis
      by simp
  qed
  then have "q_len ?r = q_len q - 1"
    using h by (intro q_lenI [OF ok]) (simp_all add: q_unput_def q_dec_ok)
  then have len: "q_len q = Suc (q_len ?r)"
    using h(3) by simp
  show "q_list q = q_list ?r @ [q_last q]"
  proof (rule nth_equalityI)
    fix k assume "k < length (q_list q)"
    then have k: "k < q_len q"
      by simp
    show "q_list q ! k = (q_list ?r @ [q_last q]) ! k"
    proof (cases "k < q_len ?r")
      case True
      then show ?thesis
        using k by (simp add: q_list_nth nth_append) (simp add: q_unput_def)
    next
      case False
      then have "k = q_len ?r"
        using k len by simp
      moreover have "(?t + q_len ?r) mod 1024 = (?h + 1023) mod 1024"
        using behind len by simp
      moreover have "1023 AND (q_head q - 1) = q_dec (q_head q)"
        by (simp add: q_dec_def and.commute)
      moreover have "of_nat ((?h + 1023) mod 1024) = q_dec (q_head q)"
        by (simp only: q_dec_ok [OF h(1), symmetric]) simp
      ultimately show ?thesis
        using k by (simp add: q_list_nth nth_append q_last_def)
    qed
  qed (simp add: len)
qed

text \<open>A character put into a full queue makes it empty: everything in it is lost.\<close>

lemma q_put_full:
  assumes "q_ok q" "q_full q"
  shows "q_list (q_put c q) = []"
proof -
  have "q_len q = 1023"
    using assms by (simp add: q_full_iff)
  then have "unat (q_head (q_put c q)) = (unat (q_tail q) + 1023 + 1) mod 1024"
    using head_of_tail [OF assms(1)] assms(1) by (simp add: q_put_def q_inc_ok q_ok_def mod_simps)
  then have "unat (q_head (q_put c q)) = unat (q_tail (q_put c q))"
    using assms(1) by (simp add: q_put_def q_ok_def)
  then have "q_head (q_put c q) = q_tail (q_put c q)"
    by (simp only: word_unat_eq_iff)
  then show ?thesis
    by (simp add: q_list_def q_len_def q_chars_def)
qed

section \<open>The line discipline on lists\<close>

text \<open>What a character does to the cooked input, as a list.\<close>

definition edit :: "termios \<Rightarrow> u8 \<Rightarrow> u8 list \<Rightarrow> u8 list" where
  "edit t c xs =
     (if L_FLAG t ICANON \<and> is_cc t VKILL c then rev (dropWhile (\<lambda>x. \<not> line_end t x) (rev xs))
      else if L_FLAG t ICANON \<and> is_cc t VERASE c then if xs = [] \<or> line_end t (last xs) then xs else butlast xs
      else if (I_FLAG t IXON \<and> (is_cc t VSTOP c \<or> is_cc t VSTART c)) \<or>
              (L_FLAG t ISIG \<and> (is_cc t VINTR c \<or> is_cc t VQUIT c \<or> is_cc t VSUSP c)) then xs
      else xs @ [c])"

definition cook :: "termios \<Rightarrow> u8 \<Rightarrow> u8 list \<Rightarrow> u8 list" where
  "cook t c xs = (case map_input t c of None \<Rightarrow> xs | Some c \<Rightarrow> edit t c xs)"

definition lines :: "termios \<Rightarrow> u8 list \<Rightarrow> nat" where
  "lines t xs = length (filter (line_end t) xs)"

text \<open>
  Terminal \<open>i\<close> with its settings \<open>t\<close>, its three queues and its driver \<open>f\<close>. The count \<open>data\<close> of the
  cooked queue is that of the line ends in it.
\<close>

definition tty_is :: "nat \<Rightarrow> termios \<Rightarrow> ptr \<Rightarrow> ptr \<Rightarrow> ptr \<Rightarrow> nat \<Rightarrow> 'a ttys_scheme \<Rightarrow> bool" where
  "tty_is i t r w v f s \<longleftrightarrow> tt_termios (tty_table s i) = t \<and> tt_read_q (tty_table s i) = r \<and>
     tt_write_q (tty_table s i) = w \<and> tt_secondary (tty_table s i) = v \<and> tt_write (tty_table s i) = f \<and>
     r \<noteq> NULL \<and> distinct [r, w, v] \<and> q_ok (queues s r) \<and> q_ok (queues s v)"

definition lines_ok :: "termios \<Rightarrow> tty_queue \<Rightarrow> bool" where
  "lines_ok t q \<longleftrightarrow> q_data q = of_nat (lines t (q_list q))"

lemma more_ttys: "kernel.more u = kernel.more s \<Longrightarrow> tty_table u = tty_table s \<and> queues u = queues s"
  by (cases u; cases s) simp

lemma kernel_more_upd_task [simp]: "kernel.more (upd_task p f s) = kernel.more s"
  by (simp add: upd_task_def)

lemma kernel_more_send_sig: "kernel.more (snd (send_sig sig p priv s)) = kernel.more s"
  by (simp add: send_sig_def Let_def yield_cpu_def)

lemma kernel_more_for_slots:
  assumes "\<And>i a. kernel.more (snd (f i a)) = kernel.more (snd a)"
  shows "kernel.more (snd (for_slots n f a)) = kernel.more (snd a)"
  by (induction n arbitrary: a) (simp_all add: assms)

lemma kernel_more_kill_pg:
  fixes s :: "'a kernel_scheme"
  shows "kernel.more (snd (kill_pg pgrp sig priv s)) = kernel.more s"
proof -
  have "kernel.more (snd (kill_pg_step pgrp sig priv i a)) = kernel.more (snd a)"
    for i and a :: "(nat \<times> int) \<times> 'a kernel_scheme"
    using kernel_more_send_sig [of sig "task (snd a) i" priv "snd a"]
    by (auto simp: kill_pg_step_def split: prod.splits)
  then have "kernel.more (snd (for_slots NR_TASKS (kill_pg_step pgrp sig priv) ((0, - ESRCH), s))) = kernel.more s"
    using kernel_more_for_slots [of "kill_pg_step pgrp sig priv" NR_TASKS "((0, - ESRCH), s)"] by simp
  then show ?thesis
    by (auto simp: kill_pg_def split: prod.splits)
qed

lemma kernel_more_wake_up [simp]: "kernel.more (wake_up q s) = kernel.more s"
  by (simp add: wake_up_def)

lemma tty_is_cong:
  "kernel.more u = kernel.more s \<Longrightarrow> tty_is i t r w v f u = tty_is i t r w v f s"
  using more_ttys [of u s] by (auto simp: tty_is_def)

lemma tty_kill_ok:
  "kernel.more (tty_kill i sig s) = kernel.more s"
  by (simp add: tty_kill_def kernel_more_kill_pg)

text \<open>
  A driver whose write function returns and only takes characters from the terminal's own write
  queue.
\<close>

locale tty_driver =
  fixes wr :: "'a tty_write" and f :: nat
  assumes drains: "\<exists>u. wr f i s = Some u \<and> tty_table u = tty_table s \<and>
    (\<forall>q. q \<noteq> tt_write_q (tty_table s i) \<longrightarrow> queues u q = queues s q)"
begin

lemma call_write_ok:
  assumes "tty_is i t r w v f s"
  shows "\<exists>u. call_write wr i s = Some u \<and> tty_is i t r w v f u \<and> queues u r = queues s r \<and> queues u v = queues s v"
proof -
  obtain u where "wr f i s = Some u" "tty_table u = tty_table s" "\<And>q. q \<noteq> w \<Longrightarrow> queues u q = queues s q"
    using drains [of i s] assms by (auto simp: tty_is_def)
  with assms show ?thesis
    by (auto simp: call_write_def tty_is_def)
qed

lemma PUTCH_ok:
  assumes "tty_is i t r w v f s"
  shows "tty_is i t r w v f (PUTCH c w s)" "queues (PUTCH c w s) r = queues s r" "queues (PUTCH c w s) v = queues s v"
    "tt_write_q (tty_table (PUTCH c w s) i) = w"
  using assms by (auto simp: tty_is_def PUTCH_def upd_q_def)

lemma erase_char_ok:
  assumes "tty_is i t r w v f s" "\<not> q_empty (queues s v)"
  shows "\<exists>u. erase_char wr i c s = Some u \<and> tty_is i t r w v f u \<and> queues u r = queues s r \<and>
    queues u v = q_unput (queues s v)"
proof -
  have w: "tt_write_q (tty_table s i) = w" "r \<noteq> v"
    using assms(1) by (auto simp: tty_is_def)
  define s1 where "s1 = (if L_FLAG t ECHO then PUTCH 127 w (if c < 32 then PUTCH 127 w s else s) else s)"
  have s1: "tty_is i t r w v f s1" "queues s1 r = queues s r" "queues s1 v = queues s v"
    using PUTCH_ok [OF assms(1), of 127] PUTCH_ok [OF PUTCH_ok(1) [OF assms(1), of 127], of 127] assms(1)
    by (auto simp: s1_def)
  obtain u where u: "(if L_FLAG t ECHO then call_write wr i s1 else Some s1) = Some u" "tty_is i t r w v f u"
    "queues u r = queues s r" "queues u v = queues s v"
    using call_write_ok [OF s1(1)] s1 by (cases "L_FLAG t ECHO") auto
  have "erase_char wr i c s = Some (upd_q v q_unput u)"
    using u(1,2) assms(1) PUTCH_ok(4) [OF assms(1), of 127]
    by (auto simp: erase_char_def s1_def tty_is_def Let_def split: if_splits)
  moreover have "tty_is i t r w v f (upd_q v q_unput u)"
    using u(2,4) assms q_unput_ok(1) by (auto simp: tty_is_def upd_q_def)
  ultimately show ?thesis
    using u(3,4) w(2) by (auto simp: upd_q_def)
qed

lemma line_start_ok:
  assumes "tty_is i t r w v f s"
  shows "line_start i s \<longleftrightarrow> q_list (queues s v) = [] \<or> line_end t (last (q_list (queues s v)))"
    "\<not> line_start i s \<Longrightarrow> \<not> q_empty (queues s v)"
proof -
  have s: "q_ok (queues s v)" "tt_secondary (tty_table s i) = v" "tt_termios (tty_table s i) = t"
    using assms by (simp_all add: tty_is_def)
  show "line_start i s \<longleftrightarrow> q_list (queues s v) = [] \<or> line_end t (last (q_list (queues s v)))"
    using q_unput_ok(2) [OF s(1)] unfolding line_start_def s q_empty_iff [OF s(1)] by (metis last_snoc)
  show "\<not> line_start i s \<Longrightarrow> \<not> q_empty (queues s v)"
    by (simp add: line_start_def s)
qed

lemma lines_drop_last: "xs \<noteq> [] \<Longrightarrow> \<not> line_end t (last xs) \<Longrightarrow> lines t (butlast xs) = lines t xs"
  by (induction xs rule: rev_induct) (simp_all add: lines_def)

lemma kill_line_ok:
  assumes "tty_is i t r w v f s" "lines_ok t (queues s v)"
  shows "\<exists>u. kill_line wr i s = Some u \<and> tty_is i t r w v f u \<and> queues u r = queues s r \<and> lines_ok t (queues u v) \<and>
    q_list (queues u v) = rev (dropWhile (\<lambda>x. \<not> line_end t x) (rev (q_list (queues s v))))"
  using assms
proof (induction "q_list (queues s v)" arbitrary: s rule: rev_induct)
  case Nil
  then show ?case
    using line_start_ok(1) [OF Nil.prems(1)] by (subst kill_line.simps) auto
next
  case (snoc x xs)
  note start = line_start_ok [OF snoc.prems(1)]
  show ?case
  proof (cases "line_end t x")
    case True
    then have "line_start i s"
      using start(1) snoc.hyps(2) [symmetric] by simp
    with True snoc.prems snoc.hyps(2) [symmetric] show ?thesis
      by (subst kill_line.simps) simp
  next
    case False
    then have ns: "\<not> line_start i s" "\<not> q_empty (queues s v)"
      using start snoc.hyps(2) [symmetric] by auto
    obtain u where u: "erase_char wr i (q_last (queues s v)) s = Some u" "tty_is i t r w v f u"
      "queues u r = queues s r" "queues u v = q_unput (queues s v)"
      using erase_char_ok [OF snoc.prems(1) ns(2)] by blast
    have q: "q_ok (queues s v)" "tt_secondary (tty_table s i) = v"
      using snoc.prems(1) by (simp_all add: tty_is_def)
    have xs: "xs = q_list (queues u v)"
      using q_unput_ok(2) [OF q(1) ns(2)] snoc.hyps(2) [symmetric] u(4) by simp
    have "lines_ok t (queues u v)"
      using snoc.prems(2) False snoc.hyps(2) [symmetric] xs u(4)
      by (simp add: lines_ok_def lines_def q_unput_def)
    then obtain u' where u': "kill_line wr i u = Some u'" "tty_is i t r w v f u'" "queues u' r = queues u r"
      "lines_ok t (queues u' v)" "q_list (queues u' v) = rev (dropWhile (\<lambda>x. \<not> line_end t x) (rev (q_list (queues u v))))"
      using snoc.hyps(1) [OF xs u(2)] by blast
    have "kill_line wr i s = Some u'"
      using ns(1) u(1) u'(1) q(2) by (subst kill_line.simps) simp
    with u' u(3) False xs snoc.hyps(2) [symmetric] show ?thesis
      by auto
  qed
qed

lemma echo_char_ok:
  assumes "tty_is i t r w v f s"
  shows "tty_is i t r w v f (echo_char i c s)" "queues (echo_char i c s) r = queues s r" "queues (echo_char i c s) v = queues s v"
  using assms by (auto simp: echo_char_def Let_def tty_is_def PUTCH_def upd_q_def)

lemma accept_char_ok:
  assumes s: "tty_is i t r w v f s" "\<not> q_full (queues s v)" "lines_ok t (queues s v)"
  shows "\<exists>u. accept_char wr i c s = Some u \<and> tty_is i t r w v f u \<and> queues u r = queues s r \<and> lines_ok t (queues u v) \<and>
    q_list (queues u v) = q_list (queues s v) @ [c]"
proof -
  define s1 where "s1 = (if line_end t c then upd_q v (\<lambda>q. q\<lparr>q_data := q_data q + 1\<rparr>) s else s)"
  have q1: "q_list (q\<lparr>q_data := k\<rparr>) = q_list q" "q_full (q\<lparr>q_data := k\<rparr>) = q_full q" for q k
    by (simp_all add: q_list_def q_len_def q_chars_def q_full_def q_left_def)
  have s1: "tty_is i t r w v f s1" "queues s1 r = queues s r" "\<not> q_full (queues s1 v)" "q_list (queues s1 v) = q_list (queues s v)"
    "q_data (queues s1 v) = of_nat (lines t (q_list (queues s v) @ [c]))"
    using s by (auto simp: s1_def tty_is_def upd_q_def q_ok_def q1 lines_ok_def lines_def)
  obtain u where u: "call_write wr i (echo_char i c s1) = Some u" "tty_is i t r w v f u" "queues u r = queues s r"
    "queues u v = queues s1 v"
    using call_write_ok [OF echo_char_ok(1) [OF s1(1), of c]] echo_char_ok(2,3) [OF s1(1), of c] s1(2) by auto
  have v: "tt_secondary (tty_table u i) = v" "tt_secondary (tty_table s i) = v" "tt_termios (tty_table s i) = t" "r \<noteq> v" "q_ok (queues u v)"
    using u(2) s(1) by (auto simp: tty_is_def)
  have put: "q_ok (q_put c (queues u v))" "q_list (q_put c (queues u v)) = q_list (queues s v) @ [c]"
    using q_put_ok [of "queues u v" c] v(5) u(4) s1(3,4) by simp_all
  have "accept_char wr i c s = Some (PUTCH c v u)"
    unfolding accept_char_def Let_def v(2,3) s1_def [symmetric] u(1) by (simp add: v(1))
  moreover have "tty_is i t r w v f (PUTCH c v u)"
    using u(2) put(1) by (auto simp: tty_is_def PUTCH_def upd_q_def)
  moreover have "lines_ok t (queues (PUTCH c v u) v)"
    using put(2) u(4) s1(5) by (simp add: lines_ok_def PUTCH_def upd_q_def) (simp add: q_put_def)
  ultimately show ?thesis
    using put(2) u(3) v(4) by (auto simp: PUTCH_def upd_q_def)
qed

lemma stop_ok:
  assumes "tty_is i t r w v f s"
  shows "\<exists>u. call_write wr i (upd_tty i (\<lambda>t. t\<lparr>tt_stopped := b\<rparr>) s) = Some u \<and> tty_is i t r w v f u \<and>
    queues u r = queues s r \<and> queues u v = queues s v"
proof -
  have "tty_is i t r w v f (upd_tty i (\<lambda>t. t\<lparr>tt_stopped := b\<rparr>) s)"
    using assms by (simp add: tty_is_def upd_tty_def)
  from call_write_ok [OF this] show ?thesis
    by (simp add: upd_tty_def)
qed

lemma signal_ok:
  assumes "tty_is i t r w v f s"
  shows "tty_is i t r w v f (tty_kill i sig s) \<and> queues (tty_kill i sig s) r = queues s r \<and>
    queues (tty_kill i sig s) v = queues s v"
  using assms tty_is_cong [OF tty_kill_ok [of i sig s]] more_ttys [OF tty_kill_ok [of i sig s]] by simp

lemma cook_char_ok:
  assumes s: "tty_is i t r w v f s" "\<not> q_full (queues s v)" "lines_ok t (queues s v)"
  shows "\<exists>u. cook_char wr i c s = Some u \<and> tty_is i t r w v f u \<and> queues u r = queues s r \<and> lines_ok t (queues u v) \<and>
    q_list (queues u v) = edit t c (q_list (queues s v))"
proof -
  have t: "tt_termios (tty_table s i) = t" "tt_secondary (tty_table s i) = v" "q_ok (queues s v)"
    using s(1) by (simp_all add: tty_is_def)
  note start = line_start_ok [OF s(1)]
  consider (kill) "L_FLAG t ICANON \<and> is_cc t VKILL c"
    | (erase) "\<not> (L_FLAG t ICANON \<and> is_cc t VKILL c)" "L_FLAG t ICANON \<and> is_cc t VERASE c"
    | (other) "\<not> (L_FLAG t ICANON \<and> is_cc t VKILL c)" "\<not> (L_FLAG t ICANON \<and> is_cc t VERASE c)"
    by blast
  then show ?thesis
  proof cases
    case kill
    with kill_line_ok [OF s(1,3)] show ?thesis
      by (simp add: cook_char_def edit_def t)
  next
    case erase
    show ?thesis
    proof (cases "line_start i s")
      case True
      with erase s start show ?thesis
        by (simp add: cook_char_def edit_def t)
    next
      case False
      obtain u where u: "erase_char wr i (q_last (queues s v)) s = Some u" "tty_is i t r w v f u" "queues u r = queues s r"
        "queues u v = q_unput (queues s v)"
        using erase_char_ok [OF s(1) start(2) [OF False]] by blast
      have l: "q_list (queues u v) = butlast (q_list (queues s v))" "q_data (queues u v) = q_data (queues s v)"
        using q_unput_ok(2) [OF t(3) start(2) [OF False]] by (simp_all add: u(4)) (simp add: q_unput_def)
      then have "lines_ok t (queues u v)"
        using s(3) lines_drop_last [of "q_list (queues s v)" t] False start(1) by (simp add: lines_ok_def)
      with erase False u l start(1) show ?thesis
        by (simp add: cook_char_def edit_def t)
    qed
  next
    case other
    then have keep: "edit t c xs = (if (I_FLAG t IXON \<and> (is_cc t VSTOP c \<or> is_cc t VSTART c)) \<or>
        (L_FLAG t ISIG \<and> (is_cc t VINTR c \<or> is_cc t VQUIT c \<or> is_cc t VSUSP c)) then xs else xs @ [c])" for xs
      unfolding edit_def by (simp only: if_False)
    have cook: "cook_char wr i c s =
      (if I_FLAG t IXON \<and> is_cc t VSTOP c then call_write wr i (upd_tty i (\<lambda>t. t\<lparr>tt_stopped := True\<rparr>) s)
       else if I_FLAG t IXON \<and> is_cc t VSTART c then call_write wr i (upd_tty i (\<lambda>t. t\<lparr>tt_stopped := False\<rparr>) s)
       else if L_FLAG t ISIG \<and> is_cc t VINTR c then Some (tty_kill i SIGINT s)
       else if L_FLAG t ISIG \<and> is_cc t VQUIT c then Some (tty_kill i SIGQUIT s)
       else if L_FLAG t ISIG \<and> is_cc t VSUSP c then
         Some (if \<not> is_orphaned_pgrp (tty_pgrp s (int i)) s then tty_kill i SIGTSTP s else s)
       else accept_char wr i c s)"
      unfolding cook_char_def Let_def t(1) using other by (simp only: if_False)
    consider (xon) "I_FLAG t IXON \<and> (is_cc t VSTOP c \<or> is_cc t VSTART c)"
      | (sig) "\<not> (I_FLAG t IXON \<and> (is_cc t VSTOP c \<or> is_cc t VSTART c))"
          "L_FLAG t ISIG \<and> (is_cc t VINTR c \<or> is_cc t VQUIT c \<or> is_cc t VSUSP c)"
      | (accept) "\<not> (I_FLAG t IXON \<and> (is_cc t VSTOP c \<or> is_cc t VSTART c))"
          "\<not> (L_FLAG t ISIG \<and> (is_cc t VINTR c \<or> is_cc t VQUIT c \<or> is_cc t VSUSP c))"
      by blast
    then show ?thesis
    proof cases
      case xon
      then obtain b where b: "cook_char wr i c s = call_write wr i (upd_tty i (\<lambda>t. t\<lparr>tt_stopped := b\<rparr>) s)"
        unfolding cook by (cases "is_cc t VSTOP c") auto
      with xon s(3) stop_ok [OF s(1), of b] show ?thesis
        unfolding b keep by auto
    next
      case sig
      then have "\<exists>u. cook_char wr i c s = Some u \<and> (u = s \<or> (\<exists>n. u = tty_kill i n s))"
        unfolding cook by auto
      then obtain u where "cook_char wr i c s = Some u" "u = s \<or> (\<exists>n. u = tty_kill i n s)"
        by blast
      with sig s signal_ok [OF s(1)] show ?thesis
        unfolding keep by auto
    next
      case accept
      then have "cook_char wr i c s = accept_char wr i c s"
        unfolding cook by auto
      with accept accept_char_ok [OF s, of c] show ?thesis
        unfolding keep by (simp only: if_False simp_thms)
    qed
  qed
qed

lemma cook_loop_ok:
  assumes "tty_is i t r w v f s" "lines_ok t (queues s v)"
  shows "\<exists>n u. cook_loop wr i s = Some u \<and> tty_is i t r w v f u \<and> lines_ok t (queues u v) \<and>
    n \<le> length (q_list (queues s r)) \<and> q_list (queues u r) = drop n (q_list (queues s r)) \<and>
    q_list (queues u v) = fold (cook t) (take n (q_list (queues s r))) (q_list (queues s v)) \<and>
    (n = length (q_list (queues s r)) \<or> q_full (queues u v))"
  using assms
proof (induction "q_list (queues s r)" arbitrary: s)
  case Nil
  then have "q_empty (queues s r)" "tt_read_q (tty_table s i) = r"
    by (simp_all add: tty_is_def q_empty_iff)
  with Nil show ?case
    by (subst cook_loop.simps) (intro exI [of _ 0], simp)
next
  case (Cons x xs)
  have q: "q_ok (queues s r)" "tt_read_q (tty_table s i) = r" "tt_secondary (tty_table s i) = v" "r \<noteq> v" "tt_termios (tty_table s i) = t"
    using Cons.prems(1) by (auto simp: tty_is_def)
  have ne: "\<not> q_empty (queues s r)"
    using Cons.hyps(2) q(1) by (metis list.distinct(1) q_empty_iff)
  show ?case
  proof (cases "q_full (queues s v)")
    case True
    then show ?thesis
      using Cons.prems q by (subst cook_loop.simps) (intro exI [of _ 0], simp)
  next
    case False
    let ?s1 = "upd_q r (\<lambda>r. snd (q_get r)) s"
    have get: "fst (q_get (queues s r)) = x" "q_list (snd (q_get (queues s r))) = xs" "q_ok (snd (q_get (queues s r)))"
      using q_get_ok [OF q(1) ne] Cons.hyps(2) by auto
    have s1: "tty_is i t r w v f ?s1" "\<not> q_full (queues ?s1 v)" "lines_ok t (queues ?s1 v)" "q_list (queues ?s1 r) = xs"
      "queues ?s1 v = queues s v"
      using Cons.prems get False q(4) by (auto simp: tty_is_def upd_q_def)
    obtain u where u: "(case map_input t x of None \<Rightarrow> Some ?s1 | Some c \<Rightarrow> cook_char wr i c ?s1) = Some u"
      "tty_is i t r w v f u" "queues u r = queues ?s1 r" "lines_ok t (queues u v)"
      "q_list (queues u v) = cook t x (q_list (queues s v))"
      using s1 cook_char_ok [OF s1(1-3)] by (cases "map_input t x") (auto simp: cook_def)
    have loop: "cook_loop wr i s = cook_loop wr i u"
    proof -
      have "GETCH r s = (x, ?s1)" "tt_termios (tty_table ?s1 i) = t"
        using get(1) q(5) by (simp_all add: GETCH_def upd_q_def)
      then show ?thesis
        using u(1) False ne q(2,3) by (subst cook_loop.simps) simp
    qed
    have xs: "xs = q_list (queues u r)"
      using u(3) s1(4) by simp
    obtain n u' where "cook_loop wr i u = Some u'" "tty_is i t r w v f u'" "lines_ok t (queues u' v)"
      "n \<le> length xs" "q_list (queues u' r) = drop n xs"
      "q_list (queues u' v) = fold (cook t) (take n xs) (cook t x (q_list (queues s v)))" "n = length xs \<or> q_full (queues u' v)"
      using Cons.hyps(1) [OF xs u(2,4)] unfolding xs [symmetric] u(5) by blast
    then show ?thesis
      using loop Cons.hyps(2) [symmetric] by (intro exI [of _ "Suc n"]) auto
  qed
qed

end

section \<open>Reading a line\<close>

lemma GETCH_list:
  assumes "q_ok (queues s v)" "q_list (queues s v) = x # xs"
  obtains u where "GETCH v s = (x, u)" "tty_table u = tty_table s" "q_list (queues u v) = xs" "q_ok (queues u v)"
    "q_data (queues u v) = q_data (queues s v)" "fs_mem u = fs_mem s"
proof -
  have "\<not> q_empty (queues s v)"
    using assms q_empty_iff by auto
  from q_get_ok [OF assms(1) this] assms(2) that show thesis
    by (auto simp: GETCH_def upd_q_def) (simp add: q_get_def)
qed

lemma q_set_data:
  "q_list (q\<lparr>q_data := k\<rparr>) = q_list q" "q_ok (q\<lparr>q_data := k\<rparr>) = q_ok q" "q_empty (q\<lparr>q_data := k\<rparr>) = q_empty q"
  by (simp_all add: q_list_def q_len_def q_chars_def q_ok_def q_empty_def)

lemma user_bytes_Cons: "user_bytes b (Suc n) s = fs_mem s b # user_bytes (b + 1) n s"
  using user_bytes_split [of b 1 n s] by (simp add: user_bytes_def)

lemma get_chars_line:
  assumes "q_ok (queues s v)" "tt_secondary (tty_table s i) = v" "tt_termios (tty_table s i) = t" "L_FLAG t ICANON"
    and "lines_ok t (queues s v)" "q_list (queues s v) = line @ e # rest" "line_end t e" "\<forall>c \<in> set line. \<not> line_end t c"
    and "nr \<noteq> 0"
  defines "out \<equiv> take nr (if is_cc t VEOF e then line else line @ [e])"
  shows "\<exists>nr' u. get_chars i b nr s = ((b + of_nat (length out), nr'), u) \<and> user_bytes b (length out) u = out \<and>
    (\<forall>a. unat (a - b) \<ge> length out \<longrightarrow> fs_mem u a = fs_mem s a) \<and>
    lines_ok t (queues u v) \<and> q_ok (queues u v) \<and> tty_table u = tty_table s \<and>
    q_list (queues u v) = (if nr \<le> length line then drop nr (line @ e # rest) else rest)"
  using assms(1-9) unfolding out_def
proof (induction line arbitrary: s b nr)
  case Nil
  obtain m where m: "nr = Suc m"
    using Nil.prems(9) by (cases nr) auto
  obtain u where u: "GETCH v s = (e, u)" "tty_table u = tty_table s" "q_list (queues u v) = rest" "q_ok (queues u v)"
    "q_data (queues u v) = q_data (queues s v)" "fs_mem u = fs_mem s"
    using GETCH_list [OF Nil.prems(1)] Nil.prems(6) by auto
  let ?u = "upd_q v (\<lambda>r. r\<lparr>q_data := q_data r - 1\<rparr>) u"
  have d: "lines_ok t (queues ?u v)" "q_list (queues ?u v) = rest" "q_ok (queues ?u v)" "tty_table ?u = tty_table s" "fs_mem ?u = fs_mem s"
    using Nil.prems(5-7) u by (simp_all add: lines_ok_def lines_def upd_q_def q_set_data)
  show ?case
  proof (cases "is_cc t VEOF e")
    case True
    then have "get_chars i b nr s = ((b, nr), ?u)"
      using Nil.prems u(1) by (simp add: m Let_def)
    with True d m show ?thesis
      by (simp add: user_bytes_def)
  next
    case False
    then have "e = 10"
      using Nil.prems(7) by (simp add: line_end_def)
    then have "get_chars i b nr s = ((b + 1, m), put_fs_byte e b ?u)"
      using False Nil.prems u(1) by (simp add: m Let_def)
    with False d m show ?thesis
      by (auto simp: user_bytes_def put_fs_byte_def upd_q_def)
  qed
next
  case (Cons x line)
  obtain m where m: "nr = Suc m"
    using Cons.prems(9) by (cases nr) auto
  obtain u where u: "GETCH v s = (x, u)" "tty_table u = tty_table s" "q_list (queues u v) = line @ e # rest" "q_ok (queues u v)"
    "q_data (queues u v) = q_data (queues s v)" "fs_mem u = fs_mem s"
    using GETCH_list [OF Cons.prems(1)] Cons.prems(6) by auto
  let ?u = "put_fs_byte x b u"
  have x: "\<not> line_end t x" "\<not> is_cc t VEOF x" "x \<noteq> 10"
    using Cons.prems(8) by (auto simp: line_end_def)
  have d: "lines_ok t (queues ?u v)" "q_list (queues ?u v) = line @ e # rest" "q_ok (queues ?u v)" "tty_table ?u = tty_table s"
    "\<not> q_empty (queues ?u v)" "fs_mem ?u = (fs_mem s)(b := x)"
    using Cons.prems(5,6) u x(1) by (simp_all add: lines_ok_def lines_def put_fs_byte_def q_empty_iff)
  show ?case
  proof (cases m)
    case 0
    then have "get_chars i b nr s = ((b + 1, 0), ?u)"
      using Cons.prems(2,3) u(1) x by (simp add: m Let_def)
    with d m 0 x(2) show ?thesis
      by (auto simp: user_bytes_def)
  next
    case (Suc k)
    let ?out = "take m (if is_cc t VEOF e then line else line @ [e])"
    have step: "get_chars i b nr s = get_chars i (b + 1) m ?u"
      using Suc Cons.prems(2,3) u(1) x d(5) by (simp add: m Let_def put_fs_byte_def)
    obtain nr' u' where u': "get_chars i (b + 1) m ?u = ((b + 1 + of_nat (length ?out), nr'), u')"
      "user_bytes (b + 1) (length ?out) u' = ?out"
      "\<forall>a. unat (a - (b + 1)) \<ge> length ?out \<longrightarrow> fs_mem u' a = fs_mem ?u a"
      "lines_ok t (queues u' v)" "q_ok (queues u' v)" "tty_table u' = tty_table ?u"
      "q_list (queues u' v) = (if m \<le> length line then drop m (line @ e # rest) else rest)"
      using Cons.IH [of ?u m "b + 1"] d Cons.prems(2-4,7,8) Suc by auto
    have out: "take nr (if is_cc t VEOF e then x # line else (x # line) @ [e]) = x # ?out"
      by (simp add: m)
    have "length (x # line @ e # rest) < 1024"
      using Cons.prems(6) q_len_less [of "queues s v"] by (metis append_Cons length_q_list)
    then have len: "length ?out < 1024"
      by (auto split: if_splits)
    have "b - (b + 1) = 0xffffffff"
      by simp
    then have "unat (b - (b + 1)) = 2 ^ 32 - 1"
      by (simp only:) simp
    then have "fs_mem u' b = x"
      using u'(3) len d(6) by auto
    then have "user_bytes b (length (x # ?out)) u' = x # ?out"
      using u'(2) by (simp add: user_bytes_Cons)
    moreover have "fs_mem u' a = fs_mem s a" if "unat (a - b) \<ge> length (x # ?out)" for a
    proof -
      have "a - b \<noteq> 0"
        using that by auto
      then have "unat (a - (b + 1)) = unat (a - b) - 1" "a \<noteq> b"
        using unat_minus_one [of "a - b"] by (auto simp: algebra_simps)
      then show ?thesis
        using u'(3) that d(6) by auto
    qed
    moreover have "b + 1 + of_nat (length ?out) = b + of_nat (length (x # ?out))"
      by simp
    ultimately show ?thesis
      unfolding append_Cons out step using u'(1,4-7) m d(4) by (intro exI [of _ nr'] exI [of _ u']) auto
  qed
qed

text \<open>The fields of a terminal do not change when only the kernel below does.\<close>

lemma kernel_more_upd_cur [simp]: "kernel.more (upd_cur f s) = kernel.more s"
  by (simp add: upd_cur_def)

lemma tty_is_kernel [simp]:
  "tty_is i t r w v f (wake_up q s) = tty_is i t r w v f s" "queues (wake_up q s) = queues s"
  "tty_table (wake_up q s) = tty_table s"
  "tty_is i t r w v f (upd_cur g s) = tty_is i t r w v f s" "queues (upd_cur g s) = queues s"
  "tty_table (upd_cur g s) = tty_table s"
  using more_ttys [of "wake_up q s" s] more_ttys [of "upd_cur g s" s] by (auto simp: tty_is_def)

lemma fs_mem_kernel [simp]: "fs_mem (wake_up q s) = fs_mem s" "fs_mem (upd_cur g s) = fs_mem s"
  by (simp_all add: wake_up_def upd_cur_def upd_task_def)

lemma length_cook: "length (cook t c xs) \<le> Suc (length xs)"
proof -
  have "length (rev (dropWhile P (rev xs))) \<le> length xs" for P
    using length_dropWhile_le [of P "rev xs"] by simp
  then show ?thesis
    by (auto simp: cook_def edit_def le_SucI split: option.splits)
qed

lemma length_fold_cook: "length (fold (cook t) cs xs) \<le> length cs + length xs"
proof (induction cs arbitrary: xs)
  case (Cons c cs)
  from Cons.IH [of "cook t c xs"] length_cook [of t c xs] show ?case
    by simp
qed simp

context tty_driver
begin

text \<open>
  With room for all of the input, \<open>copy_to_cooked\<close> is the editing of the input as a list.
\<close>

lemma copy_to_cooked_ok:
  assumes "tty_is i t r w v f s" "lines_ok t (queues s v)" "q_len (queues s r) + q_len (queues s v) < 1023"
  shows "\<exists>u. copy_to_cooked wr i s = Some u \<and> tty_is i t r w v f u \<and> lines_ok t (queues u v) \<and>
    q_list (queues u r) = [] \<and> q_list (queues u v) = fold (cook t) (q_list (queues s r)) (q_list (queues s v))"
proof -
  let ?r = "q_list (queues s r)" and ?v = "q_list (queues s v)"
  obtain n u where u: "cook_loop wr i s = Some u" "tty_is i t r w v f u" "lines_ok t (queues u v)"
    "n \<le> length ?r" "q_list (queues u r) = drop n ?r" "q_list (queues u v) = fold (cook t) (take n ?r) ?v"
    "n = length ?r \<or> q_full (queues u v)"
    using cook_loop_ok [OF assms(1,2)] by blast
  have "n = length ?r"
  proof (rule ccontr)
    assume n: "n \<noteq> length ?r"
    have "q_ok (queues u v)"
      using u(2) by (simp add: tty_is_def)
    with n u(7) have "length (q_list (queues u v)) = 1023"
      by (simp add: q_full_iff)
    with length_fold_cook [of t "take n ?r" ?v] u(4,6) assms(3) show False
      by simp
  qed
  moreover have "tt_read_q (tty_table s i) \<noteq> NULL"
    using assms(1) by (simp add: tty_is_def)
  ultimately show ?thesis
    using u(1-3,5,6) by (simp add: copy_to_cooked_def)
qed

end

lemma tty_read_waits_line:
  assumes "tty_is i t r w v f s" "lines_ok t (queues s v)" "q_list (queues s v) = line @ e # rest" "line_end t e"
  shows "\<not> tty_read_waits i s"
proof -
  have q: "q_ok (queues s v)" "tt_secondary (tty_table s i) = v"
    using assms(1) by (simp_all add: tty_is_def)
  have "lines t (q_list (queues s v)) \<le> q_len (queues s v)"
    by (metis length_filter_le length_q_list lines_def)
  then have n: "lines t (q_list (queues s v)) < 1024" "0 < lines t (q_list (queues s v))"
    using assms(3,4) q_len_less [of "queues s v"] by (simp_all add: lines_def)
  have "unat (q_data (queues s v)) = lines t (q_list (queues s v))"
    using assms(2) n(1) by (simp add: lines_ok_def unat_of_nat)
  then have "q_data (queues s v) \<noteq> 0"
    using n(2) by auto
  then show ?thesis
    using q assms(3) q_empty_iff [OF q(1)] by (simp add: tty_read_waits_def)
qed

lemma sint_small: "n < 1024 \<Longrightarrow> sint (of_nat n :: u32) = int n"
  by (simp add: signed_of_nat signed_take_bit_int_eq_self)

lemma tty_read_params_canon:
  assumes "L_FLAG (tt_termios (tty_table s i)) ICANON"
  shows "\<exists>g. tty_read_params i nr flags s = ((int nr, 0), upd_cur g s)"
proof -
  have "upd_cur h (upd_cur g s) = upd_cur (\<lambda>t. h (g t)) s" for g h
    by (simp add: upd_cur_def upd_task_def)
  then show ?thesis
    using assms by (auto simp: tty_read_params_def Let_def)
qed

lemma no_pty: "channel < 128 \<Longrightarrow> channel AND 0x80 = (0 :: nat)"
proof (rule bit_eqI)
  fix n assume c: "channel < 128"
  have "\<not> bit channel 7"
    using c by (simp add: bit_iff_odd)
  moreover have "bit (128 :: nat) n \<longleftrightarrow> n = 7"
    using bit_exp_iff [of 7 n, where 'a = nat] by auto
  ultimately show "bit (channel AND 128) n = bit 0 n"
    by (auto simp: bit_simps)
qed

context tty_driver
begin

text \<open>
  Reading from a terminal in canonical mode: what has been typed is edited, and the reader gets the
  oldest line of it, without the character that ends the file.
\<close>

lemma tty_read_line:
  assumes s: "tty_is i t r w v f s" "lines_ok t (queues s v)" "L_FLAG t ICANON"
    and channel: "channel < 128" "TTY_TABLE channel s = i" "v \<noteq> NULL"
    and fg: "t_tty (cur s) \<noteq> int channel \<or> tty_pgrp s (int i) = t_pgrp (cur s)"
    and room: "q_len (queues s r) + q_len (queues s v) < 1023"
    and line: "fold (cook t) (q_list (queues s r)) (q_list (queues s v)) = line @ e # rest"
      "line_end t e" "\<forall>c \<in> set line. \<not> line_end t c"
    and out: "out = take nr (if is_cc t VEOF e then line else line @ [e])" "out \<noteq> []"
  shows "\<exists>u. tty_read wr init_task channel buf nr flags s = Some (Ret (TtyRet (int (length out))) u) \<and>
    user_bytes buf (length out) u = out \<and> lines_ok t (queues u v) \<and>
    q_list (queues u v) = (if nr \<le> length line then drop nr (line @ e # rest) else rest)"
proof -
  have nr: "nr \<noteq> 0"
    using out by (cases nr) auto
  have t: "tt_termios (tty_table s i) = t" "tt_read_q (tty_table s i) = r" "tt_secondary (tty_table s i) = v" "r \<noteq> NULL"
    using s(1) by (simp_all add: tty_is_def)
  obtain g where params: "tty_read_params i nr flags s = ((int nr, 0), upd_cur g s)"
    using tty_read_params_canon [of s i nr flags] s(3) t(1) by auto
  obtain s1 where s1: "copy_to_cooked wr i (upd_cur g s) = Some s1" "tty_is i t r w v f s1" "lines_ok t (queues s1 v)"
    "q_list (queues s1 v) = line @ e # rest"
    using copy_to_cooked_ok [of i t r w v "upd_cur g s"] s room line(1) by auto
  have t1: "q_ok (queues s1 v)" "tt_secondary (tty_table s1 i) = v" "tt_termios (tty_table s1 i) = t"
    using s1(2) by (simp_all add: tty_is_def)
  obtain nr' u where u: "get_chars i buf nr s1 = ((buf + of_nat (length out), nr'), u)" "user_bytes buf (length out) u = out"
    "lines_ok t (queues u v)" "tty_table u = tty_table s1"
    "q_list (queues u v) = (if nr \<le> length line then drop nr (line @ e # rest) else rest)"
    using get_chars_line [OF t1(1,2,3) s(3) s1(3,4) line(2,3) nr] unfolding out(1) by blast
  have "length (line @ e # rest) < 1024"
    using s1(4) q_len_less [of "queues s1 v"] by (metis length_q_list)
  then have len: "length out < 1024" "length out \<noteq> 0"
    using out by (auto split: if_splits)
  then have "of_nat (length out) \<noteq> (0 :: u32)"
    using unat_of_nat [of "length out", where 'a = 32] by auto
  then have ret: "tty_read_end buf (buf + of_nat (length out)) flags u' =
      (TtyRet (int (length out)), upd_cur (\<lambda>t. t\<lparr>t_timeout := 0\<rparr>) u')" for u' :: "'a ttys_scheme"
    using sint_small [OF len(1)] by (simp add: tty_read_end_def)
  define u' where "u' = upd_cur (\<lambda>t. t\<lparr>t_timeout := 0\<rparr>) (wake_up (proc_list (read_q i u)) u)"
  have loop: "tty_read_loop wr init_task channel i buf (int nr) 0 flags buf nr s1 = Some (Ret (TtyRet (int (length out))) u')"
    using tty_read_waits_line [OF s1(2,3,4) line(2)] nr u(1,4) t1(3) s(3) no_pty [OF channel(1)] ret
    by (subst tty_read_loop.simps) (simp add: u'_def)
  have "tty_read wr init_task channel buf nr flags s = Some (Ret (TtyRet (int (length out))) u')"
    using channel fg t params s1(1) loop by (auto simp: tty_read_def tty_read_wake_def)
  moreover have "user_bytes buf (length out) u' = out"
    using u(2) by (simp add: u'_def user_bytes_def)
  moreover have "queues u' = queues u"
    by (simp add: u'_def)
  ultimately show ?thesis
    using u(3,5) by auto
qed

end

section \<open>Flow control by default\<close>

text \<open>
  \<open>tty_init\<close> puts \<open>IXON\<close> into the local flags, where the bit means something else: on a console that
  nobody has set up the stop character is not obeyed, it is input like any other.
\<close>

lemma ctrl_s_is_input:
  assumes "i < n" "t = tt_termios (init_tty_table a n l c i)"
  shows "is_cc t VSTOP 19 \<and> c_lflag t AND IXON \<noteq> 0 \<and> edit t 19 xs = xs @ [19]"
proof -
  have t: "c_cc t 0 = 3" "c_cc t (Suc 0) = 28" "c_cc t 2 = 127" "c_cc t 3 = 21" "c_cc t 8 = 17" "c_cc t 9 = 19" "c_cc t 10 = 26"
    "c_iflag t = ICRNL" "c_lflag t = IXON OR ISIG OR ICANON OR ECHO OR ECHOCTL OR ECHOKE"
    using assms by (simp_all add: init_tty_table_def Let_def init_tty_def init_termios_def INIT_C_CC_def)
  show ?thesis
    by (simp add: edit_def is_cc_def t VKILL_def VERASE_def VSTOP_def VSTART_def VINTR_def VQUIT_def VSUSP_def
        IXON_def ICRNL_def ISIG_def ICANON_def ECHO_def ECHOCTL_def ECHOKE_def)
qed

end
