(* ===== verification/Serial.thy ===== *)
theory Serial
  imports Tty
begin

text \<open>
  kernel/chr_drv/serial.c and pty.c: the \<open>write\<close> functions of serial lines and pseudo terminals.

  \<open>inb\<close> is what the hardware answers when a port is read; it may depend on all that has been
  written to it. The table of write functions \<open>tty_writes\<close> ties the knot of the line
  discipline: it takes the number of nested calls it allows, and \<open>con\<close>, the function of the consoles.
\<close>

section \<open>Ports\<close>

definition outb :: "u8 \<Rightarrow> u16 \<Rightarrow> 'a ttys_scheme \<Rightarrow> 'a ttys_scheme" where
  "outb v port s = s\<lparr>port_out := (port, v) # port_out s\<rparr>"

type_synonym 'a port_in = "u16 \<Rightarrow> 'a ttys_scheme \<Rightarrow> u8"

section \<open>Serial lines\<close>

definition SER1_TIMER :: nat where "SER1_TIMER = 2"
definition SER2_TIMER :: nat where "SER2_TIMER = 3"
definition SER1_TIMEOUT :: nat where "SER1_TIMEOUT = 8"
definition SER2_TIMEOUT :: nat where "SER2_TIMEOUT = 9"

definition com1_timer :: "'a tty_write \<Rightarrow> 'a ttys_scheme \<Rightarrow> 'a ttys_scheme option" where
  "com1_timer wr s = copy_to_cooked wr 64 s"

definition com2_timer :: "'a tty_write \<Rightarrow> 'a ttys_scheme \<Rightarrow> 'a ttys_scheme option" where
  "com2_timer wr s = copy_to_cooked wr 65 s"

text \<open>The port \<open>TTY->data + k\<close> of a queue.\<close>

definition q_port :: "ptr \<Rightarrow> u32 \<Rightarrow> 'a ttys_scheme \<Rightarrow> u16" where
  "q_port q k s = ucast (q_data (queues s q) + k)"

definition do_rs_write :: "'a port_in \<Rightarrow> nat \<Rightarrow> 'a ttys_scheme \<Rightarrow> 'a ttys_scheme" where
  "do_rs_write inb port s =
     (let q = write_q (64 + port) s; timer = SER1_TIMEOUT + port
      in if \<not> q_empty (queues s q) then
           let s = outb (inb (q_port q 1 s) s OR 2) (q_port q 1 s) s;
               s = (if inb (q_port q 5 s) s AND 0x20 \<noteq> 0
                    then case GETCH q s of (c, s) \<Rightarrow> outb c (q_port q 0 s) s else s)
           in s\<lparr>timer_table := (timer_table s)(timer := (timer_table s timer)\<lparr>tm_expires := jiffies s + 50\<rparr>),
                timer_active := timer_active s OR push_bit timer 1\<rparr>
         else s\<lparr>timer_active := timer_active s AND NOT (push_bit timer 1)\<rparr>)"

definition com1_timeout :: "'a port_in \<Rightarrow> 'a ttys_scheme \<Rightarrow> 'a ttys_scheme" where
  "com1_timeout inb s = do_rs_write inb 0 s"

definition com2_timeout :: "'a port_in \<Rightarrow> 'a ttys_scheme \<Rightarrow> 'a ttys_scheme" where
  "com2_timeout inb s = do_rs_write inb 1 s"

definition rs_port_init :: "u16 \<Rightarrow> 'a ttys_scheme \<Rightarrow> 'a ttys_scheme" where
  "rs_port_init port s =
     outb 0x0d (port + 1) (outb 0x0b (port + 4) (outb 0x03 (port + 3) (outb 0 (port + 1) (outb 0x30 port (outb 0x80 (port + 3) s)))))"

text \<open>\<open>rs_init\<close> without the interrupt gates; \<open>fns\<close> are the numbers of its four timer functions.\<close>

definition rs_init :: "'a port_in \<Rightarrow> (nat \<Rightarrow> nat) \<Rightarrow> 'a ttys_scheme \<Rightarrow> 'a ttys_scheme" where
  "rs_init inb fns s =
     (let timer = (\<lambda>k. \<lparr>tm_expires = 0, tm_fn = fns k\<rparr>);
          s = s\<lparr>timer_table := (timer_table s)(SER1_TIMER := timer SER1_TIMER, SER2_TIMER := timer SER2_TIMER,
                SER1_TIMEOUT := timer SER1_TIMEOUT, SER2_TIMEOUT := timer SER2_TIMEOUT)\<rparr>;
          s = rs_port_init (q_port (read_q 64 s) 0 s) s;
          s = rs_port_init (q_port (read_q 65 s) 0 s) s
      in outb (inb 0x21 s AND 0xE7) 0x21 s)"

definition rs_write :: "'a port_in \<Rightarrow> nat \<Rightarrow> 'a ttys_scheme \<Rightarrow> 'a ttys_scheme" where
  "rs_write inb i s =
     (let q = write_q i s;
          s = (if \<not> q_empty (queues s q) then outb (inb (q_port q 1 s) s OR 2) (q_port q 1 s) s else s)
      in s\<lparr>timer_active := timer_active s OR push_bit SER1_TIMEOUT 3\<rparr>)"

section \<open>Pseudo terminals\<close>

partial_function (option) pty_copy_loop ::
    "'a tty_write \<Rightarrow> nat \<Rightarrow> nat \<Rightarrow> 'a ttys_scheme \<Rightarrow> 'a ttys_scheme option" where
  "pty_copy_loop wr from to s =
     (if tt_stopped (tty_table s from) \<or> q_empty (queues s (write_q from s)) then Some s
      else if q_full (queues s (read_q to s)) then
        if q_full (queues s (secondary to s)) then Some s
        else Option.bind (copy_to_cooked wr to s) (pty_copy_loop wr from to)
      else case GETCH (write_q from s) s of (c, s) \<Rightarrow>
        let s = PUTCH c (read_q to s) s
        in if pending s then Some s else pty_copy_loop wr from to s)"

definition pty_copy :: "'a tty_write \<Rightarrow> nat \<Rightarrow> nat \<Rightarrow> 'a ttys_scheme \<Rightarrow> 'a ttys_scheme option" where
  "pty_copy wr from to s =
     Option.bind (pty_copy_loop wr from to s)
       (\<lambda>s. map_option (\<lambda>s. wake_up (proc_list (write_q from s)) s) (copy_to_cooked wr to s))"

definition mpty_write :: "'a tty_write \<Rightarrow> nat \<Rightarrow> 'a ttys_scheme \<Rightarrow> 'a ttys_scheme option" where
  "mpty_write wr i s = (if drop_bit 6 i \<noteq> 2 then Some s else pty_copy wr i (i + 64) s)"

definition spty_write :: "'a tty_write \<Rightarrow> nat \<Rightarrow> 'a ttys_scheme \<Rightarrow> 'a ttys_scheme option" where
  "spty_write wr i s = (if drop_bit 6 i \<noteq> 3 then Some s else pty_copy wr i (i - 64) s)"

section \<open>The table of write functions\<close>

fun tty_writes :: "('a tty_write \<Rightarrow> nat \<Rightarrow> 'a ttys_scheme \<Rightarrow> 'a ttys_scheme option) \<Rightarrow> 'a port_in \<Rightarrow> nat \<Rightarrow> 'a tty_write" where
  "tty_writes con inb 0 f i s = None"
| "tty_writes con inb (Suc n) f i s =
     (if f = CON_WRITE then con (tty_writes con inb n) i s
      else if f = RS_WRITE then Some (rs_write inb i s)
      else if f = MPTY_WRITE then mpty_write (tty_writes con inb n) i s
      else if f = SPTY_WRITE then spty_write (tty_writes con inb n) i s
      else None)"

section \<open>Reading from a serial line\<close>

lemma rs_write_fields [simp]: "tty_table (rs_write inb i s) = tty_table s" "queues (rs_write inb i s) = queues s"
  by (simp_all add: rs_write_def Let_def outb_def)

interpretation serial_line: tty_driver "tty_writes con inb (Suc n)" RS_WRITE
  by unfold_locales (simp add: RS_WRITE_def CON_WRITE_def)

text \<open>
  C29.
  A canonical read from a serial line gives the oldest line that what has been typed makes after
  erasing and killing, and leaves the rest of the cooked input, with its count of lines right.
\<close>

theorem serial_read_line:
  assumes "tty_is i t r w v RS_WRITE s" "lines_ok t (queues s v)" "c_lflag t AND ICANON \<noteq> 0"
    and "channel < 128" "TTY_TABLE channel s = i" "v \<noteq> NULL"
    and "t_tty (cur s) \<noteq> int channel \<or> tty_pgrp s (int i) = t_pgrp (cur s)"
    and "q_len (queues s r) + q_len (queues s v) < 1023"
    and "fold (cook t) (q_list (queues s r)) (q_list (queues s v)) = line @ e # rest"
    and "line_end t e" "\<forall>c \<in> set line. \<not> line_end t c"
    and "out = take nr (if is_cc t VEOF e then line else line @ [e])" "out \<noteq> []"
  shows "\<exists>u. tty_read (tty_writes con inb (Suc n)) init_task channel buf nr flags s =
      Some (Ret (TtyRet (int (length out))) u) \<and>
    user_bytes buf (length out) u = out \<and> lines_ok t (queues u v) \<and>
    q_list (queues u v) = (if nr \<le> length line then drop nr (line @ e # rest) else rest)"
  using assms by (rule serial_line.tty_read_line)

section \<open>Writing to a serial line\<close>

text \<open>The bytes that have gone to a port, the oldest first.\<close>

definition sent :: "u16 \<Rightarrow> 'a ttys_scheme \<Rightarrow> u8 list" where
  "sent port s = map snd (rev (filter (\<lambda>(p, _). p = port) (port_out s)))"

lemma sent_outb: "sent p (outb v q s) = (if q = p then sent p s @ [v] else sent p s)"
  by (simp add: sent_def outb_def)

text \<open>
  The write queue \<open>w\<close> of a line whose transmitter is always ready, at the port \<open>p\<close>.
\<close>

definition ready_line :: "'a port_in \<Rightarrow> nat \<Rightarrow> ptr \<Rightarrow> u16 \<Rightarrow> 'a ttys_scheme \<Rightarrow> bool" where
  "ready_line inb i w p s \<longleftrightarrow> tt_write_q (tty_table s i) = w \<and> q_ok (queues s w) \<and> q_port w 0 s = p \<and>
     (\<forall>u. inb (p + 5) u AND 0x20 \<noteq> 0)"

lemma q_port_eq: "q_port w k s = q_port w 0 s + ucast k"
  by (simp add: q_port_def word_uint_eq_iff uint_word_ariths(1) unsigned_ucast_eq take_bit_eq_mod mod_simps mod_mod_cancel)

lemma outb_fields [simp]: "queues (outb v p s) = queues s" "tty_table (outb v p s) = tty_table s"
  "timer_active (outb v p s) = timer_active s"
  by (simp_all add: outb_def)

lemma rs_write_line:
  assumes "ready_line inb i w p s"
  shows "ready_line inb i w p (rs_write inb i s)" "sent p (rs_write inb i s) = sent p s"
    "timer_active (rs_write inb i s) = timer_active s OR push_bit SER1_TIMEOUT 3"
proof -
  have w: "tt_write_q (tty_table s i) = w" "q_port w 1 s \<noteq> p"
    using assms q_port_eq [of w 1 s] by (simp_all add: ready_line_def)
  show "ready_line inb i w p (rs_write inb i s)"
    using assms by (simp add: ready_line_def q_port_def)
  show "sent p (rs_write inb i s) = sent p s"
    using w by (simp add: rs_write_def Let_def) (simp add: sent_def outb_def)
  show "timer_active (rs_write inb i s) = timer_active s OR push_bit SER1_TIMEOUT 3"
    by (simp add: rs_write_def Let_def)
qed

lemma do_rs_write_line:
  assumes "ready_line inb (64 + k) w p s"
  shows "ready_line inb (64 + k) w p (do_rs_write inb k s)"
    "sent p (do_rs_write inb k s) = sent p s @ take 1 (q_list (queues s w))"
    "q_list (queues (do_rs_write inb k s) w) = drop 1 (q_list (queues s w))"
    "k < 2 \<Longrightarrow> bit (timer_active (do_rs_write inb k s)) (SER1_TIMEOUT + k) \<longleftrightarrow> q_list (queues s w) \<noteq> []"
proof -
  have w: "tt_write_q (tty_table s (64 + k)) = w" "q_ok (queues s w)" "q_port w 0 s = p" "\<And>u. inb (p + 5) u AND 0x20 \<noteq> 0"
    using assms by (simp_all add: ready_line_def)
  let ?u = "do_rs_write inb k s"
  have "ready_line inb (64 + k) w p ?u \<and> sent p ?u = sent p s @ take 1 (q_list (queues s w)) \<and>
      q_list (queues ?u w) = drop 1 (q_list (queues s w)) \<and>
      (k < 2 \<longrightarrow> bit (timer_active ?u) (SER1_TIMEOUT + k) = (q_list (queues s w) \<noteq> []))"
  proof (cases "q_empty (queues s w)")
    case True
    then have "?u = s\<lparr>timer_active := timer_active s AND NOT (push_bit (SER1_TIMEOUT + k) 1)\<rparr>"
      using w(1) by (simp add: do_rs_write_def Let_def)
    moreover have "q_list (queues s w) = []"
      using True w(2) by (simp add: q_empty_iff)
    ultimately show ?thesis
      using assms by (simp add: ready_line_def q_port_def sent_def bit_simps SER1_TIMEOUT_def)
  next
    case False
    obtain c xs where xs: "q_list (queues s w) = c # xs" "fst (q_get (queues s w)) = c"
      "q_list (snd (q_get (queues s w))) = xs" "q_ok (snd (q_get (queues s w)))"
      using q_get_ok [OF w(2) False] by auto
    let ?o = "outb (inb (q_port w 1 s) s OR 2) (q_port w 1 s) s"
    have o: "q_port w 5 ?o = p + 5" "q_port w 1 s = p + 1"
      using q_port_eq [of w 5 s] q_port_eq [of w 1 s] w(3) by (simp_all add: q_port_def)
    let ?g = "upd_q w (\<lambda>r. snd (q_get r)) ?o"
    have g: "q_port w 0 ?g = p"
      using w(3) by (simp add: q_port_def upd_q_def) (simp add: q_get_def)
    have u: "?u = (outb c p ?g)\<lparr>timer_table := (timer_table s)(SER1_TIMEOUT + k :=
          (timer_table s (SER1_TIMEOUT + k))\<lparr>tm_expires := jiffies s + 50\<rparr>),
        timer_active := timer_active s OR push_bit (SER1_TIMEOUT + k) 1\<rparr>"
      using False w(1,4) xs(2) g by (simp add: do_rs_write_def Let_def o(1) GETCH_def) (simp add: outb_def upd_q_def)
    have "sent p ?u = sent p s @ [c]"
      by (simp add: u sent_def outb_def upd_q_def o(2))
    moreover have "queues ?u w = snd (q_get (queues s w))" "tty_table ?u = tty_table s" "q_port w 0 ?u = p"
      using g by (simp_all add: u upd_q_def q_port_def)
    ultimately show ?thesis
      using xs w(1,4) by (simp add: ready_line_def u bit_simps SER1_TIMEOUT_def)
  qed
  then show "ready_line inb (64 + k) w p ?u" "sent p ?u = sent p s @ take 1 (q_list (queues s w))"
      "q_list (queues ?u w) = drop 1 (q_list (queues s w))"
      "k < 2 \<Longrightarrow> bit (timer_active ?u) (SER1_TIMEOUT + k) \<longleftrightarrow> q_list (queues s w) \<noteq> []"
    by blast+
qed

text \<open>
  The timer function of a line as \<open>run_timer_table\<close> calls it, with its bit cleared.
\<close>

definition timeout_run :: "'a port_in \<Rightarrow> nat \<Rightarrow> 'a ttys_scheme \<Rightarrow> 'a ttys_scheme" where
  "timeout_run inb k s = do_rs_write inb k (s\<lparr>timer_active := timer_active s AND NOT (push_bit (SER1_TIMEOUT + k) 1)\<rparr>)"

lemma timeout_run_line:
  assumes "ready_line inb (64 + k) w p s"
  shows "ready_line inb (64 + k) w p (timeout_run inb k s)"
    "sent p (timeout_run inb k s) = sent p s @ take 1 (q_list (queues s w))"
    "q_list (queues (timeout_run inb k s) w) = drop 1 (q_list (queues s w))"
    "k < 2 \<Longrightarrow> bit (timer_active (timeout_run inb k s)) (SER1_TIMEOUT + k) \<longleftrightarrow> q_list (queues s w) \<noteq> []"
proof -
  let ?s = "s\<lparr>timer_active := timer_active s AND NOT (push_bit (SER1_TIMEOUT + k) 1)\<rparr>"
  have "ready_line inb (64 + k) w p ?s"
    using assms by (simp add: ready_line_def q_port_def)
  from do_rs_write_line [OF this] show "ready_line inb (64 + k) w p (timeout_run inb k s)"
      "sent p (timeout_run inb k s) = sent p s @ take 1 (q_list (queues s w))"
      "q_list (queues (timeout_run inb k s) w) = drop 1 (q_list (queues s w))"
      "k < 2 \<Longrightarrow> bit (timer_active (timeout_run inb k s)) (SER1_TIMEOUT + k) \<longleftrightarrow> q_list (queues s w) \<noteq> []"
    by (simp_all add: timeout_run_def sent_def)
qed

lemma serial_timeouts:
  fixes inb :: "'a port_in" and s :: "'a ttys_scheme" and n :: nat
  assumes "ready_line inb (64 + k) w p s" "k < 2" "bit (timer_active s) (SER1_TIMEOUT + k)"
  defines "u \<equiv> (timeout_run inb k ^^ n) s"
  shows "ready_line inb (64 + k) w p u \<and> sent p u = sent p s @ take n (q_list (queues s w)) \<and>
    q_list (queues u w) = drop n (q_list (queues s w)) \<and>
    (bit (timer_active u) (SER1_TIMEOUT + k) \<longleftrightarrow> n \<le> length (q_list (queues s w)))"
  unfolding u_def
proof (induction n)
  case 0
  from assms show ?case
    by simp
next
  case (Suc n)
  let ?v = "(timeout_run inb k ^^ n) s"
  have v: "ready_line inb (64 + k) w p ?v"
    using Suc by blast
  note step = timeout_run_line [OF v]
  have "take n xs @ take 1 (drop n xs) = take (Suc n) xs" for xs :: "u8 list"
    using take_add [of n 1 xs] by simp
  with Suc step assms(2) show ?case
    by (simp add: Suc_le_eq not_le)
qed

text \<open>
  C30.
  A serial line whose transmitter is ready sends what \<open>tty_write\<close> put into its queue: \<open>rs_write\<close>
  starts the timer, each run of the timer function sends the oldest character, and the timer stays
  on until a run has found the queue empty.
\<close>

theorem serial_sends:
  fixes inb :: "'a port_in" and s :: "'a ttys_scheme" and n :: nat
  assumes "ready_line inb (64 + k) w p s" "k < 2"
  defines "u \<equiv> (timeout_run inb k ^^ n) (rs_write inb (64 + k) s)"
  shows "sent p u = sent p s @ take n (q_list (queues s w)) \<and> q_list (queues u w) = drop n (q_list (queues s w)) \<and>
    (bit (timer_active u) (SER1_TIMEOUT + k) \<longleftrightarrow> n \<le> length (q_list (queues s w)))"
proof -
  have "bit (push_bit SER1_TIMEOUT 3 :: u32) (SER1_TIMEOUT + k)"
    using assms(2) less_2_cases [of k] by (auto simp: SER1_TIMEOUT_def)
  then have "bit (timer_active (rs_write inb (64 + k) s)) (SER1_TIMEOUT + k)"
    by (simp add: rs_write_line(3) [OF assms(1)] bit_simps)
  from serial_timeouts [OF rs_write_line(1) [OF assms(1)] assms(2) this, of n] show ?thesis
    by (simp add: u_def rs_write_line(2) [OF assms(1)])
qed

section \<open>Through a pseudo terminal\<close>

lemma tty_table_upd_q [simp]: "tty_table (upd_q q f s) = tty_table s"
  by (simp add: upd_q_def)

lemma upd_q_kernel [simp]: "pending (upd_q q f s) = pending s" "cur (upd_q q f s) = cur s"
  by (simp_all add: upd_q_def pending_def cur_def)

text \<open>
  C31.
  A pseudo terminal moves all that one side has written to the other side's input, in order, when it
  fits; if a signal is pending it stops after one character. Nothing else changes on the way.
\<close>

theorem pty_copy_loop_moves:
  assumes "tt_write_q (tty_table s from) = a" "tt_read_q (tty_table s to) = b" "a \<noteq> b"
    and "q_ok (queues s a)" "q_ok (queues s b)" "q_len (queues s a) + q_len (queues s b) < 1024"
    and "\<not> tt_stopped (tty_table s from)"
  shows "\<exists>u. pty_copy_loop wr from to s = Some u \<and> tty_table u = tty_table s \<and>
    (let n = if pending s then 1 else q_len (queues s a)
     in q_list (queues u a) = drop n (q_list (queues s a)) \<and>
        q_list (queues u b) = q_list (queues s b) @ take n (q_list (queues s a))) \<and>
    q_ok (queues u a) \<and> q_ok (queues u b) \<and> (\<forall>q. q \<noteq> a \<longrightarrow> q \<noteq> b \<longrightarrow> queues u q = queues s q)"
  using assms
proof (induction "q_list (queues s a)" arbitrary: s)
  case Nil
  then have "q_empty (queues s a)" "q_len (queues s a) = 0"
    by (simp_all add: q_empty_iff) (metis length_q_list list.size(3))
  with Nil show ?case
    by (subst pty_copy_loop.simps) auto
next
  case (Cons x xs)
  have ne: "\<not> q_empty (queues s a)"
    using Cons.hyps(2) Cons.prems(4) by (metis list.distinct(1) q_empty_iff)
  have len: "q_len (queues s a) = Suc (length xs)"
    using Cons.hyps(2) by (metis length_Cons length_q_list)
  have nf: "\<not> q_full (queues s b)"
    using Cons.prems(5,6) len by (simp add: q_full_iff)
  let ?s1 = "PUTCH x b (snd (GETCH a s))"
  have get: "q_ok (snd (q_get (queues s a)))" "q_list (snd (q_get (queues s a))) = xs" "fst (q_get (queues s a)) = x"
    using q_get_ok [OF Cons.prems(4) ne] Cons.hyps(2) by auto
  have s1: "queues ?s1 a = snd (q_get (queues s a))" "queues ?s1 b = q_put x (queues s b)" "tty_table ?s1 = tty_table s"
    "pending ?s1 = pending s" "\<And>q. q \<noteq> a \<Longrightarrow> q \<noteq> b \<Longrightarrow> queues ?s1 q = queues s q"
    using Cons.prems(3) by (simp_all add: PUTCH_def GETCH_def) (simp_all add: upd_q_def)
  have put: "q_ok (queues ?s1 b)" "q_list (queues ?s1 b) = q_list (queues s b) @ [x]"
    using q_put_ok [OF Cons.prems(5) nf] s1(2) by simp_all
  have loop: "pty_copy_loop wr from to s = (if pending s then Some ?s1 else pty_copy_loop wr from to ?s1)"
    using Cons.prems(1,2,7) ne nf get(3) s1(4) by (subst pty_copy_loop.simps) (simp add: GETCH_def Let_def)
  show ?case
  proof (cases "pending s")
    case True
    have "take 1 (q_list (queues s a)) = [x]" "drop 1 (q_list (queues s a)) = xs"
      using Cons.hyps(2) [symmetric] by simp_all
    with True loop s1 get put show ?thesis
      by (simp add: Let_def)
  next
    case False
    have xs: "xs = q_list (queues ?s1 a)"
      using get(2) s1(1) by simp
    have l1: "q_len (queues ?s1 a) = length xs" "q_len (queues ?s1 b) = Suc (q_len (queues s b))"
      using arg_cong [OF xs, of length] arg_cong [OF put(2), of length] by simp_all
    obtain u where u: "pty_copy_loop wr from to ?s1 = Some u" "tty_table u = tty_table ?s1"
      "q_list (queues u a) = drop (q_len (queues ?s1 a)) xs" "q_list (queues u b) = q_list (queues ?s1 b) @ take (q_len (queues ?s1 a)) xs"
      "q_ok (queues u a)" "q_ok (queues u b)" "\<forall>q. q \<noteq> a \<longrightarrow> q \<noteq> b \<longrightarrow> queues u q = queues ?s1 q"
      using Cons.hyps(1) [OF xs] Cons.prems s1 put get l1 len False unfolding xs [symmetric] by (auto simp: Let_def)
    have "q_list (queues u a) = drop (q_len (queues s a)) (x # xs)"
      "q_list (queues u b) = q_list (queues s b) @ take (q_len (queues s a)) (x # xs)"
      using u(3,4) put(2) l1(1) len by simp_all
    with False loop u s1 Cons.hyps(2) show ?thesis
      by (auto simp: Let_def)
  qed
qed

section \<open>Examples\<close>

definition queue_of :: "u32 \<Rightarrow> u8 list \<Rightarrow> tty_queue" where
  "queue_of d xs = \<lparr>q_data = d, q_head = of_nat (length xs), q_tail = 0, q_buf = (\<lambda>k. if unat k < length xs then xs ! unat k else 0)\<rparr>"

lemma queue_of_list:
  assumes "length xs < 1024"
  shows "q_list (queue_of d xs) = xs" "q_ok (queue_of d xs)" "q_data (queue_of d xs) = d" "q_len (queue_of d xs) = length xs"
proof -
  have h: "unat (of_nat (length xs) :: u32) = length xs"
    using assms by (simp add: unat_of_nat)
  show "q_ok (queue_of d xs)" "q_data (queue_of d xs) = d"
    using assms h by (simp_all add: queue_of_def q_ok_def)
  then show len: "q_len (queue_of d xs) = length xs"
    using assms h by (simp add: q_len_eq) (simp add: queue_of_def)
  show "q_list (queue_of d xs) = xs"
  proof (rule nth_equalityI)
    fix k assume "k < length (q_list (queue_of d xs))"
    then have "k < length xs"
      by (simp add: len)
    then show "q_list (queue_of d xs) ! k = xs ! k"
      using assms q_list_nth [of k "queue_of d xs"] len by (simp add: queue_of_def unat_of_nat)
  qed (simp add: len)
qed

text \<open>
  The first serial line in canonical mode; someone has typed "lx", DEL, "s" and return, and "ok" is
  to be written. The master of a pseudo terminal has "hi" to write.
\<close>

definition serial_termios :: termios where
  "serial_termios = init_termios ICRNL 0 0x3b ICANON"

definition serial_example :: ttys where
  "serial_example = kernel.extend kernel_example
     (ttys.fields
       (\<lambda>i. if i = 64 then init_tty 1040 serial_termios \<lparr>ws_row = 25, ws_col = 80, ws_xpixel = 0, ws_ypixel = 0\<rparr> RS_WRITE 0
            else init_tty 1040 serial_termios \<lparr>ws_row = 25, ws_col = 80, ws_xpixel = 0, ws_ypixel = 0\<rparr> MPTY_WRITE (3 * i))
       ((\<lambda>_. queue_of 0 [])(1040 := queue_of 0x3f8 [108, 120, 127, 115, 13], 2080 := queue_of 0x3f8 [111, 107],
         queue_at 1040 385 := queue_of 0 [104, 105]))
       False 0 [])"

lemmas serial_example_defs = serial_example_def kernel.extend_def ttys.fields_def init_tty_def queue_at_def

theorem serial_read_line_witness:
  "\<exists>u. tty_read (tty_writes (\<lambda>_ _ _. None) (\<lambda>_ _. 0x20) 1) 1 64 0x1000 80 0 serial_example = Some (Ret (TtyRet 3) u) \<and>
    user_bytes 0x1000 3 u = [108, 115, 10] \<and> q_list (queues u 3120) = []"
proof -
  have t: "tty_is 64 serial_termios 1040 2080 3120 RS_WRITE serial_example"
    by (simp add: tty_is_def serial_example_defs queue_of_list)
  have q: "q_list (queues serial_example 3120) = []" "q_list (queues serial_example 1040) = [108, 120, 127, 115, 13]"
    "q_data (queues serial_example 3120) = 0" "q_len (queues serial_example 3120) = 0" "q_len (queues serial_example 1040) = 5"
    by (simp_all add: serial_example_defs queue_of_list)
  have cc: "c_cc serial_termios 2 = 127" "c_cc serial_termios 3 = 21" "c_cc serial_termios 4 = 4"
    "c_lflag serial_termios = 2" "c_iflag serial_termios = 0x100"
    by (simp_all add: serial_termios_def init_termios_def INIT_C_CC_def ICANON_def ICRNL_def)
  note flags = ICANON_def ISIG_def IXON_def IUCLC_def ICRNL_def IGNCR_def INLCR_def VKILL_def VERASE_def VEOF_def
  have cook: "fold (cook serial_termios) [108, 120, 127, 115, 13] [] = [108, 115] @ 10 # []"
    by (simp add: cook_def map_input_def edit_def is_cc_def line_end_def cc flags)
  have line: "line_end serial_termios 10" "\<forall>c \<in> set [108, 115]. \<not> line_end serial_termios c" "\<not> is_cc serial_termios VEOF 10"
    by (simp_all add: line_end_def is_cc_def cc flags)
  have fg: "t_tty (cur serial_example) \<noteq> int 64 \<or> tty_pgrp serial_example (int 64) = t_pgrp (cur serial_example)"
    by (simp add: cur_def serial_example_defs kernel_example_def mm.defs task_example_def)
  have "\<exists>u. tty_read (tty_writes (\<lambda>_ _ _. None) (\<lambda>_ _. 0x20) (Suc 0)) 1 64 0x1000 80 0 serial_example =
      Some (Ret (TtyRet (int (length [108, 115, 10 :: u8]))) u) \<and>
    user_bytes 0x1000 (length [108, 115, 10 :: u8]) u = [108, 115, 10] \<and> lines_ok serial_termios (queues u 3120) \<and>
    q_list (queues u 3120) = (if 80 \<le> length [108, 115 :: u8] then drop 80 ([108, 115] @ 10 # []) else [])"
    by (rule serial_read_line [OF t, where out = "[108, 115, 10]" and n = 0 and e = 10])
      (use fg cook line q in \<open>simp_all add: lines_ok_def lines_def cc flags TTY_TABLE_def\<close>)
  then show ?thesis
    by (simp add: numeral_3_eq_3) auto
qed

theorem serial_sends_witness:
  "sent 0x3f8 ((timeout_run (\<lambda>_ _. 0x20) 0 ^^ 3) (rs_write (\<lambda>_ _. 0x20) 64 serial_example)) = [111, 107] \<and>
    \<not> bit (timer_active ((timeout_run (\<lambda>_ _. 0x20) 0 ^^ 3) (rs_write (\<lambda>_ _. 0x20) 64 serial_example))) 8"
proof -
  have "ready_line (\<lambda>_ _. 0x20) (64 + 0) 2080 0x3f8 serial_example"
    by (simp add: ready_line_def serial_example_defs queue_of_list q_port_def)
  moreover have "q_list (queues serial_example 2080) = [111, 107]" "sent 0x3f8 serial_example = []"
    by (simp_all add: serial_example_defs queue_of_list sent_def)
  ultimately show ?thesis
    using serial_sends [of "\<lambda>_ _. 0x20" 0 2080 "0x3f8" serial_example 3] by (simp add: SER1_TIMEOUT_def)
qed

theorem pty_copy_loop_moves_witness:
  "\<exists>u. pty_copy_loop (\<lambda>_ _ _. None) 128 192 serial_example = Some u \<and> q_list (queues u (queue_at 1040 576)) = [104, 105]"
proof -
  have q: "q_list (queues serial_example (queue_at 1040 385)) = [104, 105]" "q_list (queues serial_example (queue_at 1040 576)) = []"
    "q_ok (queues serial_example (queue_at 1040 385))" "q_ok (queues serial_example (queue_at 1040 576))"
    "q_len (queues serial_example (queue_at 1040 385)) = 2" "q_len (queues serial_example (queue_at 1040 576)) = 0"
    by (simp_all add: serial_example_defs queue_of_list)
  have t: "tt_write_q (tty_table serial_example 128) = queue_at 1040 385"
    "tt_read_q (tty_table serial_example 192) = queue_at 1040 576" "\<not> tt_stopped (tty_table serial_example 128)"
    by (simp_all add: serial_example_defs)
  have p: "\<not> pending serial_example"
    by (simp add: pending_def cur_def serial_example_defs kernel_example_def mm.defs task_example_def)
  have "queue_at 1040 385 \<noteq> queue_at 1040 576"
    by (simp add: queue_at_def)
  from pty_copy_loop_moves [OF t(1,2) this q(3,4) _ t(3), of "\<lambda>_ _ _. None"] q p show ?thesis
    by (auto simp: Let_def)
qed

end
