(* ===== verification/Console.thy ===== *)
theory Console
  imports Serial Strings
begin

text \<open>
  kernel/chr_drv/console.c: the screens of the virtual consoles and the interpreter of the VT100
  escape sequences, with \<open>change_console\<close> and \<open>wait_for_keypress\<close> of tty_io.c.

  The video memory and the buffers of the screens that are not shown are bytes by address, \<open>vmem\<close>;
  the parameters that the boot loader leaves at 0x90000 are read there too. The two translation
  tables are the numbers 0 (\<open>NORM_TRANS\<close>) and 1 (\<open>GRAF_TRANS\<close>). The value -1 that \<open>ESC #\<close> gives to the
  state is the constructor \<open>ESminus\<close>. \<open>set_leds\<close> and the keyboard are assembler and left out.
\<close>

section \<open>State\<close>

datatype con_state = ESnormal | ESesc | ESsquare | ESgetpars | ESgotpars | ESfunckey | ESsetterm
  | ESsetgraph | ESgraph | ESgresc | ESignore | ESminus

record vc_data =
  vc_video_erase_char :: u16
  vc_attr :: u8
  vc_def_attr :: u8
  vc_bold_attr :: int
  vc_ques :: bool
  vc_state :: con_state
  vc_restate :: nat
  vc_checkin :: bool
  vc_origin :: u32
  vc_scr_end :: u32
  vc_pos :: u32
  vc_x :: u32
  vc_y :: u32
  vc_top :: u32
  vc_bottom :: u32
  vc_npar :: nat
  vc_par :: "nat \<Rightarrow> u32"
  vc_video_mem_start :: u32
  vc_video_mem_end :: u32
  vc_saved_x :: u32
  vc_saved_y :: u32
  vc_iscolor :: bool
  vc_kbdapplic :: u8
  vc_kbdleds :: u8
  vc_kbdmode :: u8
  vc_translate :: nat

record console = ttys +
  vmem :: bmem
  vc_cons :: "nat \<Rightarrow> vc_data"
  NR_CONSOLES :: nat
  video_num_columns :: u32
  video_num_lines :: u32
  video_type :: u8
  video_mem_base :: u32
  video_mem_term :: u32
  video_size_row :: u32
  video_page :: u8
  video_port_reg :: u16
  video_port_val :: u16
  can_do_colour :: bool
  vc_scrbuf :: "nat \<Rightarrow> u32"
  console_blanked :: bool
  blankinterval :: u32
  screen_size :: u32
  kapplic :: u8
  kleds :: u8
  kmode :: u8
  screen_lock :: bool
  table_list :: "nat \<Rightarrow> ptr"

definition upd_vc :: "nat \<Rightarrow> (vc_data \<Rightarrow> vc_data) \<Rightarrow> 'a console_scheme \<Rightarrow> 'a console_scheme" where
  "upd_vc i f s = s\<lparr>vc_cons := (vc_cons s)(i := f (vc_cons s i))\<rparr>"

definition upd_vmem :: "(bmem \<Rightarrow> bmem) \<Rightarrow> 'a console_scheme \<Rightarrow> 'a console_scheme" where
  "upd_vmem f s = s\<lparr>vmem := f (vmem s)\<rparr>"

definition MAX_CONSOLES :: nat where "MAX_CONSOLES = 8"
definition NPAR :: nat where "NPAR = 16"
definition VIDEO_TYPE_MDA :: u8 where "VIDEO_TYPE_MDA = 0x10"
definition VIDEO_TYPE_CGA :: u8 where "VIDEO_TYPE_CGA = 0x11"
definition VIDEO_TYPE_EGAM :: u8 where "VIDEO_TYPE_EGAM = 0x20"
definition VIDEO_TYPE_EGAC :: u8 where "VIDEO_TYPE_EGAC = 0x21"
definition BLANK_TIMER :: nat where "BLANK_TIMER = 0"
definition BEEP_TIMER :: nat where "BEEP_TIMER = 1"

text \<open>The timer functions of this file, as numbers.\<close>

definition BLANK_SCREEN :: nat where "BLANK_SCREEN = 1"
definition UNBLANK_SCREEN :: nat where "UNBLANK_SCREEN = 2"
definition SYSBEEPSTOP :: nat where "SYSBEEPSTOP = 3"

section \<open>Words in memory\<close>

definition put_word :: "u32 \<Rightarrow> u16 \<Rightarrow> bmem \<Rightarrow> bmem" where
  "put_word a v m = m(a := ucast v, a + 1 := ucast (drop_bit 8 v))"

definition get_word :: "u32 \<Rightarrow> bmem \<Rightarrow> u16" where
  "get_word a m = ucast (m a) OR push_bit 8 (ucast (m (a + 1)))"

text \<open>
  The string instructions, with the count in the register; \<open>step\<close> is negative when the direction
  flag is set.
\<close>

fun rep_stosw :: "nat \<Rightarrow> u16 \<Rightarrow> u32 \<Rightarrow> u32 \<Rightarrow> bmem \<Rightarrow> bmem" where
  "rep_stosw 0 v di step m = m"
| "rep_stosw (Suc n) v di step m = rep_stosw n v (di + step) step (put_word di v m)"

fun rep_movsl :: "nat \<Rightarrow> u32 \<Rightarrow> u32 \<Rightarrow> u32 \<Rightarrow> bmem \<Rightarrow> bmem" where
  "rep_movsl 0 si di step m = m"
| "rep_movsl (Suc n) si di step m =
     rep_movsl n (si + step) (di + step) step
       (m(di := m si, di + 1 := m (si + 1), di + 2 := m (si + 2), di + 3 := m (si + 3)))"

section \<open>The cursor and the origin\<close>

text \<open>\<open>x << 1\<close>.\<close>

definition shl1 :: "u32 \<Rightarrow> u32" where "shl1 a = push_bit 1 a"

definition gotoxy :: "nat \<Rightarrow> u32 \<Rightarrow> u32 \<Rightarrow> 'a console_scheme \<Rightarrow> 'a console_scheme" where
  "gotoxy i new_x new_y s =
     (if new_x > video_num_columns s \<or> new_y \<ge> video_num_lines s then s
      else upd_vc i (\<lambda>c. c\<lparr>vc_x := new_x, vc_y := new_y, vc_pos := vc_origin c + new_y * video_size_row s + shl1 new_x\<rparr>) s)"

definition is_ega :: "'a console_scheme \<Rightarrow> bool" where
  "is_ega s \<longleftrightarrow> video_type s = VIDEO_TYPE_EGAC \<or> video_type s = VIDEO_TYPE_EGAM"

text \<open>Two registers of the controller get the upper and the lower half of an offset in words.\<close>

definition out_offset :: "u8 \<Rightarrow> u32 \<Rightarrow> 'a console_scheme \<Rightarrow> 'a console_scheme" where
  "out_offset reg off s =
     outb (ucast (drop_bit 1 off)) (video_port_val s) (outb (reg + 1) (video_port_reg s)
       (outb (ucast (drop_bit 9 off)) (video_port_val s) (outb reg (video_port_reg s) s)))"

definition set_origin :: "nat \<Rightarrow> 'a console_scheme \<Rightarrow> 'a console_scheme" where
  "set_origin i s =
     (if \<not> is_ega s \<or> i \<noteq> fg_console s then s
      else out_offset 12 (vc_origin (vc_cons s i) - video_mem_base s) s)"

definition set_cursor :: "nat \<Rightarrow> 'a console_scheme \<Rightarrow> 'a console_scheme" where
  "set_cursor i s =
     (if i \<noteq> fg_console s then s else out_offset 14 (vc_pos (vc_cons s i) - video_mem_base s) s)"

definition hide_cursor :: "nat \<Rightarrow> 'a console_scheme \<Rightarrow> 'a console_scheme" where
  "hide_cursor i s = out_offset 14 (vc_scr_end (vc_cons s i) - video_mem_base s) s"

section \<open>Scrolling\<close>

text \<open>
  \<open>top\<close> and \<open>bottom\<close> as \<open>scrup\<close> and \<open>scrdown\<close> set them for the time of the call.
\<close>

definition scroll_region :: "nat \<Rightarrow> 'a console_scheme \<Rightarrow> u32 \<times> u32" where
  "scroll_region i s =
     (let c = vc_cons s i; L = video_num_lines s;
          (t, b) = (if vc_y c < vc_top c then (0, vc_y c + 1)
                    else if vc_y c > vc_bottom c then (vc_y c, L) else (vc_top c, vc_bottom c))
      in (if t > L then 0 else t, if b > L then L else b))"

definition half_screen :: "u32 \<Rightarrow> u32 \<Rightarrow> 'a console_scheme \<Rightarrow> nat" where
  "half_screen t b s = unat (drop_bit 1 ((b - t - 1) * video_num_columns s))"

definition copy_up :: "nat \<Rightarrow> u32 \<Rightarrow> u32 \<Rightarrow> 'a console_scheme \<Rightarrow> 'a console_scheme" where
  "copy_up i t b s =
     (let c = vc_cons s i; n = half_screen t b s;
          D = vc_origin c + video_size_row s * t; S = vc_origin c + video_size_row s * (t + 1)
      in upd_vmem (\<lambda>m. rep_stosw (unat (video_num_columns s)) (vc_video_erase_char c) (D + 4 * of_nat n) 2
           (rep_movsl n S D 4 m)) s)"

text \<open>
  Scrolling the whole screen by moving its origin; when that leaves the memory, the screen is
  copied back to its start.
\<close>

definition move_origin :: "nat \<Rightarrow> 'a console_scheme \<Rightarrow> 'a console_scheme" where
  "move_origin i s =
     (let row = video_size_row s; cols = unat (video_num_columns s);
          s = upd_vc i (\<lambda>c. c\<lparr>vc_origin := vc_origin c + row, vc_pos := vc_pos c + row, vc_scr_end := vc_scr_end c + row\<rparr>) s;
          c = vc_cons s i; erase = vc_video_erase_char c
      in if vc_scr_end c > vc_video_mem_end c then
           let n = unat (drop_bit 1 ((video_num_lines s - 1) * video_num_columns s));
               start = vc_video_mem_start c;
               s = upd_vmem (\<lambda>m. rep_stosw cols erase (start + 4 * of_nat n) 2 (rep_movsl n (vc_origin c) start 4 m)) s
           in upd_vc i (\<lambda>c. c\<lparr>vc_scr_end := vc_scr_end c - (vc_origin c - start),
                vc_pos := vc_pos c - (vc_origin c - start), vc_origin := start\<rparr>) s
         else upd_vmem (rep_stosw cols erase (vc_scr_end c - row) 2) s)"

definition scrup :: "nat \<Rightarrow> 'a console_scheme \<Rightarrow> 'a console_scheme" where
  "scrup i s =
     (case scroll_region i s of (t, b) \<Rightarrow>
        if b \<le> t then s
        else if is_ega s then
          if t = 0 \<and> b = video_num_lines s then set_origin i (move_origin i s) else copy_up i t b s
        else copy_up i t b s)"

definition copy_down :: "nat \<Rightarrow> u32 \<Rightarrow> u32 \<Rightarrow> 'a console_scheme \<Rightarrow> 'a console_scheme" where
  "copy_down i t b s =
     (let c = vc_cons s i; n = half_screen t b s;
          D = vc_origin c + video_size_row s * b - 4; S = vc_origin c + video_size_row s * (b - 1) - 4
      in upd_vmem (\<lambda>m. rep_stosw (unat (video_num_columns s)) (vc_video_erase_char c) (D - 4 * of_nat n + 2) (- 2)
           (rep_movsl n S D (- 4) m)) s)"

definition scrdown :: "nat \<Rightarrow> 'a console_scheme \<Rightarrow> 'a console_scheme" where
  "scrdown i s = (case scroll_region i s of (t, b) \<Rightarrow> if b \<le> t then s else copy_down i t b s)"

section \<open>The operations of the interpreter\<close>

definition lf :: "nat \<Rightarrow> 'a console_scheme \<Rightarrow> 'a console_scheme" where
  "lf i s =
     (let c = vc_cons s i; row = video_size_row s
      in if vc_y c + 1 < vc_bottom c then upd_vc i (\<lambda>c. c\<lparr>vc_y := vc_y c + 1, vc_pos := vc_pos c + row\<rparr>) s
         else scrup i s)"

definition ri :: "nat \<Rightarrow> 'a console_scheme \<Rightarrow> 'a console_scheme" where
  "ri i s =
     (let c = vc_cons s i; row = video_size_row s
      in if vc_y c > vc_top c then upd_vc i (\<lambda>c. c\<lparr>vc_y := vc_y c - 1, vc_pos := vc_pos c - row\<rparr>) s
         else scrdown i s)"

definition cr :: "nat \<Rightarrow> 'a console_scheme \<Rightarrow> 'a console_scheme" where
  "cr i s = upd_vc i (\<lambda>c. c\<lparr>vc_pos := vc_pos c - shl1 (vc_x c), vc_x := 0\<rparr>) s"

definition del :: "nat \<Rightarrow> 'a console_scheme \<Rightarrow> 'a console_scheme" where
  "del i s =
     (if vc_x (vc_cons s i) \<noteq> 0 then
        let s = upd_vc i (\<lambda>c. c\<lparr>vc_pos := vc_pos c - 2, vc_x := vc_x c - 1\<rparr>) s; c = vc_cons s i
        in upd_vmem (put_word (vc_pos c) (vc_video_erase_char c)) s
      else s)"

definition erase_words :: "nat \<Rightarrow> u32 \<Rightarrow> u32 \<Rightarrow> 'a console_scheme \<Rightarrow> 'a console_scheme" where
  "erase_words i count start s = upd_vmem (rep_stosw (unat count) (vc_video_erase_char (vc_cons s i)) start 2) s"

definition csi_J :: "nat \<Rightarrow> u32 \<Rightarrow> 'a console_scheme \<Rightarrow> 'a console_scheme" where
  "csi_J i vpar s =
     (let c = vc_cons s i
      in if vpar = 0 then erase_words i (drop_bit 1 (vc_scr_end c - vc_pos c)) (vc_pos c) s
         else if vpar = 1 then erase_words i (drop_bit 1 (vc_pos c - vc_origin c)) (vc_origin c) s
         else if vpar = 2 then erase_words i (video_num_columns s * video_num_lines s) (vc_origin c) s
         else s)"

definition csi_K :: "nat \<Rightarrow> u32 \<Rightarrow> 'a console_scheme \<Rightarrow> 'a console_scheme" where
  "csi_K i vpar s =
     (let c = vc_cons s i; cols = video_num_columns s
      in if vpar = 0 then if vc_x c \<ge> cols then s else erase_words i (cols - vc_x c) (vc_pos c) s
         else if vpar = 1 then erase_words i (if vc_x c < cols then vc_x c else cols) (vc_pos c - shl1 (vc_x c)) s
         else if vpar = 2 then erase_words i cols (vc_pos c - shl1 (vc_x c)) s
         else s)"

definition conv_table :: "u8 list" where "conv_table = [0, 4, 2, 6, 1, 5, 3, 7]"

text \<open>One parameter of the sequence that sets attributes.\<close>

definition underline_attr :: "vc_data \<Rightarrow> u8" where
  "underline_attr c =
     (let a = vc_attr c; newattr = (a AND 0xf0) OR (0xf AND NOT a)
      in if \<not> vc_iscolor c then a OR 1
         else if vc_bold_attr c \<noteq> - 1 then (of_int (vc_bold_attr c) AND 0xf) OR (0xf0 AND a)
         else if newattr AND 0xf = drop_bit 4 a AND 0xf then (a AND 0xf0) OR ((a AND 0xf) + 1) mod 0xf
         else newattr)"

definition csi_m_par :: "bool \<Rightarrow> u32 \<Rightarrow> vc_data \<Rightarrow> vc_data" where
  "csi_m_par colour p c =
     (let a = vc_attr c; d = vc_def_attr c
      in if p = 0 then c\<lparr>vc_attr := d\<rparr>
         else if p = 1 then c\<lparr>vc_attr := if vc_iscolor c then a OR 0x08 else a OR 0x0f\<rparr>
         else if p = 4 then c\<lparr>vc_attr := underline_attr c\<rparr>
         else if p = 5 then c\<lparr>vc_attr := a OR 0x80\<rparr>
         else if p = 7 then c\<lparr>vc_attr := push_bit 4 a OR drop_bit 4 a\<rparr>
         else if p = 22 then c\<lparr>vc_attr := a AND 0xf7\<rparr>
         else if p = 24 then c\<lparr>vc_attr := a AND 0xfe\<rparr>
         else if p = 25 then c\<lparr>vc_attr := a AND 0x7f\<rparr>
         else if p = 27 then c\<lparr>vc_attr := d\<rparr>
         else if p = 39 then c\<lparr>vc_attr := (a AND 0xf0) OR (d AND 0x0f)\<rparr>
         else if p = 49 then c\<lparr>vc_attr := (a AND 0x0f) OR (d AND 0xf0)\<rparr>
         else if \<not> colour then c
         else if 30 \<le> p \<and> p \<le> 37 then c\<lparr>vc_iscolor := True, vc_attr := (a AND 0xf0) OR conv_table ! unat (p - 30)\<rparr>
         else if 40 \<le> p \<and> p \<le> 47 then
           c\<lparr>vc_iscolor := True, vc_attr := (a AND 0x0f) OR push_bit 4 (conv_table ! unat (p - 40))\<rparr>
         else c\<lparr>vc_iscolor := True\<rparr>)"

definition csi_m :: "nat \<Rightarrow> 'a console_scheme \<Rightarrow> 'a console_scheme" where
  "csi_m i s =
     (let colour = can_do_colour s
      in upd_vc i (\<lambda>c. fold (\<lambda>k c. csi_m_par colour (vc_par c k) c) [0..<Suc (vc_npar c)] c) s)"

definition RESPONSE :: "u8 list" where "RESPONSE = [27, 91, 63, 49, 59, 50, 99]"

definition respond :: "'a console_ext tty_write \<Rightarrow> nat \<Rightarrow> 'a console_scheme \<Rightarrow> 'a console_scheme option" where
  "respond wr i s = copy_to_cooked wr i (fold (\<lambda>p s. PUTCH p (read_q i s) s) RESPONSE s)"

text \<open>The loops of \<open>insert_char\<close> and \<open>delete_char\<close>, with the number of their rounds.\<close>

fun shift_right :: "nat \<Rightarrow> u32 \<Rightarrow> u16 \<Rightarrow> bmem \<Rightarrow> bmem" where
  "shift_right 0 p old m = m"
| "shift_right (Suc n) p old m = shift_right n (p + 2) (get_word p m) (put_word p old m)"

fun shift_left :: "nat \<Rightarrow> u32 \<Rightarrow> u16 \<Rightarrow> bmem \<Rightarrow> bmem" where
  "shift_left 0 p e m = put_word p e m"
| "shift_left (Suc n) p e m = shift_left n (p + 2) e (put_word p (get_word (p + 2) m) m)"

definition insert_char :: "nat \<Rightarrow> 'a console_scheme \<Rightarrow> 'a console_scheme" where
  "insert_char i s =
     (let c = vc_cons s i
      in upd_vmem (shift_right (unat (video_num_columns s) - unat (vc_x c)) (vc_pos c) (vc_video_erase_char c)) s)"

definition delete_char :: "nat \<Rightarrow> 'a console_scheme \<Rightarrow> 'a console_scheme" where
  "delete_char i s =
     (let c = vc_cons s i
      in if vc_x c \<ge> video_num_columns s then s
         else upd_vmem (shift_left (unat (video_num_columns s) - unat (vc_x c) - 1) (vc_pos c) (vc_video_erase_char c)) s)"

definition set_region :: "nat \<Rightarrow> u32 \<Rightarrow> u32 \<Rightarrow> 'a console_scheme \<Rightarrow> 'a console_scheme" where
  "set_region i t b s = upd_vc i (\<lambda>c. c\<lparr>vc_top := t, vc_bottom := b\<rparr>) s"

definition insert_line :: "nat \<Rightarrow> 'a console_scheme \<Rightarrow> 'a console_scheme" where
  "insert_line i s =
     (let c = vc_cons s i
      in set_region i (vc_top c) (vc_bottom c) (scrdown i (set_region i (vc_y c) (video_num_lines s) s)))"

definition delete_line :: "nat \<Rightarrow> 'a console_scheme \<Rightarrow> 'a console_scheme" where
  "delete_line i s =
     (let c = vc_cons s i
      in set_region i (vc_top c) (vc_bottom c) (scrup i (set_region i (vc_y c) (video_num_lines s) s)))"

definition times_of :: "u32 \<Rightarrow> u32 \<Rightarrow> nat" where
  "times_of limit nr = unat (if nr > limit then limit else if nr = 0 then 1 else nr)"

definition csi_at :: "nat \<Rightarrow> u32 \<Rightarrow> 'a console_scheme \<Rightarrow> 'a console_scheme" where
  "csi_at i nr s = (insert_char i ^^ times_of (video_num_columns s) nr) s"

definition csi_L :: "nat \<Rightarrow> u32 \<Rightarrow> 'a console_scheme \<Rightarrow> 'a console_scheme" where
  "csi_L i nr s = (insert_line i ^^ times_of (video_num_lines s) nr) s"

definition csi_P :: "nat \<Rightarrow> u32 \<Rightarrow> 'a console_scheme \<Rightarrow> 'a console_scheme" where
  "csi_P i nr s = (delete_char i ^^ times_of (video_num_columns s) nr) s"

definition csi_M :: "nat \<Rightarrow> u32 \<Rightarrow> 'a console_scheme \<Rightarrow> 'a console_scheme" where
  "csi_M i nr s = (delete_line i ^^ times_of (video_num_lines s) nr) s"

definition save_cur :: "nat \<Rightarrow> 'a console_scheme \<Rightarrow> 'a console_scheme" where
  "save_cur i s = upd_vc i (\<lambda>c. c\<lparr>vc_saved_x := vc_x c, vc_saved_y := vc_y c\<rparr>) s"

definition restore_cur :: "nat \<Rightarrow> 'a console_scheme \<Rightarrow> 'a console_scheme" where
  "restore_cur i s = gotoxy i (vc_saved_x (vc_cons s i)) (vc_saved_y (vc_cons s i)) s"

section \<open>The interpreter\<close>

definition NORM_TRANS :: "u8 list" where "NORM_TRANS = map of_nat [32..<127] @ [32]"

definition GRAF_TRANS :: "u8 list" where
  "GRAF_TRANS = map of_nat [32..<48] @ [219] @ map of_nat [49..<64] @
     map of_nat [64..<73] @ [15] @ map of_nat [74..<95] @ [32] @
     [4, 177, 7, 7, 7, 7, 248, 241, 32, 7, 217, 191, 218, 192, 197, 7] @
     [7, 196, 7, 7, 195, 180, 193, 194, 179, 7, 7, 7, 7, 7, 156, 32]"

definition trans_table :: "nat \<Rightarrow> u8 list" where
  "trans_table k = (if k = 0 then NORM_TRANS else GRAF_TRANS)"

definition set_state :: "nat \<Rightarrow> con_state \<Rightarrow> 'a console_scheme \<Rightarrow> 'a console_scheme" where
  "set_state i st s = upd_vc i (\<lambda>c. c\<lparr>vc_state := st\<rparr>) s"

text \<open>Back to the start of the line behind the last column, and one line down.\<close>

definition wrap_line :: "nat \<Rightarrow> 'a console_scheme \<Rightarrow> 'a console_scheme" where
  "wrap_line i s =
     lf i (upd_vc i (\<lambda>c. c\<lparr>vc_x := vc_x c - video_num_columns s, vc_pos := vc_pos c - video_size_row s\<rparr>) s)"

definition put_cell :: "nat \<Rightarrow> u8 \<Rightarrow> 'a console_scheme \<Rightarrow> 'a console_scheme" where
  "put_cell i ch s =
     (let c = vc_cons s i
      in upd_vc i (\<lambda>c. c\<lparr>vc_pos := vc_pos c + 2, vc_x := vc_x c + 1\<rparr>)
           (upd_vmem (\<lambda>m. m(vc_pos c := ch, vc_pos c + 1 := vc_attr c)) s))"

definition con_tab :: "nat \<Rightarrow> 'a console_scheme \<Rightarrow> 'a console_scheme" where
  "con_tab i s =
     (let n = 8 - (vc_x (vc_cons s i) AND 7);
          s = upd_vc i (\<lambda>c. c\<lparr>vc_x := vc_x c + n, vc_pos := vc_pos c + shl1 n\<rparr>) s
      in if vc_x (vc_cons s i) > video_num_columns s then wrap_line i s else s)"

definition sysbeep :: "'a console_ext port_in \<Rightarrow> 'a console_scheme \<Rightarrow> 'a console_scheme" where
  "sysbeep inb s =
     (let s = outb (inb 0x61 s OR 3) 0x61 s;
          s = outb 0x06 0x42 (outb 0x37 0x42 (outb 0xB6 0x43 s))
      in s\<lparr>timer_table := (timer_table s)(BEEP_TIMER := \<lparr>tm_expires = jiffies s + of_int (HZ div 8), tm_fn = SYSBEEPSTOP\<rparr>),
           timer_active := timer_active s OR push_bit BEEP_TIMER 1\<rparr>)"

definition sysbeepstop :: "'a console_ext port_in \<Rightarrow> 'a console_scheme \<Rightarrow> 'a console_scheme" where
  "sysbeepstop inb s = outb (inb 0x61 s AND 0xFC) 0x61 s"

definition con_normal :: "'a console_ext port_in \<Rightarrow> nat \<Rightarrow> u8 \<Rightarrow> 'a console_scheme \<Rightarrow> 'a console_scheme" where
  "con_normal inb i c s =
     (if 31 < c \<and> c < 127 then
        let s = (if vc_x (vc_cons s i) \<ge> video_num_columns s then wrap_line i s else s)
        in put_cell i (trans_table (vc_translate (vc_cons s i)) ! unat (c - 32)) s
      else if c = 27 then set_state i ESesc s
      else if c = 10 \<or> c = 11 \<or> c = 12 then lf i s
      else if c = 13 then cr i s
      else if c = 127 then del i s
      else if c = 8 then
        if vc_x (vc_cons s i) \<noteq> 0 then upd_vc i (\<lambda>c. c\<lparr>vc_x := vc_x c - 1, vc_pos := vc_pos c - 2\<rparr>) s else s
      else if c = 9 then con_tab i s
      else if c = 7 then sysbeep inb s
      else if c = 14 then upd_vc i (\<lambda>c. c\<lparr>vc_checkin := True, vc_translate := vc_restate c\<rparr>) s
      else if c = 15 then upd_vc i (\<lambda>c. c\<lparr>vc_translate := 0, vc_checkin := False\<rparr>) s
      else s)"

definition DEF_TERMIOS :: termios where
  "DEF_TERMIOS = init_termios ICRNL (OPOST OR ONLCR) 0 (IXON OR ISIG OR ICANON OR ECHO OR ECHOCTL OR ECHOKE)"

definition set_kbdapplic :: "nat \<Rightarrow> u8 \<Rightarrow> 'a console_scheme \<Rightarrow> 'a console_scheme" where
  "set_kbdapplic i v s =
     (let s = upd_vc i (\<lambda>c. c\<lparr>vc_kbdapplic := v\<rparr>) s in if i = fg_console s then s\<lparr>kapplic := v\<rparr> else s)"

definition con_reset :: "nat \<Rightarrow> 'a console_scheme \<Rightarrow> 'a console_scheme" where
  "con_reset i s =
     (let s = upd_tty i (\<lambda>t. t\<lparr>tt_termios := DEF_TERMIOS\<rparr>) s
      in set_kbdapplic i 0 (upd_vc i (\<lambda>c. c\<lparr>vc_state := ESnormal, vc_restate := 0, vc_checkin := False, vc_top := 0,
           vc_bottom := video_num_lines s, vc_translate := 0\<rparr>) s))"

definition con_esc :: "'a console_ext tty_write \<Rightarrow> nat \<Rightarrow> u8 \<Rightarrow> 'a console_scheme \<Rightarrow> 'a console_scheme option" where
  "con_esc wr i c s =
     (let s = set_state i ESnormal s
      in if c = 90 then respond wr i s
         else Some
           (if c = 91 then set_state i ESsquare s
            else if c = 69 then gotoxy i 0 (vc_y (vc_cons s i) + 1) s
            else if c = 77 then ri i s
            else if c = 68 then lf i s
            else if c = 55 then save_cur i s
            else if c = 56 then restore_cur i s
            else if c = 40 \<or> c = 41 then set_state i ESsetgraph s
            else if c = 80 then set_state i ESsetterm s
            else if c = 35 then set_state i ESminus s
            else if c = 99 then con_reset i s
            else if c = 62 then set_kbdapplic i 0 s
            else if c = 61 then set_kbdapplic i 1 s
            else s))"

definition upd_par :: "nat \<Rightarrow> nat \<Rightarrow> (u32 \<Rightarrow> u32) \<Rightarrow> 'a console_scheme \<Rightarrow> 'a console_scheme" where
  "upd_par i k f s = upd_vc i (\<lambda>c. c\<lparr>vc_par := (vc_par c)(k := f (vc_par c k))\<rparr>) s"

text \<open>\<open>if (par[0]) par[0]--\<close> and \<open>if (!par[0]) par[0]++\<close>.\<close>

definition dec_par :: "nat \<Rightarrow> nat \<Rightarrow> 'a console_scheme \<Rightarrow> 'a console_scheme" where
  "dec_par i k s = upd_par i k (\<lambda>p. if p \<noteq> 0 then p - 1 else p) s"

definition one_par :: "nat \<Rightarrow> 'a console_scheme \<Rightarrow> 'a console_scheme" where
  "one_par i s = upd_par i 0 (\<lambda>p. if p = 0 then p + 1 else p) s"

definition csi_move :: "nat \<Rightarrow> (vc_data \<Rightarrow> u32) \<Rightarrow> (vc_data \<Rightarrow> u32) \<Rightarrow> 'a console_scheme \<Rightarrow> 'a console_scheme" where
  "csi_move i fx fy s = gotoxy i (fx (vc_cons s i)) (fy (vc_cons s i)) s"

definition csi_r :: "nat \<Rightarrow> 'a console_scheme \<Rightarrow> 'a console_scheme" where
  "csi_r i s =
     (let L = video_num_lines s; s = upd_par i 1 (\<lambda>p. if p = 0 then L else p) (dec_par i 0 s); p = vc_par (vc_cons s i)
      in if p 0 < p 1 \<and> p 1 \<le> L then set_region i (p 0) (p 1) s else s)"

definition csi_lb :: "nat \<Rightarrow> u8 \<Rightarrow> 'a console_scheme \<Rightarrow> 'a console_scheme" where
  "csi_lb i c s =
     (let d = vc_cons s i; p = vc_par d
      in if \<not> (vc_npar d \<ge> 2 \<and> p 1 - 13 = p 0 \<and> p 2 - 17 = p 0) then s
         else
           let s = (if c = 108 \<and> p 0 \<le> 60 then s\<lparr>blankinterval := of_int HZ * 60 * p 0\<rparr> else s)
           in if c = 98 then upd_vc i (\<lambda>c. c\<lparr>vc_bold_attr := sint (p 0)\<rparr>) s else s)"

definition con_csi :: "nat \<Rightarrow> u8 \<Rightarrow> 'a console_scheme \<Rightarrow> 'a console_scheme" where
  "con_csi i c s =
     (let par = (\<lambda>c. vc_par c 0)
      in if c = 71 \<or> c = 96 then csi_move i par vc_y (dec_par i 0 s)
         else if c = 65 then csi_move i vc_x (\<lambda>c. vc_y c - par c) (one_par i s)
         else if c = 66 \<or> c = 101 then csi_move i vc_x (\<lambda>c. vc_y c + par c) (one_par i s)
         else if c = 67 \<or> c = 97 then csi_move i (\<lambda>c. vc_x c + par c) vc_y (one_par i s)
         else if c = 68 then csi_move i (\<lambda>c. vc_x c - par c) vc_y (one_par i s)
         else if c = 69 then csi_move i (\<lambda>c. 0) (\<lambda>c. vc_y c + par c) (one_par i s)
         else if c = 70 then csi_move i (\<lambda>c. 0) (\<lambda>c. vc_y c - par c) (one_par i s)
         else if c = 100 then csi_move i vc_x par (dec_par i 0 s)
         else if c = 72 \<or> c = 102 then csi_move i (\<lambda>c. vc_par c 1) par (dec_par i 1 (dec_par i 0 s))
         else if c = 74 then csi_J i (par (vc_cons s i)) s
         else if c = 75 then csi_K i (par (vc_cons s i)) s
         else if c = 76 then csi_L i (par (vc_cons s i)) s
         else if c = 77 then csi_M i (par (vc_cons s i)) s
         else if c = 80 then csi_P i (par (vc_cons s i)) s
         else if c = 64 then csi_at i (par (vc_cons s i)) s
         else if c = 109 then csi_m i s
         else if c = 114 then csi_r i s
         else if c = 115 then save_cur i s
         else if c = 117 then restore_cur i s
         else if c = 108 \<or> c = 98 then csi_lb i c s
         else s)"

definition con_gotpars :: "nat \<Rightarrow> u8 \<Rightarrow> 'a console_scheme \<Rightarrow> 'a console_scheme" where
  "con_gotpars i c s =
     (let s = set_state i ESnormal s
      in if vc_ques (vc_cons s i) then upd_vc i (\<lambda>c. c\<lparr>vc_ques := False\<rparr>) s else con_csi i c s)"

definition con_getpars :: "nat \<Rightarrow> u8 \<Rightarrow> 'a console_scheme \<Rightarrow> 'a console_scheme" where
  "con_getpars i c s =
     (let n = vc_npar (vc_cons s i)
      in if c = 59 \<and> n < NPAR - 1 then upd_vc i (\<lambda>c. c\<lparr>vc_npar := n + 1\<rparr>) s
         else if 48 \<le> c \<and> c \<le> 57 then upd_par i n (\<lambda>p. 10 * p + ucast c - 48) s
         else con_gotpars i c (set_state i ESgotpars s))"

definition con_square :: "nat \<Rightarrow> u8 \<Rightarrow> 'a console_scheme \<Rightarrow> 'a console_scheme" where
  "con_square i c s =
     (let s = upd_vc i (\<lambda>d. d\<lparr>vc_par := (\<lambda>k. if k < NPAR then 0 else vc_par d k), vc_npar := 0, vc_state := ESgetpars\<rparr>) s
      in if c = 91 then set_state i ESfunckey s
         else let s = upd_vc i (\<lambda>d. d\<lparr>vc_ques := (c = 63)\<rparr>) s
              in if c = 63 then s else con_getpars i c s)"

definition con_setterm :: "nat \<Rightarrow> u8 \<Rightarrow> 'a console_scheme \<Rightarrow> 'a console_scheme" where
  "con_setterm i c s =
     (let s = set_state i ESnormal s
      in if c = 83 then upd_vc i (\<lambda>d. d\<lparr>vc_def_attr := vc_attr d,
             vc_video_erase_char := (vc_video_erase_char d AND 0x0ff) OR push_bit 8 (ucast (vc_attr d))\<rparr>) s
         else s)"

definition con_setgraph :: "nat \<Rightarrow> u8 \<Rightarrow> 'a console_scheme \<Rightarrow> 'a console_scheme" where
  "con_setgraph i c s =
     set_state i ESnormal
       (if c = 48 then upd_vc i (\<lambda>d. d\<lparr>vc_translate := if vc_checkin d then 1 else vc_translate d, vc_restate := 1\<rparr>) s
        else if c = 66 then upd_vc i (\<lambda>d. d\<lparr>vc_translate := 0, vc_restate := 0\<rparr>) s
        else s)"

definition con_char ::
    "'a console_ext port_in \<Rightarrow> 'a console_ext tty_write \<Rightarrow> nat \<Rightarrow> u8 \<Rightarrow> 'a console_scheme \<Rightarrow> 'a console_scheme option" where
  "con_char inb wr i c s =
     (let s = (if c = 24 \<or> c = 26 then set_state i ESnormal s else s)
      in case vc_state (vc_cons s i) of
           ESnormal \<Rightarrow> Some (con_normal inb i c s)
         | ESesc \<Rightarrow> con_esc wr i c s
         | ESsquare \<Rightarrow> Some (con_square i c s)
         | ESgetpars \<Rightarrow> Some (con_getpars i c s)
         | ESgotpars \<Rightarrow> Some (con_gotpars i c s)
         | ESfunckey \<Rightarrow> Some (set_state i ESnormal s)
         | ESsetterm \<Rightarrow> Some (con_setterm i c s)
         | ESsetgraph \<Rightarrow> Some (con_setgraph i c s)
         | _ \<Rightarrow> Some (set_state i ESnormal s))"

fun con_chars ::
    "'a console_ext port_in \<Rightarrow> 'a console_ext tty_write \<Rightarrow> nat \<Rightarrow> nat \<Rightarrow> 'a console_scheme \<Rightarrow> 'a console_scheme option" where
  "con_chars inb wr i 0 s = Some s"
| "con_chars inb wr i (Suc n) s =
     (if tt_stopped (tty_table s i) then Some s
      else case GETCH (write_q i s) s of (c, s) \<Rightarrow> Option.bind (con_char inb wr i c s) (con_chars inb wr i n))"

text \<open>The timer that blanks the screen, set again after output and input.\<close>

definition restart_blank_timer :: "'a console_scheme \<Rightarrow> 'a console_scheme" where
  "restart_blank_timer s =
     (let s = s\<lparr>timer_active := timer_active s AND NOT (push_bit BLANK_TIMER 1)\<rparr>;
          set = (\<lambda>e s. s\<lparr>timer_table := (timer_table s)(BLANK_TIMER := (timer_table s BLANK_TIMER)\<lparr>tm_expires := e\<rparr>),
                 timer_active := timer_active s OR push_bit BLANK_TIMER 1\<rparr>)
      in if console_blanked s then set 0 s else if blankinterval s \<noteq> 0 then set (jiffies s + blankinterval s) s else s)"

definition con_write ::
    "'a console_ext port_in \<Rightarrow> 'a console_ext tty_write \<Rightarrow> nat \<Rightarrow> 'a console_scheme \<Rightarrow> 'a console_scheme option" where
  "con_write inb wr i s =
     (let s = wake_up (proc_list (write_q i s)) s
      in if i \<ge> MAX_CONSOLES then Some s
         else map_option (\<lambda>s. restart_blank_timer (set_cursor i s))
                (con_chars inb wr i (q_len (queues s (write_q i s))) s))"

definition do_keyboard_interrupt :: "'a console_ext tty_write \<Rightarrow> 'a console_scheme \<Rightarrow> 'a console_scheme option" where
  "do_keyboard_interrupt wr s = map_option restart_blank_timer (copy_to_cooked wr (TTY_TABLE 0 s) s)"

section \<open>Switching and blanking\<close>

definition memsetw :: "u32 \<Rightarrow> u16 \<Rightarrow> u32 \<Rightarrow> bmem \<Rightarrow> bmem" where
  "memsetw a c count m = rep_stosw (unat count) c a 2 m"

definition kbdsave :: "nat \<Rightarrow> 'a console_scheme \<Rightarrow> 'a console_scheme" where
  "kbdsave new s =
     (let s = upd_vc (fg_console s) (\<lambda>c. c\<lparr>vc_kbdmode := kmode s, vc_kbdleds := kleds s, vc_kbdapplic := kapplic s\<rparr>) s;
          c = vc_cons s new
      in s\<lparr>kmode := (kmode s AND 0x3F) OR (vc_kbdmode c AND 0xC0), kleds := vc_kbdleds c, kapplic := vc_kbdapplic c\<rparr>)"

definition at_window :: "nat \<Rightarrow> u32 \<Rightarrow> u32 \<Rightarrow> 'a console_scheme \<Rightarrow> 'a console_scheme" where
  "at_window i a e s =
     upd_vc i (\<lambda>c. c\<lparr>vc_video_mem_start := a, vc_origin := a, vc_scr_end := a + screen_size s, vc_video_mem_end := e,
       vc_top := 0, vc_bottom := video_num_lines s, vc_pos := a + vc_y c * video_size_row s + shl1 (vc_x c)\<rparr>) s"

definition get_scrmem :: "nat \<Rightarrow> 'a console_scheme \<Rightarrow> 'a console_scheme" where
  "get_scrmem i s =
     (let buf = vc_scrbuf s (fg_console s);
          s = upd_vmem (\<lambda>m. snd (memcpy buf (vc_origin (vc_cons s i)) (screen_size s) m)) s
      in at_window i buf (buf + screen_size s) s)"

definition set_scrmem :: "nat \<Rightarrow> 'a console_scheme \<Rightarrow> 'a console_scheme" where
  "set_scrmem i s =
     (let s = at_window i (video_mem_base s) (video_mem_term s) s
      in upd_vmem (\<lambda>m. snd (memcpy (video_mem_base s) (vc_scrbuf s (fg_console s)) (screen_size s) m)) s)"

definition set_timer_fn :: "nat \<Rightarrow> 'a console_scheme \<Rightarrow> 'a console_scheme" where
  "set_timer_fn f s = s\<lparr>timer_table := (timer_table s)(BLANK_TIMER := (timer_table s BLANK_TIMER)\<lparr>tm_fn := f\<rparr>)\<rparr>"

definition blank_screen :: "'a console_scheme \<Rightarrow> 'a console_scheme" where
  "blank_screen s =
     (let s = get_scrmem (fg_console s) (set_timer_fn UNBLANK_SCREEN s);
          s = (hide_cursor (fg_console s) s)\<lparr>console_blanked := True\<rparr>
      in upd_vmem (memsetw (video_mem_base s) 0x0020 (video_mem_term s - video_mem_base s)) s)"

definition unblank_screen :: "'a console_scheme \<Rightarrow> 'a console_scheme" where
  "unblank_screen s =
     (let s = set_timer_fn BLANK_SCREEN s;
          s = (if blankinterval s \<noteq> 0 then
                 s\<lparr>timer_table := (timer_table s)(BLANK_TIMER := (timer_table s BLANK_TIMER)\<lparr>tm_expires := jiffies s + blankinterval s\<rparr>),
                   timer_active := timer_active s OR push_bit BLANK_TIMER 1\<rparr> else s);
          s = s\<lparr>console_blanked := False\<rparr>; i = fg_console s
      in set_cursor i (set_origin i (set_scrmem i s)))"

definition update_screen :: "nat \<Rightarrow> 'a console_scheme \<Rightarrow> 'a console_scheme" where
  "update_screen new s =
     (if new = fg_console s \<or> screen_lock s then s
      else let s = kbdsave new (s\<lparr>screen_lock := True\<rparr>);
               s = (get_scrmem (fg_console s) s)\<lparr>fg_console := new\<rparr>;
               s = set_cursor new (set_origin new (set_scrmem new s))
           in s\<lparr>screen_lock := False\<rparr>)"

definition change_console :: "ptr \<Rightarrow> nat \<Rightarrow> 'a console_scheme \<Rightarrow> 'a console_scheme" where
  "change_console con_queues new s =
     (if new = fg_console s \<or> new \<ge> NR_CONSOLES s then s
      else update_screen new
        (s\<lparr>table_list := (table_list s)(0 := queue_at con_queues (3 * new), 1 := queue_at con_queues (1 + 3 * new))\<rparr>))"

text \<open>\<open>wait_for_keypress\<close> up to its first sleep, and after each waking.\<close>

definition wait_for_keypress :: "ptr \<Rightarrow> 'a console_scheme \<Rightarrow> (ptr option, 'a console_scheme) outcome" where
  "wait_for_keypress init_task s =
     (let q = secondary (fg_console s) s
      in if \<not> pending s \<and> q_empty (queues s q) then
           and_then (interruptible_sleep_on init_task (proc_list q) s) (\<lambda>tmp s. Ret (Some tmp) s)
         else Ret None s)"

section \<open>The screen as text\<close>

fun dump_cells :: "nat \<Rightarrow> u32 \<Rightarrow> u32 \<Rightarrow> 'a console_scheme \<Rightarrow> 'a console_scheme" where
  "dump_cells 0 sptr buf s = s"
| "dump_cells (Suc l) sptr buf s = dump_cells l (sptr + 2) (buf + 1) (put_fs_byte (vmem s sptr) buf s)"

definition do_screendump :: "u32 \<Rightarrow> 'a console_scheme \<Rightarrow> (int, 'a console_scheme) outcome" where
  "do_screendump arg s =
     and_then (verify_area arg (sint (2 + video_num_columns s * video_num_lines s)) s) (\<lambda>_ s.
       let i = unat (get_fs_byte (arg + 1) s)
       in if i > NR_CONSOLES s then Ret (- EIO) s
          else let s = put_fs_byte (ucast (video_num_lines s)) arg s;
                   s = put_fs_byte (ucast (video_num_columns s)) (arg + 1) s;
                   i = (if i \<noteq> 0 then i - 1 else fg_console s)
               in Ret 0 (dump_cells (unat (video_num_lines s * video_num_columns s)) (vc_origin (vc_cons s i)) (arg + 2) s))"

definition print_char :: "nat \<Rightarrow> u8 \<Rightarrow> 'a console_scheme \<Rightarrow> 'a console_scheme" where
  "print_char i c s =
     (if c = 10 then lf i (cr i s)
      else if c = 13 then cr i s
      else put_cell i c (if vc_x (vc_cons s i) \<ge> video_num_columns s then wrap_line i s else s))"

text \<open>The message is the characters before its final zero.\<close>

definition console_print :: "u8 list \<Rightarrow> 'a console_scheme \<Rightarrow> 'a console_scheme" where
  "console_print b s =
     (let i = (if fg_console s \<ge> NR_CONSOLES s then 0 else fg_console s)
      in set_cursor i (fold (print_char i) b s))"

section \<open>Start\<close>

text \<open>What the boot loader found, at 0x90000.\<close>

definition ORIG_X :: "'a console_scheme \<Rightarrow> u32" where "ORIG_X s = ucast (vmem s 0x90000)"
definition ORIG_Y :: "'a console_scheme \<Rightarrow> u32" where "ORIG_Y s = ucast (vmem s 0x90001)"
definition ORIG_VIDEO_PAGE :: "'a console_scheme \<Rightarrow> u16" where "ORIG_VIDEO_PAGE s = get_word 0x90004 (vmem s)"
definition ORIG_VIDEO_MODE :: "'a console_scheme \<Rightarrow> u16" where "ORIG_VIDEO_MODE s = get_word 0x90006 (vmem s) AND 0xff"
definition ORIG_VIDEO_COLS :: "'a console_scheme \<Rightarrow> u16" where
  "ORIG_VIDEO_COLS s = drop_bit 8 (get_word 0x90006 (vmem s) AND 0xff00)"
definition ORIG_VIDEO_LINES :: "'a console_scheme \<Rightarrow> u16" where "ORIG_VIDEO_LINES s = get_word 0x9000e (vmem s) AND 0xff"
definition ORIG_VIDEO_EGA_BX :: "'a console_scheme \<Rightarrow> u16" where "ORIG_VIDEO_EGA_BX s = get_word 0x9000a (vmem s)"

definition MEM_BUFFER_SIZE :: u32 where "MEM_BUFFER_SIZE = 64000"

text \<open>The kind of display, with the four letters that name it.\<close>

definition find_display :: "'a console_scheme \<Rightarrow> u8 list \<times> 'a console_scheme" where
  "find_display s =
     (let ega = ORIG_VIDEO_EGA_BX s AND 0xff \<noteq> 0x10
      in if ORIG_VIDEO_MODE s = 7 then
           let s = s\<lparr>video_mem_base := 0xb0000, video_port_reg := 0x3b4, video_port_val := 0x3b5\<rparr>
           in if ega then ([69, 71, 65, 109], s\<lparr>video_type := VIDEO_TYPE_EGAM, video_mem_term := 0xb8000\<rparr>)
              else ([42, 77, 68, 65], s\<lparr>video_type := VIDEO_TYPE_MDA, video_mem_term := 0xb2000\<rparr>)
         else
           let s = s\<lparr>can_do_colour := True, video_mem_base := 0xb8000, video_port_reg := 0x3d4, video_port_val := 0x3d5\<rparr>
           in if ega then ([69, 71, 65, 99], s\<lparr>video_type := VIDEO_TYPE_EGAC, video_mem_term := 0xc0000\<rparr>)
              else ([42, 67, 71, 65], s\<lparr>video_type := VIDEO_TYPE_CGA, video_mem_term := 0xba000\<rparr>))"

fun put_name :: "u32 \<Rightarrow> u8 list \<Rightarrow> bmem \<Rightarrow> bmem" where
  "put_name a [] m = m"
| "put_name a (c # cs) m = put_name (a + 2) cs (m(a := c))"

definition first_console :: "u32 \<Rightarrow> u32 \<Rightarrow> 'a console_scheme \<Rightarrow> 'a console_scheme" where
  "first_console base video_memory s =
     upd_vc 0 (\<lambda>c. c\<lparr>vc_origin := base, vc_video_mem_start := base, vc_video_mem_end := base + video_memory,
       vc_scr_end := base + screen_size s, vc_top := 0, vc_bottom := video_num_lines s, vc_attr := 0x07, vc_def_attr := 0x07,
       vc_restate := 0, vc_state := ESnormal, vc_checkin := False, vc_ques := False, vc_iscolor := False, vc_translate := 0,
       vc_kbdleds := 2, vc_kbdmode := 0, vc_kbdapplic := 0, vc_bold_attr := - 1\<rparr>) s"

definition next_console :: "u32 \<Rightarrow> u32 \<Rightarrow> nat \<Rightarrow> 'a console_scheme \<Rightarrow> 'a console_scheme" where
  "next_console base video_memory k s =
     (let a = base + of_nat k * video_memory
      in gotoxy k 0 0 (upd_vc k (\<lambda>_. (vc_cons s 0)\<lparr>vc_origin := a, vc_video_mem_start := a,
           vc_scr_end := a + video_num_lines s * video_size_row s, vc_video_mem_end := a + video_memory\<rparr>) s))"

text \<open>The first half of \<open>con_init\<close>: what kind of screen there is, and its name in the corner.\<close>

definition find_screen :: "'a console_scheme \<Rightarrow> 'a console_scheme" where
  "find_screen s =
     (let s = s\<lparr>video_num_columns := ucast (ORIG_VIDEO_COLS s), video_size_row := ucast (ORIG_VIDEO_COLS s) * 2,
                video_num_lines := ucast (ORIG_VIDEO_LINES s), video_page := ucast (ORIG_VIDEO_PAGE s)\<rparr>;
          s = upd_vc 0 (\<lambda>c. c\<lparr>vc_video_erase_char := 0x0720\<rparr>) s;
          s = s\<lparr>timer_table := (timer_table s)(BLANK_TIMER := \<lparr>tm_expires = 0, tm_fn = BLANK_SCREEN\<rparr>)\<rparr>;
          s = (if blankinterval s \<noteq> 0 then
                 s\<lparr>timer_table := (timer_table s)(BLANK_TIMER := \<lparr>tm_expires = jiffies s + blankinterval s, tm_fn = BLANK_SCREEN\<rparr>),
                   timer_active := timer_active s OR push_bit BLANK_TIMER 1\<rparr> else s);
          (desc, s) = find_display s
      in upd_vmem (put_name (video_mem_base s + video_size_row s - 8) desc) s)"

text \<open>The second half: the consoles, each with a screen in the buffer at \<open>buf\<close>.\<close>

definition make_consoles :: "u32 \<Rightarrow> 'a console_scheme \<Rightarrow> 'a console_scheme" where
  "make_consoles buf s =
     (let s = upd_vmem (memsetw buf (vc_video_erase_char (vc_cons s 0)) (MEM_BUFFER_SIZE div 2)) s;
          screen = video_num_lines s * video_size_row s;
          n = unat (MEM_BUFFER_SIZE div screen);
          n = (if n > MAX_CONSOLES then MAX_CONSOLES else n);
          s = s\<lparr>screen_size := screen, NR_CONSOLES := if n = 0 then 1 else n\<rparr>;
          s = gotoxy 0 (ORIG_X s) (ORIG_Y s) (first_console buf screen s);
          s = fold (next_console buf screen) [1..<NR_CONSOLES s] s
      in s\<lparr>vc_scrbuf := (\<lambda>k. if k < NR_CONSOLES s then vc_origin (vc_cons s k) else vc_scrbuf s k)\<rparr>)"

text \<open>\<open>con_init\<close> but the interrupt gate; \<open>buf\<close> is the address of \<open>vc_scrmembuf\<close>.\<close>

definition con_init :: "'a console_ext port_in \<Rightarrow> u32 \<Rightarrow> 'a console_scheme \<Rightarrow> 'a console_scheme" where
  "con_init inb buf s =
     (let s = make_consoles buf (find_screen s);
          s = at_window 0 (video_mem_base s) (video_mem_term s) s;
          s = update_screen (fg_console s) s;
          s = outb (inb 0x21 s AND 0xfd) 0x21 s;
          a = inb 0x61 s
      in outb a 0x61 (outb (a OR 0x80) 0x61 s))"

end
