(* ===== verification/Screens.thy ===== *)
theory Screens
  imports Console
begin

text \<open>
  What the operations of the consoles keep: the cursor is on the screen, the screen is in the
  console's part of the memory, and nothing is written outside of that part. The arithmetic is
  that of natural numbers; the bounds that keep the words from wrapping around are part of the
  invariant.
\<close>

section \<open>Word arithmetic without wrap-around\<close>

lemma unat_add: "unat a + unat b < 2 ^ 32 \<Longrightarrow> unat (a + b) = unat a + unat b" for a b :: u32
  by (simp add: unat_word_ariths)

lemma unat_sub_le: "unat b \<le> unat a \<Longrightarrow> unat (a - b) = unat a - unat b" for a b :: u32
  by (simp add: unat_sub word_le_nat_alt)

lemma unat_mul: "unat a * unat b < 2 ^ 32 \<Longrightarrow> unat (a * b) = unat a * unat b" for a b :: u32
  by (simp add: unat_word_ariths)

lemma unat_shl1: "unat a < 2 ^ 31 \<Longrightarrow> unat (shl1 a) = 2 * unat a"
  by (simp add: shl1_def push_bit_eq_mult unat_word_ariths)

lemma unat_shr1: "unat (drop_bit (Suc 0) a) = unat a div 2" for a :: u32
  by (subst unat_drop_bit_eq) (simp add: drop_bit_eq_div)

lemma shl1_sub: "unat b \<le> unat a \<Longrightarrow> shl1 (a - b) = shl1 a - shl1 b"
  by (simp add: shl1_def push_bit_eq_mult algebra_simps)

section \<open>A console's variables\<close>

text \<open>The variables of a console of \<open>C\<close> columns and \<open>L\<close> lines.\<close>

definition good :: "nat \<Rightarrow> nat \<Rightarrow> vc_data \<Rightarrow> bool" where
  "good C L c \<longleftrightarrow> unat (vc_x c) \<le> C \<and> unat (vc_y c) < L \<and> unat (vc_top c) < unat (vc_bottom c) \<and> unat (vc_bottom c) \<le> L \<and>
     unat (vc_video_mem_start c) \<le> unat (vc_origin c) \<and> unat (vc_scr_end c) = unat (vc_origin c) + L * (2 * C) \<and>
     unat (vc_scr_end c) \<le> unat (vc_video_mem_end c) \<and> unat (vc_video_mem_end c) < 2 ^ 31 \<and>
     unat (vc_pos c) = unat (vc_origin c) + unat (vc_y c) * (2 * C) + 2 * unat (vc_x c)"

lemma cell_bound:
  fixes Y L X C :: nat
  assumes "Y < L" "X \<le> C"
  shows "Y * (2 * C) + 2 * X \<le> L * (2 * C)"
proof -
  have "(Y + 1) * (2 * C) \<le> L * (2 * C)"
    using assms(1) by (intro mult_le_mono1) simp
  with assms(2) show ?thesis
    by simp
qed

lemma good_bounds:
  assumes "good C L c" "8 \<le> C"
  shows "unat (vc_pos c) \<le> unat (vc_scr_end c)" "L * (2 * C) < 2 ^ 31" "C < 2 ^ 30" "L < 2 ^ 31" "unat (vc_origin c) < 2 ^ 31"
    "unat (vc_origin c) + L * (2 * C) < 2 ^ 31"
    "unat (vc_origin c) + (unat (vc_y c) * (2 * C) + 2 * C) \<le> unat (vc_scr_end c)"
proof -
  show a: "unat (vc_pos c) \<le> unat (vc_scr_end c)"
    using assms cell_bound [of "unat (vc_y c)" L "unat (vc_x c)" C] by (simp add: good_def)
  show "unat (vc_origin c) + L * (2 * C) < 2 ^ 31"
    using assms(1) by (simp add: good_def)
  then show b: "L * (2 * C) < 2 ^ 31" "unat (vc_origin c) < 2 ^ 31"
    by linarith+
  have "0 < L"
    using assms(1) by (auto simp: good_def)
  then have "2 * C \<le> L * (2 * C)" "L \<le> L * (2 * C)"
    using assms(2) by simp_all
  then have "2 * C < 2 ^ 31" "L < 2 ^ 31"
    using b(1) by (meson le_less_trans)+
  then show "C < 2 ^ 30" "L < 2 ^ 31"
    by simp_all
  show "unat (vc_origin c) + (unat (vc_y c) * (2 * C) + 2 * C) \<le> unat (vc_scr_end c)"
    using assms cell_bound [of "unat (vc_y c)" L C C] by (simp add: good_def)
qed

section \<open>The invariant\<close>

text \<open>
  \<open>kept i s u\<close>: the screen of console \<open>i\<close> is in order in \<open>u\<close>, and since \<open>s\<close> the memory outside of its
  part, the other consoles and the variables that all of them share are the same.
\<close>

definition geometry :: "'a console_scheme \<Rightarrow> bool" where
  "geometry s \<longleftrightarrow> 8 \<le> unat (video_num_columns s) \<and> unat (video_size_row s) = 2 * unat (video_num_columns s)"

definition screen_ok :: "nat \<Rightarrow> 'a console_scheme \<Rightarrow> bool" where
  "screen_ok i s \<longleftrightarrow> geometry s \<and> good (unat (video_num_columns s)) (unat (video_num_lines s)) (vc_cons s i)"

definition outside :: "vc_data \<Rightarrow> u32 \<Rightarrow> bool" where
  "outside c a \<longleftrightarrow> unat a < unat (vc_video_mem_start c) \<or> unat (vc_video_mem_end c) \<le> unat a"

definition kept :: "nat \<Rightarrow> 'a console_scheme \<Rightarrow> 'a console_scheme \<Rightarrow> bool" where
  "kept i s u \<longleftrightarrow> screen_ok i u \<and> video_num_columns u = video_num_columns s \<and> video_num_lines u = video_num_lines s \<and>
     video_size_row u = video_size_row s \<and>
     vc_video_mem_start (vc_cons u i) = vc_video_mem_start (vc_cons s i) \<and>
     vc_video_mem_end (vc_cons u i) = vc_video_mem_end (vc_cons s i) \<and>
     tt_write (tty_table u i) = tt_write (tty_table s i) \<and>
     (\<forall>j. j \<noteq> i \<longrightarrow> vc_cons u j = vc_cons s j) \<and> (\<forall>a. outside (vc_cons s i) a \<longrightarrow> vmem u a = vmem s a)"

lemma kept_refl: "screen_ok i s \<Longrightarrow> kept i s s"
  by (simp add: kept_def)

lemma kept_trans: "kept i s t \<Longrightarrow> kept i t u \<Longrightarrow> kept i s u"
  by (auto simp: kept_def outside_def)

lemma kept_ok: "kept i s u \<Longrightarrow> screen_ok i u"
  by (simp add: kept_def)

text \<open>The three ways a step changes the state.\<close>

lemma kept_upd_vc:
  assumes "screen_ok i s"
    and "good (unat (video_num_columns s)) (unat (video_num_lines s)) (f (vc_cons s i))"
    and "vc_video_mem_start (f (vc_cons s i)) = vc_video_mem_start (vc_cons s i)"
    and "vc_video_mem_end (f (vc_cons s i)) = vc_video_mem_end (vc_cons s i)"
  shows "kept i s (upd_vc i f s)"
  using assms by (simp add: kept_def screen_ok_def geometry_def upd_vc_def)

lemma kept_upd_vmem:
  assumes "screen_ok i s" "\<And>a. outside (vc_cons s i) a \<Longrightarrow> f (vmem s) a = vmem s a"
  shows "kept i s (upd_vmem f s)"
  using assms by (simp add: kept_def screen_ok_def geometry_def upd_vmem_def)

lemma kept_other:
  assumes "screen_ok i s" "vmem u = vmem s" "vc_cons u = vc_cons s" "video_num_columns u = video_num_columns s"
    "video_num_lines u = video_num_lines s" "video_size_row u = video_size_row s"
    "tt_write (tty_table u i) = tt_write (tty_table s i)"
  shows "kept i s u"
  using assms by (simp add: kept_def screen_ok_def geometry_def)

lemma kept_funpow: "(\<And>s. screen_ok i s \<Longrightarrow> kept i s (f s)) \<Longrightarrow> screen_ok i s \<Longrightarrow> kept i s ((f ^^ n) s)"
  by (induction n) (auto simp: kept_refl intro: kept_trans kept_ok)

lemma kept_if: "(P \<Longrightarrow> kept i s t) \<Longrightarrow> (\<not> P \<Longrightarrow> kept i s u) \<Longrightarrow> kept i s (if P then t else u)"
  by simp

text \<open>Changes of fields that say nothing about the screen.\<close>

lemma kept_fields:
  assumes "screen_ok i s"
    and "\<And>c. vc_x (f c) = vc_x c \<and> vc_y (f c) = vc_y c \<and> vc_pos (f c) = vc_pos c \<and> vc_origin (f c) = vc_origin c \<and>
      vc_scr_end (f c) = vc_scr_end c \<and> vc_top (f c) = vc_top c \<and> vc_bottom (f c) = vc_bottom c \<and>
      vc_video_mem_start (f c) = vc_video_mem_start c \<and> vc_video_mem_end (f c) = vc_video_mem_end c"
  shows "kept i s (upd_vc i f s)"
  using assms by (intro kept_upd_vc) (simp_all add: screen_ok_def good_def)

section \<open>Writing into the memory\<close>

lemma put_word_other: "b \<noteq> a \<Longrightarrow> b \<noteq> a + 1 \<Longrightarrow> put_word a v m b = m b"
  by (simp add: put_word_def)

lemma unat_step: "unat a + k < 2 ^ 32 \<Longrightarrow> unat (a + of_nat k) = unat a + k" for a :: u32
  by (simp add: unat_word_ariths unat_of_nat)

lemma rep_stosw_up:
  assumes "unat di + 2 * n < 2 ^ 32" "unat b < unat di \<or> unat di + 2 * n \<le> unat b"
  shows "rep_stosw n v di 2 m b = m b"
  using assms
proof (induction n arbitrary: di m)
  case (Suc n)
  have u: "unat (di + 2) = unat di + 2" "unat (di + 1) = unat di + 1"
    using Suc.prems(1) unat_step [of di 2] unat_step [of di 1] by simp_all
  with Suc.prems have "b \<noteq> di" "b \<noteq> di + 1"
    by auto
  moreover have "unat (di + 2) + 2 * n < 2 ^ 32" "unat b < unat (di + 2) \<or> unat (di + 2) + 2 * n \<le> unat b"
    using Suc.prems u(1) by auto
  ultimately show ?case
    using Suc.IH [of "di + 2"] by (simp add: put_word_other)
qed simp

lemma rep_stosw_down:
  assumes "unat di + 2 < 2 ^ 32" "2 * n \<le> unat di + 2" "unat b + 2 * n < unat di + 2 \<or> unat di + 2 \<le> unat b"
  shows "rep_stosw n v di (- 2) m b = m b"
  using assms
proof (induction n arbitrary: di m)
  case (Suc n)
  have d1: "unat (di + 1) = unat di + 1"
    using Suc.prems(1) unat_step [of di 1] by simp
  with Suc.prems have b: "b \<noteq> di" "b \<noteq> di + 1"
    by auto
  show ?case
  proof (cases n)
    case 0
    with b show ?thesis
      by (simp add: put_word_other)
  next
    case (Suc j)
    with Suc.prems(2) have "2 \<le> unat di"
      by simp
    then have "unat (di - 2) = unat di - 2"
      using unat_sub_le [of 2 di] by simp
    moreover have "unat (di - 2) + 2 < 2 ^ 32" "2 * n \<le> unat (di - 2) + 2"
        "unat b + 2 * n < unat (di - 2) + 2 \<or> unat (di - 2) + 2 \<le> unat b"
      using Suc.prems \<open>2 \<le> unat di\<close> calculation by auto
    ultimately show ?thesis
      using Suc.IH [of "di - 2"] b by (simp add: put_word_other)
  qed
qed simp

lemma rep_movsl_up:
  assumes "unat di + 4 * n < 2 ^ 32" "unat b < unat di \<or> unat di + 4 * n \<le> unat b"
  shows "rep_movsl n si di 4 m b = m b"
  using assms
proof (induction n arbitrary: si di m)
  case (Suc n)
  have u: "unat (di + 4) = unat di + 4" "unat (di + 1) = unat di + 1" "unat (di + 2) = unat di + 2" "unat (di + 3) = unat di + 3"
    using Suc.prems(1) unat_step [of di 4] unat_step [of di 1] unat_step [of di 2] unat_step [of di 3] by simp_all
  with Suc.prems have "b \<noteq> di" "b \<noteq> di + 1" "b \<noteq> di + 2" "b \<noteq> di + 3"
    by auto
  moreover have "unat (di + 4) + 4 * n < 2 ^ 32" "unat b < unat (di + 4) \<or> unat (di + 4) + 4 * n \<le> unat b"
    using Suc.prems u(1) by auto
  ultimately show ?case
    using Suc.IH [of "di + 4"] by simp
qed simp

lemma rep_movsl_down:
  assumes "unat di + 4 < 2 ^ 32" "4 * n \<le> unat di + 4" "unat b + 4 * n < unat di + 4 \<or> unat di + 4 \<le> unat b"
  shows "rep_movsl n si di (- 4) m b = m b"
  using assms
proof (induction n arbitrary: si di m)
  case (Suc n)
  have u: "unat (di + 1) = unat di + 1" "unat (di + 2) = unat di + 2" "unat (di + 3) = unat di + 3"
    using Suc.prems(1) unat_step [of di 1] unat_step [of di 2] unat_step [of di 3] by simp_all
  with Suc.prems have b: "b \<noteq> di" "b \<noteq> di + 1" "b \<noteq> di + 2" "b \<noteq> di + 3"
    by auto
  show ?case
  proof (cases n)
    case 0
    with b show ?thesis
      by simp
  next
    case (Suc j)
    with Suc.prems(2) have "4 \<le> unat di"
      by simp
    then have "unat (di - 4) = unat di - 4"
      using unat_sub_le [of 4 di] by simp
    moreover have "unat (di - 4) + 4 < 2 ^ 32" "4 * n \<le> unat (di - 4) + 4"
        "unat b + 4 * n < unat (di - 4) + 4 \<or> unat (di - 4) + 4 \<le> unat b"
      using Suc.prems \<open>4 \<le> unat di\<close> calculation by auto
    ultimately show ?thesis
      using Suc.IH [of "di - 4"] b by simp
  qed
qed simp

section \<open>Moving the cursor\<close>

lemma screen_okD:
  assumes "screen_ok i s"
  shows "8 \<le> unat (video_num_columns s)" "unat (video_size_row s) = 2 * unat (video_num_columns s)"
    "good (unat (video_num_columns s)) (unat (video_num_lines s)) (vc_cons s i)"
  using assms by (simp_all add: screen_ok_def geometry_def)

lemma good_cursor:
  assumes "good C L c" "unat x \<le> C" "unat y < L" "unat p = unat (vc_origin c) + unat y * (2 * C) + 2 * unat x"
  shows "good C L (c\<lparr>vc_x := x, vc_y := y, vc_pos := p\<rparr>)"
  using assms by (simp add: good_def)

lemma unat_cell:
  assumes "good C L c" "8 \<le> C" "unat row = 2 * C" "unat x \<le> C" "unat y < L"
  shows "unat (vc_origin c + y * row + shl1 x) = unat (vc_origin c) + unat y * (2 * C) + 2 * unat x"
proof -
  note b = good_bounds [OF assms(1,2)] cell_bound [OF assms(5,4)]
  have "unat y * (2 * C) < 2 ^ 31"
    using b(2,8) by (meson add_leD1 le_less_trans)
  then have y: "unat (y * row) = unat y * (2 * C)"
    using assms(3) unat_mul [of y row] by simp
  have x: "unat (shl1 x) = 2 * unat x"
    using b assms(4) by (intro unat_shl1) simp
  have "unat (vc_origin c + y * row) = unat (vc_origin c) + unat y * (2 * C)"
    using b y unat_add [of "vc_origin c" "y * row"] by simp
  with b x y show ?thesis
    using unat_add [of "vc_origin c + y * row" "shl1 x"] by simp
qed

lemma kept_gotoxy: "screen_ok i s \<Longrightarrow> kept i s (gotoxy i x y s)"
proof (cases "x > video_num_columns s \<or> y \<ge> video_num_lines s")
  case False
  assume s: "screen_ok i s"
  let ?c = "vc_cons s i"
  have xy: "unat x \<le> unat (video_num_columns s)" "unat y < unat (video_num_lines s)"
    using False by (simp_all add: not_less not_le word_le_nat_alt word_less_nat_alt)
  have "good (unat (video_num_columns s)) (unat (video_num_lines s))
      (?c\<lparr>vc_x := x, vc_y := y, vc_pos := vc_origin ?c + y * video_size_row s + shl1 x\<rparr>)"
    using screen_okD [OF s] xy by (intro good_cursor unat_cell) simp_all
  then show ?thesis
    using False s by (simp add: gotoxy_def kept_upd_vc)
qed (simp add: gotoxy_def kept_refl)

text \<open>The cursor moves by a distance that leaves it on the screen.\<close>

lemma kept_cr: "screen_ok i s \<Longrightarrow> kept i s (cr i s)"
proof -
  assume s: "screen_ok i s"
  note d = screen_okD [OF s]
  let ?c = "vc_cons s i"
  have "unat (shl1 (vc_x ?c)) = 2 * unat (vc_x ?c)"
    using d good_bounds [OF d(3,1)] by (intro unat_shl1) (simp add: good_def)
  then have "unat (vc_pos ?c - shl1 (vc_x ?c)) = unat (vc_origin ?c) + unat (vc_y ?c) * (2 * unat (video_num_columns s))"
    using d(3) unat_sub_le [of "shl1 (vc_x ?c)" "vc_pos ?c"] by (simp add: good_def)
  with d(3) show ?thesis
    unfolding cr_def by (intro kept_upd_vc [OF s]) (simp_all add: good_def)
qed

lemma pos_left:
  assumes "good C L c" "8 \<le> C" "vc_x c \<noteq> 0"
  shows "good C L (c\<lparr>vc_x := vc_x c - 1, vc_pos := vc_pos c - 2\<rparr>)" "unat (vc_pos c - 2) = unat (vc_pos c) - 2"
    "unat (vc_x c - 1) + 1 = unat (vc_x c)"
proof -
  have x: "1 \<le> unat (vc_x c)"
    using assms(3) by (simp add: Suc_le_eq unat_gt_0)
  then show u: "unat (vc_x c - 1) + 1 = unat (vc_x c)"
    using unat_sub_le [of 1 "vc_x c"] by simp
  show p: "unat (vc_pos c - 2) = unat (vc_pos c) - 2"
    using x assms(1) unat_sub_le [of 2 "vc_pos c"] by (simp add: good_def)
  show "good C L (c\<lparr>vc_x := vc_x c - 1, vc_pos := vc_pos c - 2\<rparr>)"
    using assms(1) u p x by (auto simp: good_def)
qed

lemma kept_del: "screen_ok i s \<Longrightarrow> kept i s (del i s)"
proof (cases "vc_x (vc_cons s i) \<noteq> 0")
  case True
  assume s: "screen_ok i s"
  note d = screen_okD [OF s]
  let ?c = "vc_cons s i" and ?f = "\<lambda>c. c\<lparr>vc_pos := vc_pos c - 2, vc_x := vc_x c - 1\<rparr>"
  let ?s1 = "upd_vc i ?f s"
  have s1: "kept i s ?s1"
    using pos_left [OF d(3,1) True] by (intro kept_upd_vc [OF s]) (simp_all add: good_def)
  let ?p = "vc_pos (vc_cons ?s1 i)"
  have c1: "?p = vc_pos ?c - 2"
    by (simp add: upd_vc_def)
  have g: "2 \<le> unat (vc_pos ?c)" "unat (vc_video_mem_start ?c) + 2 \<le> unat (vc_pos ?c)" "unat (vc_pos ?c) \<le> unat (vc_video_mem_end ?c)"
    "unat (vc_video_mem_end ?c) < 2 ^ 31"
    using d(3) True good_bounds(1) [OF d(3,1)] pos_left(3) [OF d(3,1) True] by (auto simp: good_def)
  have p: "unat ?p = unat (vc_pos ?c) - 2" "unat (?p + 1) = unat (vc_pos ?c) - 1"
    using pos_left(2) [OF d(3,1) True] g unat_step [of ?p 1] c1 by simp_all
  have "kept i ?s1 (upd_vmem (put_word ?p (vc_video_erase_char (vc_cons ?s1 i))) ?s1)"
  proof (rule kept_upd_vmem [OF kept_ok [OF s1]])
    fix a assume "outside (vc_cons ?s1 i) a"
    then have "outside ?c a"
      by (simp add: outside_def upd_vc_def)
    then have "a \<noteq> ?p" "a \<noteq> ?p + 1"
      using g p by (auto simp: outside_def)
    then show "put_word ?p (vc_video_erase_char (vc_cons ?s1 i)) (vmem ?s1) a = vmem ?s1 a"
      by (rule put_word_other)
  qed
  with True s1 show ?thesis
    unfolding del_def Let_def by (simp add: kept_trans)
qed (simp add: del_def kept_refl)

section \<open>Filling and shifting\<close>

lemma kept_fill:
  assumes "screen_ok i s" "unat (vc_video_mem_start (vc_cons s i)) \<le> unat a"
    "unat a + 2 * unat n \<le> unat (vc_video_mem_end (vc_cons s i))"
  shows "kept i s (erase_words i n a s)"
  unfolding erase_words_def
proof (rule kept_upd_vmem [OF assms(1)])
  fix b assume "outside (vc_cons s i) b"
  with assms screen_okD(3) [OF assms(1)] show "rep_stosw (unat n) (vc_video_erase_char (vc_cons s i)) a 2 (vmem s) b = vmem s b"
    by (intro rep_stosw_up) (auto simp: outside_def good_def)
qed

lemma kept_csi_J: "screen_ok i s \<Longrightarrow> kept i s (csi_J i v s)"
proof -
  assume s: "screen_ok i s"
  note d = screen_okD [OF s]
  let ?c = "vc_cons s i" and ?C = "unat (video_num_columns s)" and ?L = "unat (video_num_lines s)"
  note b = good_bounds [OF d(3,1)]
  have o: "unat (vc_origin ?c) \<le> unat (vc_pos ?c)" "unat (vc_video_mem_start ?c) \<le> unat (vc_origin ?c)"
    "unat (vc_scr_end ?c) \<le> unat (vc_video_mem_end ?c)" "unat (vc_scr_end ?c) = unat (vc_origin ?c) + ?L * (2 * ?C)"
    using d(3) by (simp_all add: good_def)
  have n: "2 * unat (drop_bit 1 (vc_scr_end ?c - vc_pos ?c)) \<le> unat (vc_scr_end ?c) - unat (vc_pos ?c)"
    "2 * unat (drop_bit 1 (vc_pos ?c - vc_origin ?c)) \<le> unat (vc_pos ?c) - unat (vc_origin ?c)"
    using b o by (simp_all add: unat_shr1 unat_sub_le)
  have "?C * ?L < 2 ^ 32"
    using b(2) by (simp add: mult.commute)
  then have m: "2 * unat (video_num_columns s * video_num_lines s) = ?L * (2 * ?C)"
    by (simp add: unat_mul)
  show ?thesis
    using n m b o by (auto simp: csi_J_def Let_def kept_refl [OF s] intro!: kept_fill [OF s])
qed

lemma kept_csi_K: "screen_ok i s \<Longrightarrow> kept i s (csi_K i v s)"
proof -
  assume s: "screen_ok i s"
  note d = screen_okD [OF s]
  let ?c = "vc_cons s i" and ?C = "unat (video_num_columns s)"
  note b = good_bounds [OF d(3,1)]
  have o: "unat (vc_origin ?c) \<le> unat (vc_pos ?c)" "unat (vc_video_mem_start ?c) \<le> unat (vc_origin ?c)"
    "unat (vc_scr_end ?c) \<le> unat (vc_video_mem_end ?c)" "unat (vc_x ?c) \<le> ?C"
    "unat (vc_pos ?c) = unat (vc_origin ?c) + unat (vc_y ?c) * (2 * ?C) + 2 * unat (vc_x ?c)"
    using d(3) by (simp_all add: good_def)
  have "unat (shl1 (vc_x ?c)) = 2 * unat (vc_x ?c)"
    using o b by (intro unat_shl1) simp
  then have start: "unat (vc_pos ?c - shl1 (vc_x ?c)) = unat (vc_origin ?c) + unat (vc_y ?c) * (2 * ?C)"
    using o unat_sub_le [of "shl1 (vc_x ?c)" "vc_pos ?c"] by simp
  have n: "unat (video_num_columns s - vc_x ?c) = ?C - unat (vc_x ?c)"
    using o by (intro unat_sub_le)
  have m: "unat (if vc_x ?c < video_num_columns s then vc_x ?c else video_num_columns s) \<le> ?C"
    using o by simp
  show ?thesis
    using n m b o start by (auto simp: csi_K_def Let_def kept_refl [OF s] intro!: kept_fill [OF s])
qed

section \<open>Scrolling\<close>

lemma unat_line:
  assumes "good C L c" "8 \<le> C" "unat row = 2 * C" "unat y \<le> L"
  shows "unat (vc_origin c + row * y) = unat (vc_origin c) + 2 * C * unat y"
    "unat (vc_origin c) + 2 * C * unat y \<le> unat (vc_scr_end c)"
proof -
  note b = good_bounds [OF assms(1,2)]
  have y: "2 * C * unat y \<le> L * (2 * C)"
    using mult_le_mono2 [OF assms(4), of "2 * C"] by (simp add: mult.commute)
  have "2 * C * unat y < 2 ^ 31"
    by (rule le_less_trans [OF y b(2)])
  then have "unat (row * y) = 2 * C * unat y"
    using assms(3) by (simp add: unat_mul)
  moreover have "unat (vc_origin c) + 2 * C * unat y < 2 ^ 31"
    using le_less_trans [OF add_left_mono [OF y] b(6)] .
  ultimately show "unat (vc_origin c + row * y) = unat (vc_origin c) + 2 * C * unat y"
    by (subst unat_add) simp_all
  show "unat (vc_origin c) + 2 * C * unat y \<le> unat (vc_scr_end c)"
    using y assms(1) by (simp add: good_def)
qed

lemma half_screen_le:
  assumes "screen_ok i s" "unat t < unat b" "unat b \<le> unat (video_num_lines s)"
  shows "4 * half_screen t b s + 2 * unat (video_num_columns s) * (unat t + 1) \<le> 2 * unat (video_num_columns s) * unat b"
proof -
  let ?C = "unat (video_num_columns s)"
  note d = screen_okD [OF assms(1)]
  note bd = good_bounds [OF d(3,1)]
  have "unat (b - t - 1) = unat b - unat t - 1"
    using assms(2) unat_sub_le [of t b] unat_sub_le [of 1 "b - t"] by simp
  moreover have le: "(unat b - unat t - 1) * ?C \<le> unat (video_num_lines s) * (2 * ?C)"
    using assms(3) by (intro mult_le_mono) simp_all
  moreover have "(unat b - unat t - 1) * ?C < 2 ^ 31"
    by (rule le_less_trans [OF le bd(2)])
  ultimately have "unat ((b - t - 1) * video_num_columns s) = (unat b - unat t - 1) * ?C"
    by (subst unat_mul) simp_all
  moreover have "4 * (k div 2) \<le> 2 * k" for k :: nat
    by simp
  ultimately have "4 * half_screen t b s \<le> 2 * ((unat b - unat t - 1) * ?C)"
    by (metis half_screen_def One_nat_def unat_shr1)
  moreover have "2 * ((unat b - unat t - 1) * ?C) + 2 * ?C * (unat t + 1) = 2 * ?C * unat b"
  proof -
    have "unat b = (unat b - unat t - 1) + (unat t + 1)"
      using assms(2) by simp
    then show ?thesis
      by (metis (no_types, lifting) add_mult_distrib2 mult.assoc mult.commute)
  qed
  ultimately show ?thesis
    by linarith
qed

lemma kept_copy_up:
  assumes s: "screen_ok i s" and tb: "unat t < unat b" "unat b \<le> unat (video_num_lines s)"
  shows "kept i s (copy_up i t b s)"
proof -
  let ?c = "vc_cons s i" and ?C = "unat (video_num_columns s)" and ?n = "half_screen t b s"
  let ?D = "vc_origin ?c + video_size_row s * t"
  note d = screen_okD [OF s]
  have D: "unat ?D = unat (vc_origin ?c) + 2 * ?C * unat t"
    using tb unat_line(1) [OF d(3,1,2), of t] by simp
  have n: "unat ?D + 4 * ?n + 2 * ?C \<le> unat (vc_scr_end ?c)"
    using D half_screen_le [OF s tb] unat_line(2) [OF d(3,1,2), of b] tb by (simp add: add_mult_distrib2)
  have w: "unat (vc_scr_end ?c) \<le> unat (vc_video_mem_end ?c)" "unat (vc_video_mem_end ?c) < 2 ^ 31"
    "unat (vc_video_mem_start ?c) \<le> unat ?D"
    using d(3) D by (simp_all add: good_def)
  have F: "unat (?D + 4 * of_nat ?n) = unat ?D + 4 * ?n"
    using unat_step [of ?D "4 * ?n"] n w by simp
  show ?thesis
    unfolding copy_up_def Let_def
  proof (rule kept_upd_vmem [OF s])
    fix a assume "outside ?c a"
    then have a: "unat a < unat ?D \<or> unat ?D + 4 * ?n + 2 * ?C \<le> unat a"
      using w n by (auto simp: outside_def)
    show "rep_stosw ?C (vc_video_erase_char ?c) (?D + 4 * of_nat ?n) 2
        (rep_movsl ?n (vc_origin ?c + video_size_row s * (t + 1)) ?D 4 (vmem s)) a = vmem s a"
      using a n w F by (subst rep_stosw_up) (auto intro!: rep_movsl_up)
  qed
qed

lemma kept_copy_down:
  assumes s: "screen_ok i s" and tb: "unat t < unat b" "unat b \<le> unat (video_num_lines s)"
  shows "kept i s (copy_down i t b s)"
proof -
  let ?c = "vc_cons s i" and ?C = "unat (video_num_columns s)" and ?n = "half_screen t b s"
  let ?E = "unat (vc_origin ?c) + 2 * ?C * unat b" and ?D = "vc_origin ?c + video_size_row s * b - 4"
  note d = screen_okD [OF s]
  have n: "4 * ?n + 2 * ?C \<le> 2 * ?C * unat b"
    using half_screen_le [OF s tb] by (simp add: add_mult_distrib2)
  have w: "unat (vc_scr_end ?c) \<le> unat (vc_video_mem_end ?c)" "unat (vc_video_mem_end ?c) < 2 ^ 31"
    "unat (vc_video_mem_start ?c) \<le> unat (vc_origin ?c)" "?E \<le> unat (vc_scr_end ?c)"
    using d(3) unat_line(2) [OF d(3,1,2), of b] tb by (simp_all add: good_def)
  have D: "unat ?D = ?E - 4"
    using n d(1) tb unat_line(1) [OF d(3,1,2), of b] unat_sub_le [of 4 "vc_origin ?c + video_size_row s * b"] by simp
  have "4 * ?n < 2 ^ 32"
    using n w by simp
  then have N: "unat (4 * of_nat ?n :: u32) = 4 * ?n"
    using unat_step [of 0 "4 * ?n"] by simp
  then have "unat (?D - 4 * of_nat ?n) = ?E - 4 - 4 * ?n"
    using D n d(1) unat_sub_le [of "4 * of_nat ?n" ?D] by simp
  then have F: "unat (?D - 4 * of_nat ?n + 2) + 2 = ?E - 4 * ?n"
    using n d(1) w unat_step [of "?D - 4 * of_nat ?n" 2] by simp
  show ?thesis
    unfolding copy_down_def Let_def
  proof (rule kept_upd_vmem [OF s])
    fix a assume "outside ?c a"
    then have a: "unat a < unat (vc_origin ?c) \<or> ?E \<le> unat a"
      using w by (auto simp: outside_def)
    have "rep_stosw ?C (vc_video_erase_char ?c) (?D - 4 * of_nat ?n + 2) (- 2) m a = m a" for m
      using a n w F by (intro rep_stosw_down) auto
    moreover have "rep_movsl ?n S ?D (- 4) (vmem s) a = vmem s a" for S
      using a n w D d(1) by (intro rep_movsl_down) auto
    ultimately show "rep_stosw ?C (vc_video_erase_char ?c) (?D - 4 * of_nat ?n + 2) (- 2)
        (rep_movsl ?n (vc_origin ?c + video_size_row s * (b - 1) - 4) ?D (- 4) (vmem s)) a = vmem s a"
      by simp
  qed
qed

lemma upd_vc_vmem: "upd_vmem f (upd_vc i h s) = upd_vc i h (upd_vmem f s)"
  by (simp add: upd_vmem_def upd_vc_def)

lemma upd_vc_twice: "upd_vc i g (upd_vc i h s) = upd_vc i (\<lambda>c. g (h c)) s"
  by (simp add: upd_vc_def)

lemma vc_cons_upd [simp]: "vc_cons (upd_vc i f s) i = f (vc_cons s i)" "vc_cons (upd_vmem h s) = vc_cons s"
  "video_num_columns (upd_vc i f s) = video_num_columns s" "video_num_lines (upd_vc i f s) = video_num_lines s"
  "video_size_row (upd_vc i f s) = video_size_row s" "video_num_columns (upd_vmem h s) = video_num_columns s"
  "video_num_lines (upd_vmem h s) = video_num_lines s" "video_size_row (upd_vmem h s) = video_size_row s"
  "vmem (upd_vc i f s) = vmem s" "vmem (upd_vmem h s) = h (vmem s)"
  by (simp_all add: upd_vc_def upd_vmem_def)

lemma kept_vmem_vc:
  assumes "screen_ok i s" "\<And>a. outside (vc_cons s i) a \<Longrightarrow> f (vmem s) a = vmem s a"
    and "good (unat (video_num_columns s)) (unat (video_num_lines s)) (g (vc_cons s i))"
    and "vc_video_mem_start (g (vc_cons s i)) = vc_video_mem_start (vc_cons s i)"
    and "vc_video_mem_end (g (vc_cons s i)) = vc_video_mem_end (vc_cons s i)"
  shows "kept i s (upd_vc i g (upd_vmem f s))"
proof -
  have k: "kept i s (upd_vmem f s)"
    by (rule kept_upd_vmem [OF assms(1)]) (rule assms(2))
  show ?thesis
    by (rule kept_trans [OF k kept_upd_vc [OF kept_ok [OF k]]]) (use assms(3-5) in simp_all)
qed

lemma kept_move_origin:
  assumes s: "screen_ok i s"
  shows "kept i s (move_origin i s)"
proof -
  let ?c = "vc_cons s i" and ?C = "unat (video_num_columns s)" and ?L = "unat (video_num_lines s)" and ?row = "video_size_row s"
  note d = screen_okD [OF s]
  note b = good_bounds [OF d(3,1)]
  let ?h = "\<lambda>c. c\<lparr>vc_origin := vc_origin c + ?row, vc_pos := vc_pos c + ?row, vc_scr_end := vc_scr_end c + ?row\<rparr>"
  have g: "unat (vc_scr_end ?c) \<le> unat (vc_video_mem_end ?c)" "unat (vc_video_mem_end ?c) < 2 ^ 31"
    "unat (vc_video_mem_start ?c) \<le> unat (vc_origin ?c)" "unat (vc_scr_end ?c) = unat (vc_origin ?c) + ?L * (2 * ?C)"
    "unat (vc_pos ?c) = unat (vc_origin ?c) + unat (vc_y ?c) * (2 * ?C) + 2 * unat (vc_x ?c)" "2 * ?C \<le> ?L * (2 * ?C)"
    using d(3) by (auto simp: good_def)
  have u: "unat (vc_origin ?c + ?row) = unat (vc_origin ?c) + 2 * ?C" "unat (vc_pos ?c + ?row) = unat (vc_pos ?c) + 2 * ?C"
    "unat (vc_scr_end ?c + ?row) = unat (vc_scr_end ?c) + 2 * ?C"
    using b g d(2) by (simp_all add: unat_add)
  show ?thesis
  proof (cases "vc_scr_end ?c + ?row > vc_video_mem_end ?c")
    case True
    define n where "n = unat (drop_bit 1 ((video_num_lines s - 1) * video_num_columns s))"
    let ?start = "vc_video_mem_start ?c"
    let ?f = "\<lambda>m. rep_stosw ?C (vc_video_erase_char ?c) (?start + 4 * of_nat n) 2 (rep_movsl n (vc_origin ?c + ?row) ?start 4 m)"
    let ?g = "\<lambda>c. c\<lparr>vc_scr_end := vc_scr_end c - (vc_origin c - ?start), vc_pos := vc_pos c - (vc_origin c - ?start), vc_origin := ?start\<rparr>"
    have "half_screen 0 (video_num_lines s) s = n"
      by (simp add: half_screen_def n_def)
    then have n: "4 * n + 2 * ?C \<le> ?L * (2 * ?C)"
      using half_screen_le [OF s, of 0 "video_num_lines s"] d(3) by (simp add: good_def mult.commute)
    have move: "move_origin i s = upd_vc i (\<lambda>c. ?g (?h c)) (upd_vmem ?f s)"
      using True by (simp add: move_origin_def Let_def n_def upd_vc_vmem upd_vc_twice)
    have F: "unat (?start + 4 * of_nat n) = unat ?start + 4 * n"
      using unat_step [of ?start "4 * n"] n b g by simp
    have frame: "?f (vmem s) a = vmem s a" if "outside ?c a" for a
    proof -
      have a: "unat a < unat ?start \<or> unat ?start + 4 * n + 2 * ?C \<le> unat a"
        using that n g by (auto simp: outside_def)
      then show ?thesis
        using n F b g by (subst rep_stosw_up) (auto intro!: rep_movsl_up)
    qed
    have "vc_scr_end ?c + ?row - (vc_origin ?c + ?row - ?start) = (vc_scr_end ?c - vc_origin ?c) + ?start"
      "vc_pos ?c + ?row - (vc_origin ?c + ?row - ?start) = (vc_pos ?c - vc_origin ?c) + ?start"
      by simp_all
    moreover have "unat (vc_scr_end ?c - vc_origin ?c) = ?L * (2 * ?C)"
      "unat (vc_pos ?c - vc_origin ?c) = unat (vc_y ?c) * (2 * ?C) + 2 * unat (vc_x ?c)"
      using g by (simp_all add: unat_sub_le)
    moreover from this have "unat ((vc_scr_end ?c - vc_origin ?c) + ?start) = ?L * (2 * ?C) + unat ?start"
      "unat ((vc_pos ?c - vc_origin ?c) + ?start) = unat (vc_y ?c) * (2 * ?C) + 2 * unat (vc_x ?c) + unat ?start"
      using b g by (subst unat_add; simp)+
    ultimately have "unat (vc_scr_end ?c + ?row - (vc_origin ?c + ?row - ?start)) = unat ?start + ?L * (2 * ?C)"
      "unat (vc_pos ?c + ?row - (vc_origin ?c + ?row - ?start)) = unat ?start + unat (vc_y ?c) * (2 * ?C) + 2 * unat (vc_x ?c)"
      by (simp_all only: add_ac)
    then have "good ?C ?L (?g (?h ?c))"
      using d(3) g by (simp add: good_def)
    with frame show ?thesis
      unfolding move by (intro kept_vmem_vc [OF s]) simp_all
  next
    case False
    let ?f = "rep_stosw ?C (vc_video_erase_char ?c) (vc_scr_end ?c + ?row - ?row) 2"
    have move: "move_origin i s = upd_vc i ?h (upd_vmem ?f s)"
      using False by (simp add: move_origin_def Let_def upd_vc_vmem)
    have e: "unat (vc_scr_end ?c) + 2 * ?C \<le> unat (vc_video_mem_end ?c)"
      using False u(3) by (simp add: not_less word_le_nat_alt)
    have "?f (vmem s) a = vmem s a" if "outside ?c a" for a
      using that e g by (intro rep_stosw_up) (auto simp: outside_def)
    moreover have "good ?C ?L (?h ?c)"
      using d(3) u e by (simp add: good_def)
    ultimately show ?thesis
      unfolding move by (intro kept_vmem_vc [OF s]) simp_all
  qed
qed

lemma kept_out_offset: "screen_ok i s \<Longrightarrow> kept i s (out_offset r off s)"
  by (rule kept_other) (simp_all add: out_offset_def outb_def)

lemma kept_set_origin: "screen_ok i s \<Longrightarrow> kept i s (set_origin j s)"
  by (simp add: set_origin_def kept_refl kept_out_offset)

lemma kept_set_cursor: "screen_ok i s \<Longrightarrow> kept i s (set_cursor j s)"
  by (simp add: set_cursor_def kept_refl kept_out_offset)

lemma scroll_region_ok:
  assumes "screen_ok i s" "scroll_region i s = (t, b)" "\<not> b \<le> t"
  shows "unat t < unat b" "unat b \<le> unat (video_num_lines s)"
proof -
  show "unat t < unat b"
    using assms(3) by (simp add: not_le word_less_nat_alt)
  have "b \<le> video_num_lines s"
    using assms(2) by (auto simp: scroll_region_def Let_def split: prod.splits if_splits)
  then show "unat b \<le> unat (video_num_lines s)"
    by (simp add: word_le_nat_alt)
qed

lemma kept_scrup: "screen_ok i s \<Longrightarrow> kept i s (scrup i s)"
proof -
  assume s: "screen_ok i s"
  obtain t b where tb: "scroll_region i s = (t, b)"
    by fastforce
  show ?thesis
    using scroll_region_ok [OF s tb] kept_refl [OF s] kept_copy_up [OF s]
      kept_trans [OF kept_move_origin [OF s] kept_set_origin [OF kept_ok [OF kept_move_origin [OF s]]]]
    by (simp add: scrup_def tb)
qed

lemma kept_scrdown: "screen_ok i s \<Longrightarrow> kept i s (scrdown i s)"
proof -
  assume s: "screen_ok i s"
  obtain t b where tb: "scroll_region i s = (t, b)"
    by fastforce
  show ?thesis
    using scroll_region_ok [OF s tb] kept_refl [OF s] kept_copy_down [OF s] by (simp add: scrdown_def tb)
qed

lemma kept_lf: "screen_ok i s \<Longrightarrow> kept i s (lf i s)"
proof (cases "vc_y (vc_cons s i) + 1 < vc_bottom (vc_cons s i)")
  case True
  assume s: "screen_ok i s"
  let ?c = "vc_cons s i"
  note d = screen_okD [OF s]
  note b = good_bounds [OF d(3,1)]
  have g: "unat (vc_y ?c) < unat (video_num_lines s)" "unat (vc_bottom ?c) \<le> unat (video_num_lines s)"
    using d(3) by (simp_all add: good_def)
  have y: "unat (vc_y ?c + 1) = unat (vc_y ?c) + 1"
    using g b(4) unat_step [of "vc_y ?c" 1] by simp
  have p: "unat (vc_pos ?c + video_size_row s) = unat (vc_pos ?c) + 2 * unat (video_num_columns s)"
    using b d(2,3) by (simp add: unat_add good_def)
  have "good (unat (video_num_columns s)) (unat (video_num_lines s))
      (?c\<lparr>vc_y := vc_y ?c + 1, vc_pos := vc_pos ?c + video_size_row s\<rparr>)"
    using d(3) True y p g by (simp add: good_def word_less_nat_alt)
  with True show ?thesis
    by (simp add: lf_def Let_def kept_upd_vc [OF s])
qed (simp add: lf_def kept_scrup)

lemma kept_ri: "screen_ok i s \<Longrightarrow> kept i s (ri i s)"
proof (cases "vc_y (vc_cons s i) > vc_top (vc_cons s i)")
  case True
  assume s: "screen_ok i s"
  let ?c = "vc_cons s i" and ?C = "unat (video_num_columns s)"
  note d = screen_okD [OF s]
  have "unat (vc_y ?c) \<ge> 1"
    using True by (simp add: word_less_nat_alt)
  then obtain k where k: "unat (vc_y ?c) = k + 1" "unat (vc_y ?c - 1) = k"
    using unat_sub_le [of 1 "vc_y ?c"] by (metis add.commute le_add_diff_inverse unat_1)
  have p: "unat (vc_pos ?c - video_size_row s) = unat (vc_pos ?c) - 2 * ?C"
    using d k(1) by (intro unat_sub_le [THEN trans]) (simp_all add: good_def)
  have "good ?C (unat (video_num_lines s)) (?c\<lparr>vc_y := vc_y ?c - 1, vc_pos := vc_pos ?c - video_size_row s\<rparr>)"
    using d(3) p k by (simp add: good_def)
  with True show ?thesis
    by (simp add: ri_def Let_def kept_upd_vc [OF s])
qed (simp add: ri_def kept_scrdown)

section \<open>Inserting and deleting\<close>

lemma shift_right_frame:
  assumes "unat p + 2 * n < 2 ^ 32" "unat b < unat p \<or> unat p + 2 * n \<le> unat b"
  shows "shift_right n p old m b = m b"
  using assms
proof (induction n arbitrary: p old m)
  case (Suc n)
  have u: "unat (p + 2) = unat p + 2" "unat (p + 1) = unat p + 1"
    using Suc.prems(1) unat_step [of p 2] unat_step [of p 1] by simp_all
  with Suc.prems have "b \<noteq> p" "b \<noteq> p + 1"
    by auto
  moreover have "unat (p + 2) + 2 * n < 2 ^ 32" "unat b < unat (p + 2) \<or> unat (p + 2) + 2 * n \<le> unat b"
    using Suc.prems u(1) by auto
  ultimately show ?case
    using Suc.IH [of "p + 2"] by (simp add: put_word_other)
qed simp

lemma shift_left_frame:
  assumes "unat p + 2 * n + 2 < 2 ^ 32" "unat b < unat p \<or> unat p + 2 * n + 2 \<le> unat b"
  shows "shift_left n p e m b = m b"
  using assms
proof (induction n arbitrary: p m)
  case 0
  moreover have "unat (p + 1) = unat p + 1"
    using 0 unat_step [of p 1] by simp
  ultimately have "b \<noteq> p" "b \<noteq> p + 1"
    by auto
  then show ?case
    by (simp add: put_word_other)
next
  case (Suc n)
  have u: "unat (p + 2) = unat p + 2" "unat (p + 1) = unat p + 1"
    using Suc.prems(1) unat_step [of p 2] unat_step [of p 1] by simp_all
  with Suc.prems have "b \<noteq> p" "b \<noteq> p + 1"
    by auto
  moreover have "unat (p + 2) + 2 * n + 2 < 2 ^ 32" "unat b < unat (p + 2) \<or> unat (p + 2) + 2 * n + 2 \<le> unat b"
    using Suc.prems u(1) by auto
  ultimately show ?case
    using Suc.IH [of "p + 2"] by (simp add: put_word_other)
qed

lemma line_room:
  assumes "screen_ok i s"
  shows "unat (vc_pos (vc_cons s i)) + 2 * (unat (video_num_columns s) - unat (vc_x (vc_cons s i))) \<le>
      unat (vc_video_mem_end (vc_cons s i))" "unat (vc_video_mem_end (vc_cons s i)) < 2 ^ 31"
    "unat (vc_video_mem_start (vc_cons s i)) \<le> unat (vc_pos (vc_cons s i))"
proof -
  note d = screen_okD [OF assms]
  have x: "unat (vc_x (vc_cons s i)) \<le> unat (video_num_columns s)" "unat (vc_scr_end (vc_cons s i)) \<le> unat (vc_video_mem_end (vc_cons s i))"
    "unat (vc_pos (vc_cons s i)) = unat (vc_origin (vc_cons s i)) + unat (vc_y (vc_cons s i)) * (2 * unat (video_num_columns s)) +
      2 * unat (vc_x (vc_cons s i))"
    using d(3) by (simp_all add: good_def)
  then show "unat (vc_pos (vc_cons s i)) + 2 * (unat (video_num_columns s) - unat (vc_x (vc_cons s i))) \<le>
      unat (vc_video_mem_end (vc_cons s i))"
    using good_bounds(7) [OF d(3,1)] by linarith
  show "unat (vc_video_mem_end (vc_cons s i)) < 2 ^ 31" "unat (vc_video_mem_start (vc_cons s i)) \<le> unat (vc_pos (vc_cons s i))"
    using d(3) by (simp_all add: good_def)
qed

lemma kept_insert_char: "screen_ok i s \<Longrightarrow> kept i s (insert_char i s)"
proof -
  assume s: "screen_ok i s"
  show ?thesis
    unfolding insert_char_def Let_def
    using line_room [OF s] by (intro kept_upd_vmem [OF s] shift_right_frame) (auto simp: outside_def)
qed

lemma kept_delete_char: "screen_ok i s \<Longrightarrow> kept i s (delete_char i s)"
proof (cases "vc_x (vc_cons s i) \<ge> video_num_columns s")
  case False
  assume s: "screen_ok i s"
  have "unat (vc_x (vc_cons s i)) < unat (video_num_columns s)"
    using False by (simp add: not_le word_less_nat_alt)
  then show ?thesis
    unfolding delete_char_def Let_def if_not_P [OF False]
    using line_room [OF s] by (intro kept_upd_vmem [OF s] shift_left_frame) (auto simp: outside_def)
qed (simp add: delete_char_def kept_refl)

lemma kept_set_region:
  assumes "screen_ok i s" "unat t < unat b" "unat b \<le> unat (video_num_lines s)"
  shows "kept i s (set_region i t b s)"
  using assms screen_okD(3) [OF assms(1)] unfolding set_region_def by (intro kept_upd_vc) (simp_all add: good_def)

text \<open>A scrolling operation on the lines from the cursor on, with the region put back.\<close>

lemma kept_in_region:
  assumes s: "screen_ok i s" and f: "\<And>s. screen_ok i s \<Longrightarrow> kept i s (f s)"
  shows "kept i s (set_region i (vc_top (vc_cons s i)) (vc_bottom (vc_cons s i))
    (f (set_region i (vc_y (vc_cons s i)) (video_num_lines s) s)))"
proof -
  have g: "good (unat (video_num_columns s)) (unat (video_num_lines s)) (vc_cons s i)"
    using screen_okD(3) [OF s] .
  let ?s1 = "set_region i (vc_y (vc_cons s i)) (video_num_lines s) s"
  have k1: "kept i s ?s1"
    using g by (intro kept_set_region [OF s]) (simp_all add: good_def)
  note k = kept_trans [OF k1 f [OF kept_ok [OF k1]]]
  then have L: "video_num_lines (f ?s1) = video_num_lines s"
    by (simp add: kept_def)
  have "kept i (f ?s1) (set_region i (vc_top (vc_cons s i)) (vc_bottom (vc_cons s i)) (f ?s1))"
    using g L by (intro kept_set_region kept_ok [OF k]) (simp_all add: good_def)
  then show ?thesis
    by (rule kept_trans [OF k])
qed

lemma kept_insert_line: "screen_ok i s \<Longrightarrow> kept i s (insert_line i s)"
  unfolding insert_line_def Let_def by (intro kept_in_region kept_scrdown)

lemma kept_delete_line: "screen_ok i s \<Longrightarrow> kept i s (delete_line i s)"
  unfolding delete_line_def Let_def by (intro kept_in_region kept_scrup)

section \<open>Printing a character\<close>

lemma kept_put_cell:
  assumes s: "screen_ok i s" and x: "vc_x (vc_cons s i) < video_num_columns s"
  shows "kept i s (put_cell i ch s)"
proof -
  let ?c = "vc_cons s i"
  note d = screen_okD [OF s]
  note b = good_bounds [OF d(3,1)]
  have lt: "unat (vc_x ?c) < unat (video_num_columns s)"
    using x by (simp add: word_less_nat_alt)
  note r = line_room [OF s]
  have u: "unat (vc_x ?c + 1) = unat (vc_x ?c) + 1" "unat (vc_pos ?c + 2) = unat (vc_pos ?c) + 2" "unat (vc_pos ?c + 1) = unat (vc_pos ?c) + 1"
    using lt b r unat_step [of "vc_x ?c" 1] unat_step [of "vc_pos ?c" 2] unat_step [of "vc_pos ?c" 1] by simp_all
  have "((vmem s)(vc_pos ?c := ch, vc_pos ?c + 1 := vc_attr ?c)) a = vmem s a" if "outside ?c a" for a
  proof -
    have "a \<noteq> vc_pos ?c" "a \<noteq> vc_pos ?c + 1"
      using that r lt u by (auto simp: outside_def)
    then show ?thesis
      by simp
  qed
  moreover have "good (unat (video_num_columns s)) (unat (video_num_lines s)) (?c\<lparr>vc_pos := vc_pos ?c + 2, vc_x := vc_x ?c + 1\<rparr>)"
    using d(3) u lt by (simp add: good_def)
  ultimately show ?thesis
    unfolding put_cell_def Let_def by (intro kept_vmem_vc [OF s]) simp_all
qed

text \<open>The cursor \<open>n\<close> columns to the right, when that is in the next line.\<close>

lemma kept_wrap:
  assumes s: "screen_ok i s" and n: "unat (video_num_columns s) \<le> unat (vc_x (vc_cons s i)) + unat n" "unat n \<le> 8"
  shows "kept i s (upd_vc i (\<lambda>c. c\<lparr>vc_x := vc_x c + n - video_num_columns s, vc_pos := vc_pos c + shl1 n - video_size_row s\<rparr>) s)"
    and "unat (vc_x (vc_cons s i) + n - video_num_columns s) = unat (vc_x (vc_cons s i)) + unat n - unat (video_num_columns s)"
proof -
  let ?c = "vc_cons s i" and ?C = "unat (video_num_columns s)"
  note d = screen_okD [OF s]
  note b = good_bounds [OF d(3,1)]
  have x: "unat (vc_x ?c) \<le> ?C" "unat (vc_pos ?c) < 2 ^ 31"
    "unat (vc_pos ?c) = unat (vc_origin ?c) + unat (vc_y ?c) * (2 * ?C) + 2 * unat (vc_x ?c)"
    using d(3) b(1) by (simp_all add: good_def)
  have "unat (vc_x ?c + n) = unat (vc_x ?c) + unat n"
    using x b n by (intro unat_add) simp
  then show X: "unat (vc_x ?c + n - video_num_columns s) = unat (vc_x ?c) + unat n - ?C"
    using n by (simp add: unat_sub_le)
  have "unat (vc_pos ?c + shl1 n) = unat (vc_pos ?c) + 2 * unat n"
    using x n unat_shl1 [of n] unat_add [of "vc_pos ?c" "shl1 n"] by simp
  then have P: "unat (vc_pos ?c + shl1 n - video_size_row s) = unat (vc_pos ?c) + 2 * unat n - 2 * ?C"
    using n d(2) x by (simp add: unat_sub_le)
  then have P': "unat (vc_pos ?c + shl1 n - video_size_row s) =
      unat (vc_origin ?c) + unat (vc_y ?c) * (2 * ?C) + 2 * (unat (vc_x ?c) + unat n - ?C)"
    using x(3) n(1) by linarith
  have "unat (vc_x ?c) + unat n - ?C \<le> ?C"
    using x(1) n(2) d(1) by simp
  then have "good ?C (unat (video_num_lines s)) (?c\<lparr>vc_x := vc_x ?c + n - video_num_columns s, vc_pos := vc_pos ?c + shl1 n - video_size_row s\<rparr>)"
    using d(3) X P' by (simp add: good_def)
  then show "kept i s (upd_vc i (\<lambda>c. c\<lparr>vc_x := vc_x c + n - video_num_columns s, vc_pos := vc_pos c + shl1 n - video_size_row s\<rparr>) s)"
    by (intro kept_upd_vc [OF s]) simp_all
qed

lemma vc_x_scrup: "vc_x (vc_cons (scrup i s) i) = vc_x (vc_cons s i)"
  by (simp add: scrup_def set_origin_def out_offset_def outb_def move_origin_def copy_up_def Let_def split: prod.split)

lemma vc_x_lf: "vc_x (vc_cons (lf i s) i) = vc_x (vc_cons s i)"
  by (simp add: lf_def Let_def vc_x_scrup)

lemma kept_wrap_line:
  assumes s: "screen_ok i s" and x: "vc_x (vc_cons s i) \<ge> video_num_columns s"
  shows "kept i s (wrap_line i s)" "vc_x (vc_cons (wrap_line i s) i) = 0"
proof -
  have X: "unat (vc_x (vc_cons s i)) = unat (video_num_columns s)"
    using x screen_okD(3) [OF s] by (simp add: good_def word_le_nat_alt)
  have "kept i s (upd_vc i (\<lambda>c. c\<lparr>vc_x := vc_x c - video_num_columns s, vc_pos := vc_pos c - video_size_row s\<rparr>) s)"
    using kept_wrap(1) [OF s, of 0] X by (simp add: shl1_def)
  then show "kept i s (wrap_line i s)"
    unfolding wrap_line_def using kept_trans kept_lf kept_ok by blast
  show "vc_x (vc_cons (wrap_line i s) i) = 0"
    using X by (simp add: wrap_line_def vc_x_lf word_unat_eq_iff unat_sub_le)
qed

lemma kept_con_tab: "screen_ok i s \<Longrightarrow> kept i s (con_tab i s)"
proof -
  assume s: "screen_ok i s"
  let ?c = "vc_cons s i" and ?C = "unat (video_num_columns s)" and ?n = "8 - (vc_x (vc_cons s i) AND 7)"
  note d = screen_okD [OF s]
  note b = good_bounds [OF d(3,1)]
  have "unat (vc_x ?c AND 7) \<le> 7"
    using word_and_le1 [of "vc_x ?c" 7] by (simp add: word_le_nat_alt)
  then have n: "unat ?n \<le> 8"
    using unat_sub_le [of "vc_x ?c AND 7" 8] by simp
  have x: "unat (vc_x ?c) \<le> ?C" "unat (vc_pos ?c) < 2 ^ 31"
    using d(3) b(1) by (simp_all add: good_def)
  have X: "unat (vc_x ?c + ?n) = unat (vc_x ?c) + unat ?n"
    using x b n by (intro unat_add) simp
  have P: "unat (vc_pos ?c + shl1 ?n) = unat (vc_pos ?c) + 2 * unat ?n"
    using x n unat_shl1 [of ?n] unat_add [of "vc_pos ?c" "shl1 ?n"] by simp
  show ?thesis
  proof (cases "vc_x ?c + ?n > video_num_columns s")
    case True
    then have "?C \<le> unat (vc_x ?c) + unat ?n"
      using X by (simp add: word_less_nat_alt)
    note w = kept_wrap(1) [OF s this n]
    have "con_tab i s = lf i (upd_vc i (\<lambda>c. c\<lparr>vc_x := vc_x c + ?n - video_num_columns s, vc_pos := vc_pos c + shl1 ?n - video_size_row s\<rparr>) s)"
      using True by (simp add: con_tab_def Let_def wrap_line_def upd_vc_twice)
    then show ?thesis
      using kept_trans [OF w kept_lf [OF kept_ok [OF w]]] by simp
  next
    case False
    then have "good ?C (unat (video_num_lines s)) (?c\<lparr>vc_x := vc_x ?c + ?n, vc_pos := vc_pos ?c + shl1 ?n\<rparr>)"
      using d(3) X P by (simp add: good_def not_less word_le_nat_alt)
    with False show ?thesis
      by (simp add: con_tab_def Let_def kept_upd_vc [OF s])
  qed
qed

section \<open>The interpreter\<close>

lemma kept_back: "screen_ok i s \<Longrightarrow> vc_x (vc_cons s i) \<noteq> 0 \<Longrightarrow> kept i s (upd_vc i (\<lambda>c. c\<lparr>vc_x := vc_x c - 1, vc_pos := vc_pos c - 2\<rparr>) s)"
  using pos_left [OF screen_okD(3,1)] by (intro kept_upd_vc) simp_all

lemma kept_sysbeep: "screen_ok i s \<Longrightarrow> kept i s (sysbeep inb s)"
  by (rule kept_other) (simp_all add: sysbeep_def Let_def outb_def)

lemma kept_set_state: "screen_ok i s \<Longrightarrow> kept i s (set_state i st s)"
  unfolding set_state_def by (rule kept_fields) simp_all

lemma kept_con_normal: "screen_ok i s \<Longrightarrow> kept i s (con_normal inb i c s)"
proof (cases "31 < c \<and> c < 127")
  case True
  assume s: "screen_ok i s"
  define s1 where "s1 = (if vc_x (vc_cons s i) \<ge> video_num_columns s then wrap_line i s else s)"
  have k: "kept i s s1"
    using kept_wrap_line(1) [OF s] kept_refl [OF s] by (simp add: s1_def)
  have "video_num_columns s1 = video_num_columns s" "0 < video_num_columns s"
    using k screen_okD(1) [OF s] by (auto simp: kept_def word_less_nat_alt)
  then have "vc_x (vc_cons s1 i) < video_num_columns s1"
    using kept_wrap_line(2) [OF s] by (auto simp: s1_def not_le)
  then have "kept i s1 (put_cell i ch s1)" for ch
    by (rule kept_put_cell [OF kept_ok [OF k]])
  with True show ?thesis
    using kept_trans [OF k] by (simp add: con_normal_def Let_def s1_def [symmetric])
next
  case False
  assume s: "screen_ok i s"
  have f: "kept i s (upd_vc i (\<lambda>c. c\<lparr>vc_checkin := True, vc_translate := vc_restate c\<rparr>) s)"
    "kept i s (upd_vc i (\<lambda>c. c\<lparr>vc_translate := 0, vc_checkin := False\<rparr>) s)"
    by (rule kept_fields [OF s]; simp)+
  show ?thesis
    unfolding con_normal_def if_not_P [OF False]
    by (simp add: kept_set_state [OF s] kept_lf [OF s] kept_cr [OF s] kept_del [OF s] kept_back [OF s] kept_con_tab [OF s]
        kept_sysbeep [OF s] kept_refl [OF s] f)
qed

lemma kept_upd_par: "screen_ok i s \<Longrightarrow> kept i s (upd_par i k f s)"
  unfolding upd_par_def by (rule kept_fields) simp_all

lemma kept_csi_move: "screen_ok i s \<Longrightarrow> kept i s (csi_move i fx fy s)"
  by (simp add: csi_move_def kept_gotoxy)

text \<open>A second step that keeps the screen in order whatever the first has made of it.\<close>

lemma kept_after: "kept i s t \<Longrightarrow> (screen_ok i t \<Longrightarrow> kept i t (f t)) \<Longrightarrow> kept i s (f t)"
  using kept_trans kept_ok by blast

lemma kept_dec_move: "screen_ok i s \<Longrightarrow> kept i s (csi_move i fx fy (dec_par i k s))"
  unfolding dec_par_def by (rule kept_after [OF kept_upd_par]) (auto intro: kept_csi_move)

lemma kept_one_move: "screen_ok i s \<Longrightarrow> kept i s (csi_move i fx fy (one_par i s))"
  unfolding one_par_def by (rule kept_after [OF kept_upd_par]) (auto intro: kept_csi_move)

lemma kept_home_move: "screen_ok i s \<Longrightarrow> kept i s (csi_move i fx fy (dec_par i k (dec_par i l s)))"
  unfolding dec_par_def [of i l] by (rule kept_after [OF kept_upd_par]) (auto intro: kept_dec_move)

lemma kept_csi_m: "screen_ok i s \<Longrightarrow> kept i s (csi_m i s)"
proof -
  assume s: "screen_ok i s"
  define same where "same c d \<longleftrightarrow> vc_x d = vc_x c \<and> vc_y d = vc_y c \<and> vc_pos d = vc_pos c \<and> vc_origin d = vc_origin c \<and>
      vc_scr_end d = vc_scr_end c \<and> vc_top d = vc_top c \<and> vc_bottom d = vc_bottom c \<and>
      vc_video_mem_start d = vc_video_mem_start c \<and> vc_video_mem_end d = vc_video_mem_end c" for c d :: vc_data
  have step: "same c (csi_m_par colour p c)" for colour p c
    by (simp add: same_def csi_m_par_def Let_def)
  have all: "same c (fold (\<lambda>k c. csi_m_par colour (vc_par c k) c) ks c)" for colour ks c
    using step by (induction ks arbitrary: c) (simp_all add: same_def)
  show ?thesis
    unfolding csi_m_def Let_def by (rule kept_fields [OF s]) (rule all [unfolded same_def])
qed

lemma kept_csi_r: "screen_ok i s \<Longrightarrow> kept i s (csi_r i s)"
proof -
  assume s: "screen_ok i s"
  let ?s1 = "upd_par i 1 (\<lambda>p. if p = 0 then video_num_lines s else p) (dec_par i 0 s)"
  have k: "kept i s ?s1"
    unfolding dec_par_def by (rule kept_after [OF kept_upd_par [OF s]]) (rule kept_upd_par)
  have L: "video_num_lines ?s1 = video_num_lines s"
    using k by (simp add: kept_def)
  show ?thesis
    unfolding csi_r_def Let_def using k kept_trans [OF k kept_set_region [OF kept_ok [OF k]]] L
    by (simp add: word_less_nat_alt word_le_nat_alt)
qed

lemma kept_csi_lb: "screen_ok i s \<Longrightarrow> kept i s (csi_lb i c s)"
proof -
  assume s: "screen_ok i s"
  have b: "kept i s (s\<lparr>blankinterval := v\<rparr>)" for v
    by (rule kept_other [OF s]) simp_all
  have a: "kept i t (upd_vc i (\<lambda>c. c\<lparr>vc_bold_attr := v\<rparr>) t)" if "screen_ok i t" for v and t :: "'a console_scheme"
    using that by (rule kept_fields) simp
  show ?thesis
    using kept_refl [OF s] b a [OF s] kept_trans [OF b a [OF kept_ok [OF b]]] by (simp add: csi_lb_def Let_def)
qed

lemma kept_save_cur: "screen_ok i s \<Longrightarrow> kept i s (save_cur i s)"
  unfolding save_cur_def by (rule kept_fields) simp_all

lemma kept_con_csi: "screen_ok i s \<Longrightarrow> kept i s (con_csi i c s)"
proof -
  assume s: "screen_ok i s"
  note rep = kept_funpow [where i = i and s = s, OF _ s]
  have r: "kept i s ((insert_line i ^^ n) s)" "kept i s ((delete_line i ^^ n) s)" "kept i s ((insert_char i ^^ n) s)"
    "kept i s ((delete_char i ^^ n) s)" for n
    by (intro rep kept_insert_line kept_delete_line kept_insert_char kept_delete_char; assumption)+
  show ?thesis
    unfolding con_csi_def Let_def csi_L_def csi_M_def csi_P_def csi_at_def restore_cur_def
    by (intro kept_if kept_dec_move kept_one_move kept_home_move kept_csi_J kept_csi_K r kept_csi_m kept_csi_r kept_save_cur
        kept_gotoxy kept_csi_lb kept_refl s)
qed

lemma kept_con_gotpars: "screen_ok i s \<Longrightarrow> kept i s (con_gotpars i c s)"
proof -
  assume s: "screen_ok i s"
  have q: "kept i t (upd_vc i (\<lambda>c. c\<lparr>vc_ques := False\<rparr>) t)" if "screen_ok i t" for t :: "'a console_scheme"
    using that by (rule kept_fields) simp
  show ?thesis
    unfolding con_gotpars_def Let_def
    by (rule kept_after [OF kept_set_state [OF s]]) (simp add: q kept_con_csi)
qed

lemma kept_con_getpars: "screen_ok i s \<Longrightarrow> kept i s (con_getpars i c s)"
proof -
  assume s: "screen_ok i s"
  have n: "kept i s (upd_vc i (\<lambda>c. c\<lparr>vc_npar := n\<rparr>) s)" for n
    by (rule kept_fields [OF s]) simp
  have "kept i s (con_gotpars i c (set_state i ESgotpars s))"
    by (rule kept_after [OF kept_set_state [OF s]]) (rule kept_con_gotpars)
  then show ?thesis
    by (simp add: con_getpars_def Let_def n kept_upd_par [OF s])
qed

lemma kept_con_square: "screen_ok i s \<Longrightarrow> kept i s (con_square i c s)"
proof -
  assume s: "screen_ok i s"
  let ?s1 = "upd_vc i (\<lambda>d. d\<lparr>vc_par := (\<lambda>k. if k < NPAR then 0 else vc_par d k), vc_npar := 0, vc_state := ESgetpars\<rparr>) s"
  have k: "kept i s ?s1"
    by (rule kept_fields [OF s]) simp
  have q: "kept i t (upd_vc i (\<lambda>d. d\<lparr>vc_ques := b\<rparr>) t)" if "screen_ok i t" for b and t :: "'a console_scheme"
    using that by (rule kept_fields) simp
  show ?thesis
    unfolding con_square_def Let_def
    using kept_trans [OF k kept_set_state [OF kept_ok [OF k]]] kept_trans [OF k q [OF kept_ok [OF k]]]
      kept_trans [OF k kept_trans [OF q [OF kept_ok [OF k]] kept_con_getpars [OF kept_ok [OF q [OF kept_ok [OF k]]]]]]
    by simp
qed

lemma kept_con_setterm: "screen_ok i s \<Longrightarrow> kept i s (con_setterm i c s)"
proof -
  assume s: "screen_ok i s"
  show ?thesis
    unfolding con_setterm_def Let_def
    by (rule kept_after [OF kept_set_state [OF s]]) (auto intro!: kept_fields kept_refl)
qed

lemma kept_con_setgraph: "screen_ok i s \<Longrightarrow> kept i s (con_setgraph i c s)"
proof -
  assume s: "screen_ok i s"
  show ?thesis
    unfolding con_setgraph_def
    by (rule kept_after [OF _ kept_set_state]) (auto intro!: kept_fields kept_refl s)
qed

lemma kept_set_kbdapplic: "screen_ok i s \<Longrightarrow> kept i s (set_kbdapplic i v s)"
proof -
  assume s: "screen_ok i s"
  have k: "kept i s (upd_vc i (\<lambda>c. c\<lparr>vc_kbdapplic := v\<rparr>) s)"
    by (rule kept_fields [OF s]) simp
  have "kept i t (t\<lparr>kapplic := v\<rparr>)" if "screen_ok i t" for t :: "'a console_scheme"
    using that by (rule kept_other) simp_all
  with k show ?thesis
    unfolding set_kbdapplic_def Let_def using kept_trans [OF k] kept_ok [OF k] by simp
qed

lemma kept_con_reset: "screen_ok i s \<Longrightarrow> kept i s (con_reset i s)"
proof -
  assume s: "screen_ok i s"
  let ?s1 = "upd_tty i (\<lambda>t. t\<lparr>tt_termios := DEF_TERMIOS\<rparr>) s"
  have k: "kept i s ?s1"
    by (rule kept_other [OF s]) (simp_all add: upd_tty_def)
  have "kept i ?s1 (upd_vc i (\<lambda>c. c\<lparr>vc_state := ESnormal, vc_restate := 0, vc_checkin := False, vc_top := 0,
      vc_bottom := video_num_lines ?s1, vc_translate := 0\<rparr>) ?s1)"
    using screen_okD(3) [OF kept_ok [OF k]] by (intro kept_upd_vc [OF kept_ok [OF k]]) (simp_all add: good_def)
  from kept_trans [OF k this] show ?thesis
    unfolding con_reset_def Let_def using kept_after kept_set_kbdapplic by blast
qed

section \<open>Output with answers\<close>

text \<open>
  \<open>ESC Z\<close> makes the console type an answer into its own input, whose echo is written to the console
  again. What the write function \<open>wr\<close> must do for that is the contract of \<open>screen_writer\<close>.
\<close>

lemma more_console:
  assumes "kernel.more u = kernel.more s"
  shows "vmem u = vmem s" "vc_cons u = vc_cons s" "video_num_columns u = video_num_columns s"
    "video_num_lines u = video_num_lines s" "video_size_row u = video_size_row s" "tty_table u = tty_table s"
  using assms by (cases u, cases s, simp)+

lemma kept_kernel: "screen_ok i s \<Longrightarrow> kernel.more u = kernel.more s \<Longrightarrow> kept i s u"
  using more_console [of u s] by (intro kept_other) simp_all

lemma kept_upd_q: "screen_ok i s \<Longrightarrow> kept i s (upd_q q f s)"
  by (rule kept_other) (simp_all add: upd_q_def)

lemma kept_PUTCH: "screen_ok i s \<Longrightarrow> kept i s (PUTCH c q s)"
  by (simp add: PUTCH_def kept_upd_q)

lemma kept_echo_char: "screen_ok i s \<Longrightarrow> kept i s (echo_char j c s)"
  unfolding echo_char_def Let_def
  by (intro kept_if kept_PUTCH kept_refl kept_after [OF kept_PUTCH]; assumption)

definition on_screen :: "nat \<Rightarrow> 'a console_scheme \<Rightarrow> bool" where
  "on_screen i s \<longleftrightarrow> screen_ok i s \<and> tt_write (tty_table s i) = CON_WRITE"

lemma on_screen_kept: "kept i s u \<Longrightarrow> on_screen i s \<Longrightarrow> on_screen i u"
  by (simp add: on_screen_def kept_def)

text \<open>A step that may not return.\<close>

definition keeps :: "nat \<Rightarrow> 'a console_scheme \<Rightarrow> 'a console_scheme option \<Rightarrow> bool" where
  "keeps i s r \<longleftrightarrow> (on_screen i s \<longrightarrow> (\<forall>u. r = Some u \<longrightarrow> kept i s u))"

lemma keeps_Some: "keeps i s (Some u) \<longleftrightarrow> (on_screen i s \<longrightarrow> kept i s u)"
  by (simp add: keeps_def)

lemma keeps_None [simp]: "keeps i s None"
  by (simp add: keeps_def)

lemma keeps_after: "(on_screen i s \<Longrightarrow> kept i s t) \<Longrightarrow> keeps i t r \<Longrightarrow> keeps i s r"
  unfolding keeps_def using kept_trans on_screen_kept by blast

lemma keeps_bind: "keeps i s r \<Longrightarrow> (\<And>u. keeps i u (f u)) \<Longrightarrow> keeps i s (Option.bind r f)"
  unfolding keeps_def using kept_trans on_screen_kept by (fastforce split: bind_splits)

lemma keeps_map: "keeps i s r \<Longrightarrow> (\<And>u. on_screen i u \<Longrightarrow> kept i u (f u)) \<Longrightarrow> keeps i s (map_option f r)"
  unfolding keeps_def using kept_trans on_screen_kept by fastforce

lemma keeps_if: "(P \<Longrightarrow> keeps i s t) \<Longrightarrow> (\<not> P \<Longrightarrow> keeps i s u) \<Longrightarrow> keeps i s (if P then t else u)"
  by simp

lemma on_screenD: "on_screen i s \<Longrightarrow> screen_ok i s"
  by (simp add: on_screen_def)

locale screen_writer =
  fixes wr :: "'a console_ext tty_write" and i :: nat
  assumes writes: "keeps i s (wr CON_WRITE i s)"
begin

lemma keeps_call_write: "keeps i s (call_write wr i s)"
  using writes [of s] by (simp add: call_write_def keeps_def on_screen_def)

lemma keeps_erase_char: "keeps i s (erase_char wr i c s)"
proof -
  have "keeps i s (call_write wr i (PUTCH 127 (write_q i (if c < 32 then PUTCH 127 (write_q i s) s else s))
      (if c < 32 then PUTCH 127 (write_q i s) s else s)))"
    by (rule keeps_after [OF _ keeps_call_write], rule kept_after [OF _ kept_PUTCH])
      (auto intro: kept_PUTCH kept_refl on_screenD)
  then show ?thesis
    unfolding erase_char_def Let_def
    by (intro keeps_map keeps_if) (auto simp: keeps_Some intro: kept_upd_q kept_refl on_screenD)
qed

lemma keeps_kill_line: "keeps i s (kill_line wr i s)"
proof -
  have "kill_line w j s = Some u \<Longrightarrow> w = wr \<longrightarrow> j = i \<longrightarrow> on_screen i s \<longrightarrow> kept i s u" for w j s u
  proof (rule kill_line.raw_induct [where P = "\<lambda>w j s u. w = wr \<longrightarrow> j = i \<longrightarrow> on_screen i s \<longrightarrow> kept i s u"], goal_cases)
    case (1 f w j s u)
    show ?case
    proof (intro impI)
      assume wj: "w = wr" "j = i" and on: "on_screen i s"
      show "kept i s u"
      proof (cases "line_start i s")
        case True
        with 1(3) wj on show ?thesis
          by (auto intro: kept_refl on_screenD)
      next
        case False
        with 1(3) wj obtain t where t: "erase_char wr i (q_last (queues s (secondary i s))) s = Some t" "f wr i t = Some u"
          by (auto simp: bind_eq_Some_conv)
        then have k: "kept i s t"
          using keeps_erase_char [of s] on by (auto simp: keeps_def)
        from 1(2) [OF t(2)] on_screen_kept [OF k on] show ?thesis
          by (auto intro: kept_trans [OF k])
      qed
    qed
  qed
  then show ?thesis
    by (simp add: keeps_def)
qed

lemma keeps_accept_char: "keeps i s (accept_char wr i c s)"
proof -
  have "on_screen i s \<Longrightarrow> kept i s (echo_char i c (if P then upd_q q f s else s))" for P q f
    by (rule kept_after [where f = "echo_char i c"]) (auto intro: kept_upd_q kept_echo_char kept_refl on_screenD)
  then show ?thesis
    unfolding accept_char_def Let_def
    by (intro keeps_map keeps_after [OF _ keeps_call_write]) (auto intro: kept_PUTCH on_screenD)
qed

lemma keeps_cook_char: "keeps i s (cook_char wr i c s)"
proof -
  have t: "on_screen i s \<Longrightarrow> kept i s (tty_kill i sig s)" for sig
    using tty_kill_ok [of i sig s] by (intro kept_kernel on_screenD)
  have st: "on_screen i s \<Longrightarrow> kept i s (upd_tty i (\<lambda>t. t\<lparr>tt_stopped := b\<rparr>) s)" for b
    by (rule kept_other [OF on_screenD]) (simp_all add: upd_tty_def)
  show ?thesis
    unfolding cook_char_def Let_def
    by (intro keeps_if keeps_kill_line keeps_erase_char keeps_accept_char keeps_after [OF st keeps_call_write])
      (auto simp: keeps_Some t intro: kept_refl on_screenD)
qed

lemma keeps_cook_loop: "keeps i s (cook_loop wr i s)"
proof -
  have "cook_loop w j s = Some u \<Longrightarrow> w = wr \<longrightarrow> j = i \<longrightarrow> on_screen i s \<longrightarrow> kept i s u" for w j s u
  proof (rule cook_loop.raw_induct [where P = "\<lambda>w j s u. w = wr \<longrightarrow> j = i \<longrightarrow> on_screen i s \<longrightarrow> kept i s u"], goal_cases)
    case (1 f w j s u)
    have "kept i s u" if wj: "w = wr" "j = i" and on: "on_screen i s"
    proof (cases "q_empty (queues s (read_q i s)) \<or> q_full (queues s (secondary i s))")
      case True
      with 1(3) wj on show ?thesis
        by (auto intro: kept_refl on_screenD)
    next
      case False
      obtain c s1 where g: "GETCH (read_q i s) s = (c, s1)"
        by fastforce
      have k1: "kept i s s1"
        using g kept_upd_q [OF on_screenD [OF on]] by (auto simp: GETCH_def)
      from False g 1(3) wj obtain t where t: "f wr i t = Some u"
        "(case map_input (tt_termios (tty_table s1 i)) c of None \<Rightarrow> Some s1 | Some c \<Rightarrow> cook_char wr i c s1) = Some t"
        by (auto simp: bind_eq_Some_conv)
      have "keeps i s1 (case map_input (tt_termios (tty_table s1 i)) c of None \<Rightarrow> Some s1 | Some c \<Rightarrow> cook_char wr i c s1)"
        by (auto simp: keeps_Some intro: kept_refl on_screenD keeps_cook_char split: option.split)
      then have k: "kept i s t"
        using t(2) on_screen_kept [OF k1 on] by (auto simp: keeps_def intro: kept_trans [OF k1])
      from 1(2) [OF t(1)] on_screen_kept [OF k on] show ?thesis
        by (auto intro: kept_trans [OF k])
    qed
    then show ?case
      by blast
  qed
  then show ?thesis
    by (simp add: keeps_def)
qed

lemma keeps_copy_to_cooked: "keeps i s (copy_to_cooked wr i s)"
  unfolding copy_to_cooked_def
  by (intro keeps_if keeps_map keeps_cook_loop) (auto simp: keeps_Some intro: kept_refl kept_kernel on_screenD)

lemma keeps_respond: "keeps i s (respond wr i s)"
proof -
  have "screen_ok i s \<Longrightarrow> kept i s (fold (\<lambda>p s. PUTCH p (read_q i s) s) ps s)" for ps and s :: "'a console_scheme"
    by (induction ps arbitrary: s) (auto intro: kept_refl kept_after [OF kept_PUTCH])
  then show ?thesis
    unfolding respond_def by (intro keeps_after [OF _ keeps_copy_to_cooked]) (auto dest: on_screenD)
qed

lemma keeps_con_esc: "keeps i s (con_esc wr i c s)"
proof -
  have k: "on_screen i s \<Longrightarrow> kept i s (set_state i ESnormal s)"
    by (intro kept_set_state on_screenD)
  show ?thesis
    unfolding con_esc_def Let_def
  proof (rule keeps_after [OF k])
    show "keeps i (set_state i ESnormal s)
      (if c = 90 then respond wr i (set_state i ESnormal s)
       else Some
           (if c = 91 then set_state i ESsquare (set_state i ESnormal s)
            else if c = 69 then gotoxy i 0 (vc_y (vc_cons (set_state i ESnormal s) i) + 1) (set_state i ESnormal s)
            else if c = 77 then ri i (set_state i ESnormal s)
            else if c = 68 then lf i (set_state i ESnormal s)
            else if c = 55 then save_cur i (set_state i ESnormal s)
            else if c = 56 then restore_cur i (set_state i ESnormal s)
            else if c = 40 \<or> c = 41 then set_state i ESsetgraph (set_state i ESnormal s)
            else if c = 80 then set_state i ESsetterm (set_state i ESnormal s)
            else if c = 35 then set_state i ESminus (set_state i ESnormal s)
            else if c = 99 then con_reset i (set_state i ESnormal s)
            else if c = 62 then set_kbdapplic i 0 (set_state i ESnormal s)
            else if c = 61 then set_kbdapplic i 1 (set_state i ESnormal s)
            else set_state i ESnormal s))"
      unfolding keeps_Some restore_cur_def
      by (intro keeps_if keeps_respond keeps_Some [THEN iffD2] impI kept_if kept_set_state kept_gotoxy kept_ri kept_lf
          kept_save_cur kept_con_reset kept_set_kbdapplic kept_refl on_screenD; assumption)
  qed
qed

lemma keeps_con_char: "keeps i s (con_char inb wr i c s)"
proof -
  have k: "on_screen i s \<Longrightarrow> kept i s (if c = 24 \<or> c = 26 then set_state i ESnormal s else s)"
    by (intro kept_if kept_set_state kept_refl on_screenD)
  show ?thesis
    unfolding con_char_def Let_def
    by (rule keeps_after [OF k], assumption)
      (auto split: con_state.split intro!: keeps_con_esc keeps_Some [THEN iffD2] kept_con_normal kept_con_square kept_con_getpars
        kept_con_gotpars kept_set_state kept_con_setterm kept_con_setgraph dest!: on_screenD)
qed

lemma keeps_con_chars: "keeps i s (con_chars inb wr i n s)"
proof (induction n arbitrary: s)
  case (Suc n)
  obtain c s1 where g: "GETCH (write_q i s) s = (c, s1)"
    by fastforce
  then have k1: "on_screen i s \<Longrightarrow> kept i s s1"
    using kept_upd_q [OF on_screenD] by (auto simp: GETCH_def)
  show ?case
    using g keeps_after [OF k1 keeps_bind [OF keeps_con_char Suc.IH]]
    by (auto simp: keeps_Some intro: kept_refl on_screenD)
qed (auto simp: keeps_Some intro: kept_refl on_screenD)

lemma keeps_con_write: "keeps i s (con_write inb wr i s)"
proof -
  have k: "on_screen i s \<Longrightarrow> kept i s (wake_up q s)" for q
    by (intro kept_kernel on_screenD) simp_all
  have r: "screen_ok i t \<Longrightarrow> kept i t (restart_blank_timer t)" for t :: "'a console_scheme"
    by (rule kept_other) (simp_all add: restart_blank_timer_def Let_def)
  have "on_screen i t \<Longrightarrow> kept i t (restart_blank_timer (set_cursor i t))" for t :: "'a console_scheme"
    by (rule kept_after [where f = restart_blank_timer]) (simp_all only: kept_set_cursor r on_screenD)
  then show ?thesis
    unfolding con_write_def Let_def
    by (intro keeps_after [OF k] keeps_if keeps_map)
      (auto simp: keeps_Some intro: kept_refl on_screenD keeps_con_chars)
qed

end

lemma tty_writes_keep: "keeps i s (tty_writes (con_write inb) inb' n CON_WRITE i s)"
proof (induction n arbitrary: s)
  case (Suc n)
  have "screen_writer (tty_writes (con_write inb) inb' n) i"
    by (rule screen_writer.intro) (rule Suc.IH)
  from screen_writer.keeps_con_write [OF this] show ?case
    by simp
qed simp

interpretation screens: screen_writer "tty_writes (con_write inb) inb' n" i
  by unfold_locales (rule tty_writes_keep)


section \<open>Plain text\<close>

fun text_at :: "u32 \<Rightarrow> u8 \<Rightarrow> u8 list \<Rightarrow> bmem \<Rightarrow> bmem" where
  "text_at p a [] m = m"
| "text_at p a (c # cs) m = text_at (p + 2) a cs (m(p := c, p + 1 := a))"

lemma text_at_outside:
  assumes "unat p + 2 * length cs < 2 ^ 32" "unat b < unat p \<or> unat p + 2 * length cs \<le> unat b"
  shows "text_at p a cs m b = m b"
  using assms
proof (induction cs arbitrary: p m)
  case (Cons c cs)
  have u: "unat (p + 2) = unat p + 2" "unat (p + 1) = unat p + 1"
    using Cons.prems(1) unat_step [of p 2] unat_step [of p 1] by simp_all
  with Cons.prems have "b \<noteq> p" "b \<noteq> p + 1"
    by auto
  moreover have "unat (p + 2) + 2 * length cs < 2 ^ 32" "unat b < unat (p + 2) \<or> unat (p + 2) + 2 * length cs \<le> unat b"
    using Cons.prems u(1) by auto
  ultimately show ?case
    using Cons.IH [of "p + 2"] by simp
qed simp

lemma text_at_cell:
  assumes "unat p + 2 * length cs < 2 ^ 32" "k < length cs"
  shows "text_at p a cs m (p + of_nat (2 * k)) = cs ! k" "text_at p a cs m (p + of_nat (2 * k) + 1) = a"
proof -
  have "text_at p a cs m (p + of_nat (2 * k)) = cs ! k \<and> text_at p a cs m (p + of_nat (2 * k) + 1) = a"
    using assms
  proof (induction cs arbitrary: p m k)
    case (Cons c cs)
    have u: "unat (p + 2) = unat p + 2" "unat (p + 1) = unat p + 1"
      using Cons.prems(1) unat_step [of p 2] unat_step [of p 1] by simp_all
    show ?case
    proof (cases k)
      case 0
      have "p + 1 \<noteq> p"
        by simp
      with 0 u Cons.prems(1) show ?thesis
        by (simp add: text_at_outside)
    next
      case (Suc j)
      have e: "p + of_nat (2 * Suc j) = (p + 2) + of_nat (2 * j)"
        by simp
      have "unat (p + 2) + 2 * length cs < 2 ^ 32" "j < length cs"
        using Suc Cons.prems u(1) by simp_all
      from Cons.IH [OF this] show ?thesis
        unfolding Suc e text_at.simps nth_Cons_Suc .
    qed
  qed simp
  then show "text_at p a cs m (p + of_nat (2 * k)) = cs ! k" "text_at p a cs m (p + of_nat (2 * k) + 1) = a"
    by simp_all
qed

definition printable :: "u8 \<Rightarrow> bool" where "printable c \<longleftrightarrow> 31 < c \<and> c < 127"

definition glyph :: "vc_data \<Rightarrow> u8 \<Rightarrow> u8" where "glyph c ch = trans_table (vc_translate c) ! unat (ch - 32)"

lemma con_char_printable:
  assumes "printable c" "vc_state (vc_cons s i) = ESnormal" "vc_x (vc_cons s i) < video_num_columns s"
  shows "con_char inb wr i c s = Some (put_cell i (glyph (vc_cons s i) c) s)"
proof -
  have "c \<noteq> 24" "c \<noteq> 26"
    using assms(1) by (auto simp: printable_def)
  then show ?thesis
    using assms by (simp add: con_char_def con_normal_def Let_def glyph_def printable_def)
qed

lemma con_chars_text:
  assumes "screen_ok i s" "vc_state (vc_cons s i) = ESnormal" "\<not> tt_stopped (tty_table s i)" "tt_write_q (tty_table s i) = w"
    and "q_ok (queues s w)" "q_list (queues s w) = cs @ rest" "\<forall>c \<in> set cs. printable c"
    and "unat (vc_x (vc_cons s i)) + length cs \<le> unat (video_num_columns s)"
  shows "\<exists>u. con_chars inb wr i (length cs) s = Some u \<and> q_list (queues u w) = rest \<and> tty_table u = tty_table s \<and>
    vc_cons u i = (vc_cons s i)\<lparr>vc_pos := vc_pos (vc_cons s i) + of_nat (2 * length cs), vc_x := vc_x (vc_cons s i) + of_nat (length cs)\<rparr> \<and>
    vmem u = text_at (vc_pos (vc_cons s i)) (vc_attr (vc_cons s i)) (map (glyph (vc_cons s i)) cs) (vmem s)"
  using assms
proof (induction cs arbitrary: s)
  case (Cons c cs)
  let ?c = "vc_cons s i"
  obtain s1 where g: "GETCH w s = (c, s1)" "q_list (queues s1 w) = cs @ rest" "q_ok (queues s1 w)" "tty_table s1 = tty_table s"
    using GETCH_list [OF Cons.prems(5)] Cons.prems(6) by (metis append_Cons)
  have s1: "kept i s s1" "vc_cons s1 = vc_cons s" "vmem s1 = vmem s" "video_num_columns s1 = video_num_columns s"
    using g(1) kept_upd_q [OF Cons.prems(1)] by (auto simp: GETCH_def upd_q_def)
  have lt: "vc_x (vc_cons s1 i) < video_num_columns s1"
    using Cons.prems(8) s1(2,4) by (simp add: word_less_nat_alt)
  let ?u = "put_cell i (glyph ?c c) s1"
  have step: "con_char inb wr i c s1 = Some ?u"
    using con_char_printable [OF _ _ lt] Cons.prems(2,7) s1(2) by simp
  have k: "screen_ok i ?u"
    by (rule kept_ok [OF kept_put_cell [OF kept_ok [OF s1(1)] lt]])
  have u: "vc_cons ?u i = ?c\<lparr>vc_pos := vc_pos ?c + 2, vc_x := vc_x ?c + 1\<rparr>" "queues ?u = queues s1" "tty_table ?u = tty_table s"
    "vmem ?u = (vmem s)(vc_pos ?c := glyph ?c c, vc_pos ?c + 1 := vc_attr ?c)" "video_num_columns ?u = video_num_columns s"
    using g(4) s1(2-4) by (simp_all add: put_cell_def Let_def) (simp_all add: upd_vc_def upd_vmem_def fun_eq_iff)
  have x: "unat (vc_x ?c + 1) = unat (vc_x ?c) + 1"
    using Cons.prems(8) unat32_bound [of "video_num_columns s"] unat_step [of "vc_x ?c" 1] by simp
  have "glyph (?c\<lparr>vc_pos := p, vc_x := y\<rparr>) = glyph ?c" for p y
    by (simp add: glyph_def fun_eq_iff)
  moreover define m where "m = vmem ?u"
  ultimately obtain u' where "con_chars inb wr i (length cs) ?u = Some u'" "q_list (queues u' w) = rest" "tty_table u' = tty_table s"
    "vc_cons u' i = (vc_cons ?u i)\<lparr>vc_pos := vc_pos ?c + 2 + of_nat (2 * length cs), vc_x := vc_x ?c + 1 + of_nat (length cs)\<rparr>"
    "vmem u' = text_at (vc_pos ?c + 2) (vc_attr ?c) (map (glyph ?c) cs) m"
    using Cons.IH [OF k] u(1-3,5) g(2,3) Cons.prems(2-4,7,8) x by (auto simp: m_def)
  moreover have "text_at (vc_pos ?c + 2) (vc_attr ?c) (map (glyph ?c) cs) m = text_at (vc_pos ?c) (vc_attr ?c) (map (glyph ?c) (c # cs)) (vmem s)"
    unfolding m_def u(4) list.map text_at.simps ..
  ultimately show ?case
    using step g(1) Cons.prems(3,4) u(1) by (simp only:) (simp add: add_ac)
qed simp

text \<open>
  C33.
  Printable text that fits into the line appears on the screen: each character, translated, with
  the attribute in force, in its cell behind the cursor; the cursor moves behind the text, the
  queue is empty, and nothing else in memory changes.
\<close>

theorem con_prints:
  assumes s: "screen_ok i s" "vc_state (vc_cons s i) = ESnormal" "\<not> tt_stopped (tty_table s i)" "i < MAX_CONSOLES"
    and q: "tt_write_q (tty_table s i) = w" "q_ok (queues s w)" "q_list (queues s w) = cs" "\<forall>c \<in> set cs. printable c"
    and fits: "unat (vc_x (vc_cons s i)) + length cs \<le> unat (video_num_columns s)"
  defines "p \<equiv> vc_pos (vc_cons s i)"
  shows "\<exists>u. con_write inb wr i s = Some u \<and> q_list (queues u w) = [] \<and>
    unat (vc_x (vc_cons u i)) = unat (vc_x (vc_cons s i)) + length cs \<and> vc_y (vc_cons u i) = vc_y (vc_cons s i) \<and>
    (\<forall>k < length cs. vmem u (p + of_nat (2 * k)) = glyph (vc_cons s i) (cs ! k) \<and>
       vmem u (p + of_nat (2 * k) + 1) = vc_attr (vc_cons s i)) \<and>
    (\<forall>a. unat a < unat p \<or> unat p + 2 * length cs \<le> unat a \<longrightarrow> vmem u a = vmem s a)"
proof -
  let ?s = "wake_up (proc_list w) s" and ?c = "vc_cons s i"
  have m: "kernel.more ?s = kernel.more s"
    by simp
  have ok: "screen_ok i ?s"
    by (rule kept_ok [OF kept_kernel [OF s(1) m]])
  note eq = more_console [OF m]
  obtain u where u: "con_chars inb wr i (length cs) ?s = Some u" "q_list (queues u w) = []"
    "vc_cons u i = ?c\<lparr>vc_pos := p + of_nat (2 * length cs), vc_x := vc_x ?c + of_nat (length cs)\<rparr>"
    "vmem u = text_at p (vc_attr ?c) (map (glyph ?c) cs) (vmem s)"
    using con_chars_text [OF ok, of w cs "[]" inb wr] s q fits eq by (auto simp: p_def)
  let ?u = "restart_blank_timer (set_cursor i u)"
  have f: "vmem ?u = vmem u" "vc_cons ?u = vc_cons u" "queues ?u = queues u"
    by (simp_all add: restart_blank_timer_def set_cursor_def out_offset_def outb_def Let_def)
  have "con_write inb wr i s = Some ?u"
    using u(1) s(4) q by (simp add: con_write_def Let_def flip: length_q_list)
  moreover have "unat p + 2 * length cs < 2 ^ 32"
    using line_room(1,2) [OF s(1)] fits by (simp add: p_def)
  moreover have "unat (vc_x ?c + of_nat (length cs)) = unat (vc_x ?c) + length cs"
    using fits unat32_bound [of "video_num_columns s"] by (intro unat_step) simp
  ultimately show ?thesis
    using u(2-4) f text_at_cell [of p "map (glyph ?c) cs"] text_at_outside [of p "map (glyph ?c) cs"] by (intro exI [of _ ?u]) simp
qed

section \<open>Cursor addressing\<close>

text \<open>Console \<open>i\<close> has the characters \<open>cs\<close> in its write queue \<open>w\<close> and is not stopped.\<close>

definition pending_text :: "nat \<Rightarrow> ptr \<Rightarrow> u8 list \<Rightarrow> 'a console_scheme \<Rightarrow> bool" where
  "pending_text i w cs s \<longleftrightarrow> \<not> tt_stopped (tty_table s i) \<and> tt_write_q (tty_table s i) = w \<and> q_ok (queues s w) \<and> q_list (queues s w) = cs"

definition same_dims :: "'a console_scheme \<Rightarrow> 'a console_scheme \<Rightarrow> bool" where
  "same_dims s u \<longleftrightarrow> video_num_columns u = video_num_columns s \<and> video_num_lines u = video_num_lines s \<and> vmem u = vmem s"

text \<open>A character that only changes the variables of the console.\<close>

lemma con_chars_step:
  assumes "pending_text i w (c # cs) s"
    and "\<And>t. vc_cons t = vc_cons s \<Longrightarrow> con_char inb wr i c t = Some (upd_vc i f t)"
  shows "\<exists>u. con_chars inb wr i (Suc n) s = con_chars inb wr i n u \<and> pending_text i w cs u \<and> vc_cons u i = f (vc_cons s i) \<and> same_dims s u"
proof -
  have q: "q_ok (queues s w)" "q_list (queues s w) = c # cs" "tt_write_q (tty_table s i) = w"
    using assms(1) by (simp_all add: pending_text_def)
  obtain t where g: "GETCH w s = (c, t)" "q_list (queues t w) = cs" "q_ok (queues t w)" "tty_table t = tty_table s"
    using GETCH_list [OF q(1,2)] by metis
  have t: "vc_cons t = vc_cons s" "same_dims s t"
    using g(1) by (auto simp: GETCH_def upd_q_def same_dims_def)
  have "con_chars inb wr i (Suc n) s = con_chars inb wr i n (upd_vc i f t)"
    using assms(1) g(1) assms(2) [OF t(1)] by (simp add: pending_text_def)
  moreover have "pending_text i w cs (upd_vc i f t)"
    using assms(1) g(2-4) by (simp add: pending_text_def upd_vc_def)
  ultimately show ?thesis
    using t by (auto simp: same_dims_def)
qed

lemma same_dims_trans: "same_dims s t \<Longrightarrow> same_dims t u \<Longrightarrow> same_dims s u"
  by (simp add: same_dims_def)

definition digit :: "u8 \<Rightarrow> bool" where "digit c \<longleftrightarrow> 48 \<le> c \<and> c \<le> 57"

definition add_digit :: "u8 \<Rightarrow> u32 \<Rightarrow> u32" where "add_digit c n = 10 * n + ucast c - 48"

definition set_par :: "nat \<Rightarrow> (u32 \<Rightarrow> u32) \<Rightarrow> vc_data \<Rightarrow> vc_data" where
  "set_par k f c = c\<lparr>vc_par := (vc_par c)(k := f (vc_par c k))\<rparr>"

lemma digit_neq: "digit c \<Longrightarrow> c \<noteq> 24 \<and> c \<noteq> 26 \<and> c \<noteq> 59 \<and> c \<noteq> 91 \<and> c \<noteq> 63"
  by (auto simp: digit_def)

lemma con_char_digit:
  assumes "digit c" "vc_state (vc_cons t i) = ESgetpars"
  shows "con_char inb wr i c t = Some (upd_vc i (set_par (vc_npar (vc_cons t i)) (add_digit c)) t)"
  using assms digit_neq [OF assms(1)]
  by (simp add: con_char_def con_getpars_def upd_par_def set_par_def [abs_def] add_digit_def Let_def digit_def)

lemma con_chars_digits:
  assumes "pending_text i w (ds @ rest) s" "vc_state (vc_cons s i) = ESgetpars" "vc_npar (vc_cons s i) = k" "\<forall>c \<in> set ds. digit c"
  shows "\<exists>u. con_chars inb wr i (length ds + n) s = con_chars inb wr i n u \<and> pending_text i w rest u \<and>
    vc_cons u i = set_par k (fold add_digit ds) (vc_cons s i) \<and> same_dims s u"
  using assms
proof (induction ds arbitrary: s)
  case Nil
  then show ?case
    by (intro exI [of _ s]) (simp add: set_par_def same_dims_def id_def)
next
  case (Cons c ds)
  have d: "digit c"
    using Cons.prems(4) by simp
  obtain u where u: "con_chars inb wr i (Suc (length ds + n)) s = con_chars inb wr i (length ds + n) u" "pending_text i w (ds @ rest) u"
    "vc_cons u i = set_par k (add_digit c) (vc_cons s i)" "same_dims s u"
    using con_chars_step [where cs = "ds @ rest" and f = "set_par k (add_digit c)" and n = "length ds + n"] con_char_digit [OF d] Cons.prems(1-3)
    by (metis append_Cons)
  obtain u' where "con_chars inb wr i (length ds + n) u = con_chars inb wr i n u'" "pending_text i w rest u'"
    "vc_cons u' i = set_par k (fold add_digit ds) (vc_cons u i)" "same_dims u u'"
    using Cons.IH [OF u(2)] u(3) Cons.prems(2-4) by (auto simp: set_par_def)
  then show ?case
    using u same_dims_trans [OF u(4)] by (intro exI [of _ u']) (simp add: set_par_def)
qed

definition number :: "u8 list \<Rightarrow> u32" where "number ds = fold add_digit ds 0"

definition from_one :: "u32 \<Rightarrow> u32" where "from_one n = (if n \<noteq> 0 then n - 1 else n)"

text \<open>The variables at the start of a sequence's parameters.\<close>

definition no_pars :: "vc_data \<Rightarrow> vc_data" where
  "no_pars d = d\<lparr>vc_par := (\<lambda>k. if k < NPAR then 0 else vc_par d k), vc_npar := 0, vc_state := ESgetpars, vc_ques := False\<rparr>"

lemma con_chars_square:
  assumes "pending_text i w (c # cs) s" "c \<noteq> 24" "c \<noteq> 26" "c \<noteq> 91" "c \<noteq> 63" "vc_state (vc_cons s i) = ESsquare"
  shows "con_chars inb wr i (Suc n) s = con_chars inb wr i (Suc n) (upd_vc i no_pars s)" "pending_text i w (c # cs) (upd_vc i no_pars s)"
proof -
  obtain t where g: "GETCH w s = (c, t)" "tty_table t = tty_table s" "vc_cons t = vc_cons s"
    using GETCH_list [of s w c cs] assms(1) by (auto simp: pending_text_def GETCH_def upd_q_def)
  have "GETCH w (upd_vc i no_pars s) = (c, upd_vc i no_pars t)"
    using g(1) by (auto simp: GETCH_def upd_q_def upd_vc_def)
  moreover have "con_char inb wr i c t = con_char inb wr i c (upd_vc i no_pars t)"
    using assms(2-6) g(3) by (simp add: con_char_def con_square_def Let_def no_pars_def [abs_def] upd_vc_twice)
  moreover have "pending_text i w (c # cs) (upd_vc i no_pars s)"
    using assms(1) by (simp add: pending_text_def upd_vc_def)
  ultimately show "con_chars inb wr i (Suc n) s = con_chars inb wr i (Suc n) (upd_vc i no_pars s)"
      "pending_text i w (c # cs) (upd_vc i no_pars s)"
    using assms(1) g(1) by (simp_all add: pending_text_def)
qed

text \<open>
  The sequence \<open>ESC [ row ; column H\<close> with decimal numbers, of which either may be missing, puts the
  cursor there when that is on the screen, counted from 1, and leaves it where it was otherwise.
\<close>

theorem cursor_address:
  assumes sq: "pending_text i w ([27, 91] @ rs @ [59] @ cs @ [72]) s" "vc_state (vc_cons s i) = ESnormal"
    and digits: "\<forall>c \<in> set (rs @ cs). digit c"
  defines "row \<equiv> from_one (number rs)" and "col \<equiv> from_one (number cs)"
  shows "\<exists>u. con_chars inb wr i (length rs + length cs + 4) s = Some u \<and> q_list (queues u w) = [] \<and>
    vc_state (vc_cons u i) = ESnormal \<and> vmem u = vmem s \<and>
    (vc_x (vc_cons u i), vc_y (vc_cons u i)) =
      (if col \<le> video_num_columns s \<and> row < video_num_lines s then (col, row) else (vc_x (vc_cons s i), vc_y (vc_cons s i)))"
proof -
  have esc: "con_char inb wr i 27 t = Some (upd_vc i (\<lambda>c. c\<lparr>vc_state := ESesc\<rparr>) t)" if "vc_cons t = vc_cons s" for t :: "'a console_scheme"
    using that sq(2) by (simp add: con_char_def con_normal_def set_state_def)
  obtain s1 where s1: "con_chars inb wr i (Suc (length rs + length cs + 3)) s = con_chars inb wr i (length rs + length cs + 3) s1"
    "pending_text i w (91 # rs @ 59 # cs @ [72]) s1" "vc_cons s1 i = (vc_cons s i)\<lparr>vc_state := ESesc\<rparr>" "same_dims s s1"
    using con_chars_step [OF _ esc, where w = w and cs = "91 # rs @ 59 # cs @ [72]" and n = "length rs + length cs + 3"] sq(1) by auto
  have bra: "con_char inb wr i 91 t = Some (upd_vc i (\<lambda>c. c\<lparr>vc_state := ESsquare\<rparr>) t)" if "vc_cons t = vc_cons s1" for t :: "'a console_scheme"
    using that s1(3) by (simp add: con_char_def con_esc_def set_state_def upd_vc_twice)
  obtain s2 where s2: "con_chars inb wr i (Suc (length rs + length cs + 2)) s1 = con_chars inb wr i (length rs + length cs + 2) s2"
    "pending_text i w (rs @ 59 # cs @ [72]) s2" "vc_cons s2 i = (vc_cons s i)\<lparr>vc_state := ESsquare\<rparr>" "same_dims s1 s2"
    using con_chars_step [OF s1(2) bra, where n = "length rs + length cs + 2"] s1(3) by auto
  let ?s3 = "upd_vc i no_pars s2"
  obtain c0 r0 where c0: "rs @ 59 # cs @ [72] = c0 # r0" "c0 \<noteq> 24" "c0 \<noteq> 26" "c0 \<noteq> 91" "c0 \<noteq> 63"
    using digits digit_neq by (cases rs) auto
  have s3: "con_chars inb wr i (length rs + length cs + 2) s2 = con_chars inb wr i (length rs + length cs + 2) ?s3"
    "pending_text i w (rs @ 59 # cs @ [72]) ?s3"
    using con_chars_square(1) [where i = i and w = w and c = c0 and cs = r0 and s = s2 and inb = inb and wr = wr and n = "length rs + length cs + 1"]
      con_chars_square(2) [where i = i and w = w and c = c0 and cs = r0 and s = s2] c0 s2(2,3) by simp_all
  define d where "d = no_pars ((vc_cons s i)\<lparr>vc_state := ESsquare\<rparr>)"
  have d: "vc_state d = ESgetpars" "vc_npar d = 0" "vc_par d 0 = 0" "vc_par d 1 = 0" "vc_ques d = False" "vc_x d = vc_x (vc_cons s i)"
    "vc_y d = vc_y (vc_cons s i)"
    by (simp_all add: d_def no_pars_def NPAR_def)
  obtain s4 where s4: "con_chars inb wr i (length rs + (length cs + 2)) ?s3 = con_chars inb wr i (length cs + 2) s4"
    "pending_text i w (59 # cs @ [72]) s4" "vc_cons s4 i = set_par 0 (fold add_digit rs) d" "same_dims ?s3 s4"
    using con_chars_digits [OF s3(2), where k = 0 and n = "length cs + 2" and inb = inb and wr = wr] digits d s2(3) by (auto simp: d_def)
  have sep: "con_char inb wr i 59 t = Some (upd_vc i (\<lambda>c. c\<lparr>vc_npar := 1\<rparr>) t)" if "vc_cons t = vc_cons s4" for t :: "'a console_scheme"
    using that s4(3) d by (simp add: con_char_def con_getpars_def Let_def set_par_def NPAR_def)
  obtain s5 where s5: "con_chars inb wr i (Suc (length cs + 1)) s4 = con_chars inb wr i (length cs + 1) s5"
    "pending_text i w (cs @ [72]) s5" "vc_cons s5 i = (set_par 0 (fold add_digit rs) d)\<lparr>vc_npar := 1\<rparr>" "same_dims s4 s5"
    using con_chars_step [OF s4(2) sep, where n = "length cs + 1"] s4(3) by auto
  obtain s6 where s6: "con_chars inb wr i (length cs + 1) s5 = con_chars inb wr i 1 s6" "pending_text i w [72] s6"
    "vc_cons s6 i = set_par 1 (fold add_digit cs) ((set_par 0 (fold add_digit rs) d)\<lparr>vc_npar := 1\<rparr>)" "same_dims s5 s6"
    using con_chars_digits [OF s5(2), where k = 1 and n = 1 and inb = inb and wr = wr] digits d s5(3) by (auto simp: set_par_def)
  have dims: "same_dims s s6"
    using s1(4) s2(4) s4(4) s5(4) s6(4) by (simp add: same_dims_def)
  have par: "vc_par (vc_cons s6 i) 0 = number rs" "vc_par (vc_cons s6 i) 1 = number cs" "vc_x (vc_cons s6 i) = vc_x (vc_cons s i)"
    "vc_y (vc_cons s6 i) = vc_y (vc_cons s i)" "vc_state (vc_cons s6 i) = ESgetpars" "\<not> vc_ques (vc_cons s6 i)"
    using s6(3) d by (simp_all add: set_par_def number_def)
  obtain t where t: "GETCH w s6 = (72, t)" "q_list (queues t w) = []" "vc_cons t = vc_cons s6" "same_dims s6 t"
    using GETCH_list [of s6 w 72 "[]"] s6(2) by (auto simp: pending_text_def GETCH_def upd_q_def same_dims_def)
  define t' where "t' = dec_par i 1 (dec_par i 0 (set_state i ESnormal (set_state i ESgotpars t)))"
  let ?u = "csi_move i (\<lambda>c. vc_par c 1) (\<lambda>c. vc_par c 0) t'"
  have u: "con_chars inb wr i 1 s6 = Some ?u"
    using s6(2) t(1,3) par
    by (simp add: pending_text_def con_char_def con_getpars_def con_gotpars_def con_csi_def set_state_def t'_def)
  have same: "video_num_columns t' = video_num_columns s" "video_num_lines t' = video_num_lines s" "vmem t' = vmem s"
    "q_list (queues t' w) = []"
    using dims t(2,4) by (simp_all add: same_dims_def t'_def dec_par_def upd_par_def set_state_def) (simp add: upd_vc_def)
  have v: "vc_cons t' i = (vc_cons s6 i)\<lparr>vc_state := ESnormal, vc_par := (vc_par (vc_cons s6 i))(0 := row, 1 := col)\<rparr>"
    using t(3) par(1,2) by (simp add: t'_def dec_par_def upd_par_def set_state_def row_def col_def from_one_def fun_eq_iff)
  have "q_list (queues ?u w) = []" "vmem ?u = vmem s" "vc_state (vc_cons ?u i) = ESnormal"
    using v same by (simp_all add: csi_move_def gotoxy_def) (simp add: upd_vc_def)
  moreover have "(vc_x (vc_cons ?u i), vc_y (vc_cons ?u i)) =
      (if col \<le> video_num_columns s \<and> row < video_num_lines s then (col, row) else (vc_x (vc_cons s i), vc_y (vc_cons s i)))"
    using v par(3,4) same by (auto simp: csi_move_def gotoxy_def)
  moreover have "con_chars inb wr i (length rs + length cs + 4) s = Some ?u"
  proof -
    have e: "Suc (length rs + length cs + 3) = length rs + length cs + 4" "Suc (length rs + (length cs + 2)) = length rs + length cs + 3"
      "length rs + length cs + 2 = length rs + (length cs + 2)" "Suc (length cs + 1) = length cs + 2"
      by simp_all
    show ?thesis
      using s1(1) s2(1) s3(1) s4(1) s5(1) s6(1) u unfolding e by (simp only:)
  qed
  ultimately show ?thesis
    by blast
qed

section \<open>Two consoles\<close>

text \<open>The first is shown; characters wait in its write queue.\<close>

definition vc_example :: "u32 \<Rightarrow> u32 \<Rightarrow> vc_data" where
  "vc_example a e =
     \<lparr>vc_video_erase_char = 0x0720, vc_attr = 7, vc_def_attr = 7, vc_bold_attr = - 1, vc_ques = False, vc_state = ESnormal,
      vc_restate = 0, vc_checkin = False, vc_origin = a, vc_scr_end = a + 4000, vc_pos = a + 168, vc_x = 4, vc_y = 1, vc_top = 0,
      vc_bottom = 25, vc_npar = 0, vc_par = (\<lambda>k. 0), vc_video_mem_start = a, vc_video_mem_end = e, vc_saved_x = 0,
      vc_saved_y = 0, vc_iscolor = False, vc_kbdapplic = 0, vc_kbdleds = 2, vc_kbdmode = 0, vc_translate = 0\<rparr>"

definition console_example :: "u8 list \<Rightarrow> console" where
  "console_example cs = ttys.extend
     (serial_example\<lparr>tty_table := (\<lambda>i. init_tty 1040 serial_termios \<lparr>ws_row = 25, ws_col = 80, ws_xpixel = 0, ws_ypixel = 0\<rparr> CON_WRITE (3 * i)),
        queues := (\<lambda>_. queue_of 0 [])(2080 := queue_of 0 cs)\<rparr>)
     (console.fields (\<lambda>a. ucast a) ((\<lambda>k. vc_example 0x40fa0 0x41f40)(0 := vc_example 0xb8000 0xc0000)) 2 80 25 VIDEO_TYPE_EGAC
        0xb8000 0xc0000 160 0 0x3d4 0x3d5 True (\<lambda>k. if k = 0 then 0x40000 else 0x40fa0) False 0 4000 0 2 0 False (\<lambda>k. 0))"

lemmas console_example_defs = console_example_def ttys.extend_def console.fields_def serial_example_defs kernel_example_def mm.extend_def

lemma console_example_simps [simp]:
  "vc_cons (console_example cs) = (\<lambda>k. vc_example 0x40fa0 0x41f40)(0 := vc_example 0xb8000 0xc0000)"
  "tty_table (console_example cs) = (\<lambda>i. init_tty 1040 serial_termios \<lparr>ws_row = 25, ws_col = 80, ws_xpixel = 0, ws_ypixel = 0\<rparr> CON_WRITE (3 * i))"
  "queues (console_example cs) = (\<lambda>_. queue_of 0 [])(2080 := queue_of 0 cs)" "vmem (console_example cs) = (\<lambda>a. ucast a)"
  "video_num_columns (console_example cs) = 80" "video_num_lines (console_example cs) = 25" "video_size_row (console_example cs) = 160"
  "NR_CONSOLES (console_example cs) = 2" "fg_console (console_example cs) = 0" "video_mem_base (console_example cs) = 0xb8000"
  "video_mem_term (console_example cs) = 0xc0000" "screen_size (console_example cs) = 4000" "screen_lock (console_example cs) = False"
  "vc_scrbuf (console_example cs) = (\<lambda>k. if k = 0 then 0x40000 else 0x40fa0)"
  by (simp_all add: console_example_defs)

lemma console_example_ok: "screen_ok 0 (console_example cs)"
  by (simp add: screen_ok_def geometry_def good_def vc_example_def)


theorem con_prints_witness:
  "\<exists>u. con_write (\<lambda>_ _. 0) (\<lambda>_ _ _. None) 0 (console_example [104, 105]) = Some u \<and>
    vmem u 0xb80a8 = 104 \<and> vmem u 0xb80aa = 105 \<and> vmem u 0xb80ab = 7 \<and> vc_x (vc_cons u 0) = 6"
proof -
  let ?s = "console_example [104, 105]"
  have q: "tt_write_q (tty_table ?s 0) = 2080" "q_ok (queues ?s 2080)" "q_list (queues ?s 2080) = [104, 105]"
    "\<forall>c \<in> set [104, 105]. printable c"
    by (simp_all add: init_tty_def queue_at_def queue_of_list printable_def)
  have s: "vc_state (vc_cons ?s 0) = ESnormal" "\<not> tt_stopped (tty_table ?s 0)" "(0 :: nat) < MAX_CONSOLES"
    "unat (vc_x (vc_cons ?s 0)) + length [104, 105 :: u8] \<le> unat (video_num_columns ?s)"
    by (simp_all add: init_tty_def vc_example_def MAX_CONSOLES_def)
  obtain u where u: "con_write (\<lambda>_ _. 0) (\<lambda>_ _ _. None) 0 ?s = Some u" "unat (vc_x (vc_cons u 0)) = 6"
    "\<forall>k < 2. vmem u (0xb80a8 + of_nat (2 * k)) = glyph (vc_example 0xb8000 0xc0000) ([104, 105] ! k) \<and>
       vmem u (0xb80a8 + of_nat (2 * k) + 1) = 7"
    using con_prints [OF console_example_ok s(1-3) q s(4), of "\<lambda>_ _. 0" "\<lambda>_ _ _. None"] by (auto simp: vc_example_def)
  have "glyph (vc_example 0xb8000 0xc0000) 104 = 104" "glyph (vc_example 0xb8000 0xc0000) 105 = 105"
    by (simp_all add: glyph_def vc_example_def trans_table_def NORM_TRANS_def)
  then show ?thesis
    using u(1) u(3) [rule_format, of 0] u(3) [rule_format, of 1] u(2)
    by (auto simp: word_unat_eq_iff)
qed

theorem cursor_address_witness:
  "\<exists>u. con_chars (\<lambda>_ _. 0) (\<lambda>_ _ _. None) 0 7 (console_example [27, 91, 49, 50, 59, 53, 72]) = Some u \<and>
    vc_x (vc_cons u 0) = 4 \<and> vc_y (vc_cons u 0) = 11"
proof -
  let ?s = "console_example ([27, 91] @ [49, 50] @ [59] @ [53] @ [72])"
  have "pending_text 0 2080 ([27, 91] @ [49, 50] @ [59] @ [53] @ [72]) ?s" "vc_state (vc_cons ?s 0) = ESnormal"
    "\<forall>c \<in> set ([49, 50] @ [53]). digit c"
    by (simp_all add: pending_text_def init_tty_def queue_at_def queue_of_list vc_example_def digit_def)
  moreover have "from_one (number [49, 50]) = 11" "from_one (number [53]) = 4"
    by (simp_all add: from_one_def number_def add_digit_def)
  ultimately show ?thesis
    using cursor_address [of 0 2080 "[49, 50]" "[53]" ?s "\<lambda>_ _. 0" "\<lambda>_ _ _. None"] by auto
qed

end
