(* ===== verification/Switch.thy ===== *)
theory Switch
  imports Screens
begin

text \<open>
  The screens of the consoles as a whole: every console has a part of the memory of its own, one of
  them the video memory. \<open>con_init\<close> sets them up so, and switching to another console moves the
  contents between the parts without changing what any console shows.
\<close>

section \<open>After start-up\<close>

lemma good_start:
  assumes "unat a + L * (2 * C) \<le> unat e" "unat e < 2 ^ 31" "unat E = unat a + L * (2 * C)" "unat x \<le> C" "unat y < L"
    "unat p = unat a + unat y * (2 * C) + 2 * unat x" "unat b = L" "0 < L"
  shows "good C L (c\<lparr>vc_origin := a, vc_video_mem_start := a, vc_scr_end := E, vc_video_mem_end := e, vc_top := 0, vc_bottom := b,
    vc_x := x, vc_y := y, vc_pos := p\<rparr>)"
  using assms by (simp add: good_def)

text \<open>The variables that the displays of \<open>find_display\<close> give the memory's bounds.\<close>

lemma find_display_ok:
  assumes "find_display s = (d, u)"
  shows "unat (video_mem_term u) - unat (video_mem_base u) \<ge> 0x2000" "unat (video_mem_base u) \<ge> 0xb0000"
    "unat (video_mem_term u) \<le> 0xc0000" "vc_cons u = vc_cons s" "video_num_columns u = video_num_columns s"
    "video_num_lines u = video_num_lines s" "video_size_row u = video_size_row s" "fg_console u = fg_console s"
  using assms by (auto simp: find_display_def Let_def split: if_splits)

text \<open>Screen \<open>k\<close> of the buffer.\<close>

definition buffer_window :: "u32 \<Rightarrow> u32 \<Rightarrow> nat \<Rightarrow> vc_data \<Rightarrow> bool" where
  "buffer_window buf sz k c \<longleftrightarrow> unat (vc_video_mem_start c) = unat buf + k * unat sz \<and>
     unat (vc_video_mem_end c) = unat buf + (k + 1) * unat sz"

lemma next_console_ok:
  assumes g: "geometry s" "unat sz = unat (video_num_lines s) * (2 * unat (video_num_columns s))" "0 < unat (video_num_lines s)"
    and c: "vc_top (vc_cons s 0) = 0" "vc_bottom (vc_cons s 0) = video_num_lines s"
    and m: "unat buf + (k + 1) * unat sz < 2 ^ 31" "sz = video_num_lines s * video_size_row s"
  defines "u \<equiv> next_console buf sz k s"
  shows "good (unat (video_num_columns s)) (unat (video_num_lines s)) (vc_cons u k)" "buffer_window buf sz k (vc_cons u k)"
    "\<And>j. j \<noteq> k \<Longrightarrow> vc_cons u j = vc_cons s j" "video_num_columns u = video_num_columns s" "video_num_lines u = video_num_lines s"
    "video_size_row u = video_size_row s" "vmem u = vmem s" "NR_CONSOLES u = NR_CONSOLES s" "fg_console u = fg_console s"
    "video_mem_base u = video_mem_base s" "video_mem_term u = video_mem_term s" "screen_size u = screen_size s"
proof -
  let ?a = "buf + of_nat k * sz"
  have "0 < unat sz"
    using g by (simp add: geometry_def)
  then have "k \<le> k * unat sz"
    by simp
  moreover have ks: "k * unat sz < 2 ^ 31"
    using m(1) unfolding add_mult_distrib by linarith
  ultimately have "k < 2 ^ 31"
    by (rule le_less_trans)
  then have "unat (of_nat k :: u32) = k"
    by (simp add: unat_of_nat)
  with ks have "unat (of_nat k * sz :: u32) = k * unat sz"
    by (subst unat_mul) simp_all
  then have a: "unat ?a = unat buf + k * unat sz"
    using m(1) by (subst unat_add) (simp_all add: add_mult_distrib)
  then have e: "unat (?a + sz) = unat buf + (k + 1) * unat sz"
    using m(1) by (subst unat_add) (simp_all add: add_mult_distrib)
  have not: "\<not> (0 > video_num_columns s \<or> 0 \<ge> video_num_lines s)"
    using g(3) by (simp add: word_le_nat_alt)
  have vc: "vc_cons u k = (vc_cons s 0)\<lparr>vc_origin := ?a, vc_video_mem_start := ?a, vc_scr_end := ?a + sz, vc_video_mem_end := ?a + sz,
      vc_x := 0, vc_y := 0, vc_pos := ?a\<rparr>"
    using not m(2) by (simp add: u_def next_console_def gotoxy_def Let_def shl1_def)
  show "good (unat (video_num_columns s)) (unat (video_num_lines s)) (vc_cons u k)"
    using a e g m(1) c by (simp add: vc good_def add_mult_distrib)
  show "buffer_window buf sz k (vc_cons u k)"
    using a e by (simp add: vc buffer_window_def)
  show "\<And>j. j \<noteq> k \<Longrightarrow> vc_cons u j = vc_cons s j" "video_num_columns u = video_num_columns s" "video_num_lines u = video_num_lines s"
    "video_size_row u = video_size_row s" "vmem u = vmem s" "NR_CONSOLES u = NR_CONSOLES s" "fg_console u = fg_console s"
    "video_mem_base u = video_mem_base s" "video_mem_term u = video_mem_term s" "screen_size u = screen_size s"
    by (simp_all add: u_def next_console_def gotoxy_def Let_def upd_vc_def)
qed

lemma next_consoles_ok:
  assumes g: "geometry s" "unat sz = unat (video_num_lines s) * (2 * unat (video_num_columns s))" "0 < unat (video_num_lines s)"
    and c: "vc_top (vc_cons s 0) = 0" "vc_bottom (vc_cons s 0) = video_num_lines s"
    and m: "unat buf + n * unat sz < 2 ^ 31" "sz = video_num_lines s * video_size_row s"
  defines "u \<equiv> fold (next_console buf sz) [1..<n] s"
  shows "(\<forall>k. 1 \<le> k \<and> k < n \<longrightarrow> good (unat (video_num_columns s)) (unat (video_num_lines s)) (vc_cons u k) \<and>
      buffer_window buf sz k (vc_cons u k)) \<and> vc_cons u 0 = vc_cons s 0 \<and> video_num_columns u = video_num_columns s \<and>
    video_num_lines u = video_num_lines s \<and> video_size_row u = video_size_row s \<and> NR_CONSOLES u = NR_CONSOLES s \<and>
    fg_console u = fg_console s \<and> video_mem_base u = video_mem_base s \<and> video_mem_term u = video_mem_term s \<and>
    screen_size u = screen_size s"
  using m(1) unfolding u_def
proof (induction n)
  case (Suc n)
  show ?case
  proof (cases "n = 0")
    case False
    let ?v = "fold (next_console buf sz) [1..<n] s"
    have "unat buf + n * unat sz < 2 ^ 31"
      using Suc.prems by simp
    note IH = Suc.IH [OF this]
    have v: "geometry ?v" "unat sz = unat (video_num_lines ?v) * (2 * unat (video_num_columns ?v))" "0 < unat (video_num_lines ?v)"
      "vc_top (vc_cons ?v 0) = 0" "vc_bottom (vc_cons ?v 0) = video_num_lines ?v" "unat buf + (n + 1) * unat sz < 2 ^ 31"
      "sz = video_num_lines ?v * video_size_row ?v"
      using IH g c m(2) Suc.prems by (simp_all add: geometry_def)
    note step = next_console_ok [OF v]
    have "fold (next_console buf sz) [1..<Suc n] s = next_console buf sz n ?v"
      using False by simp
    then show ?thesis
      using IH step False by (auto simp: less_Suc_eq)
  qed simp
qed simp

lemma find_screen_ok:
  shows "unat (video_mem_term (find_screen s)) - unat (video_mem_base (find_screen s)) \<ge> 0x2000"
    "unat (video_mem_base (find_screen s)) \<ge> 0xb0000" "unat (video_mem_term (find_screen s)) \<le> 0xc0000"
    "unat (video_num_columns (find_screen s)) = unat (ORIG_VIDEO_COLS s)" "unat (video_num_lines (find_screen s)) = unat (ORIG_VIDEO_LINES s)"
    "unat (video_size_row (find_screen s)) = 2 * unat (ORIG_VIDEO_COLS s)" "fg_console (find_screen s) = fg_console s"
    "vc_x (vc_cons (find_screen s) 0) = vc_x (vc_cons s 0)" "vc_y (vc_cons (find_screen s) 0) = vc_y (vc_cons s 0)"
proof -
  have "\<exists>t. find_screen s = (case find_display t of (desc, s) \<Rightarrow> upd_vmem (put_name (video_mem_base s + video_size_row s - 8) desc) s) \<and>
    video_num_columns t = ucast (ORIG_VIDEO_COLS s) \<and> video_size_row t = ucast (ORIG_VIDEO_COLS s) * 2 \<and>
    video_num_lines t = ucast (ORIG_VIDEO_LINES s) \<and> fg_console t = fg_console s \<and>
    vc_x (vc_cons t 0) = vc_x (vc_cons s 0) \<and> vc_y (vc_cons t 0) = vc_y (vc_cons s 0)"
    unfolding find_screen_def Let_def by (intro exI conjI, rule refl) (simp_all add: upd_vc_def)
  then obtain t where t: "video_num_columns t = ucast (ORIG_VIDEO_COLS s)" "video_size_row t = ucast (ORIG_VIDEO_COLS s) * 2"
    "video_num_lines t = ucast (ORIG_VIDEO_LINES s)" "fg_console t = fg_console s"
    "find_screen s = (case find_display t of (desc, s) \<Rightarrow> upd_vmem (put_name (video_mem_base s + video_size_row s - 8) desc) s)"
    "vc_x (vc_cons t 0) = vc_x (vc_cons s 0)" "vc_y (vc_cons t 0) = vc_y (vc_cons s 0)"
    by blast
  obtain d u where u: "find_display t = (d, u)"
    by fastforce
  have v: "find_screen s = upd_vmem (put_name (video_mem_base u + video_size_row u - 8) d) u"
    by (simp add: t(5) u)
  have b: "unat w < 2 ^ 32" if "w = ORIG_VIDEO_COLS s \<or> w = ORIG_VIDEO_LINES s" for w :: u16
    using unsigned_less [of w, where ?'a = nat] by simp
  have "unat (ORIG_VIDEO_COLS s) < 2 ^ 16"
    using unsigned_less [of "ORIG_VIDEO_COLS s", where ?'a = nat] by simp
  then have "unat (ucast (ORIG_VIDEO_COLS s) * 2 :: u32) = 2 * unat (ORIG_VIDEO_COLS s)"
    by (subst unat_mul) (simp_all add: unsigned_ucast_eq take_bit_nat_eq_self)
  then show "unat (video_mem_term (find_screen s)) - unat (video_mem_base (find_screen s)) \<ge> 0x2000"
    "unat (video_mem_base (find_screen s)) \<ge> 0xb0000" "unat (video_mem_term (find_screen s)) \<le> 0xc0000"
    "unat (video_num_columns (find_screen s)) = unat (ORIG_VIDEO_COLS s)" "unat (video_num_lines (find_screen s)) = unat (ORIG_VIDEO_LINES s)"
    "unat (video_size_row (find_screen s)) = 2 * unat (ORIG_VIDEO_COLS s)" "fg_console (find_screen s) = fg_console s"
      "vc_x (vc_cons (find_screen s) 0) = vc_x (vc_cons s 0)" "vc_y (vc_cons (find_screen s) 0) = vc_y (vc_cons s 0)"
    using find_display_ok [OF u] t(1-4) t(6,7) b by (simp_all add: v unsigned_ucast_eq take_bit_nat_eq_self upd_vmem_def)
qed

lemma first_console_ok:
  fixes s :: "'a console_scheme" and x y buf sz :: u32
  defines "u \<equiv> gotoxy 0 x y (first_console buf sz s)"
  shows "unat (vc_x (vc_cons s 0)) \<le> unat (video_num_columns s) \<Longrightarrow> unat (vc_x (vc_cons u 0)) \<le> unat (video_num_columns s)"
    "unat (vc_y (vc_cons s 0)) < unat (video_num_lines s) \<Longrightarrow> unat (vc_y (vc_cons u 0)) < unat (video_num_lines s)"
    "vc_top (vc_cons u 0) = 0" "vc_bottom (vc_cons u 0) = video_num_lines s" "video_num_columns u = video_num_columns s"
    "video_num_lines u = video_num_lines s" "video_size_row u = video_size_row s" "NR_CONSOLES u = NR_CONSOLES s"
    "fg_console u = fg_console s" "video_mem_base u = video_mem_base s" "video_mem_term u = video_mem_term s"
    "screen_size u = screen_size s" "vc_origin (vc_cons u 0) = buf"
  by (simp_all add: u_def gotoxy_def first_console_def upd_vc_def word_le_nat_alt word_less_nat_alt)

lemma make_consoles_ok:
  fixes s :: "'a console_scheme" and buf :: u32
  assumes g: "geometry s" "0 < unat (video_num_lines s)"
    and x: "unat (vc_x (vc_cons s 0)) \<le> unat (video_num_columns s)" "unat (vc_y (vc_cons s 0)) < unat (video_num_lines s)"
    and m: "unat (video_num_lines s) * (2 * unat (video_num_columns s)) \<le> 0x2000" "unat buf + 64000 < 2 ^ 31"
  defines "u \<equiv> make_consoles buf s" and "screen \<equiv> unat (video_num_lines s) * (2 * unat (video_num_columns s))"
  shows "NR_CONSOLES u = min MAX_CONSOLES (64000 div screen) \<and>
    (\<forall>k. 1 \<le> k \<and> k < NR_CONSOLES u \<longrightarrow> good (unat (video_num_columns s)) (unat (video_num_lines s)) (vc_cons u k) \<and>
      unat (vc_video_mem_start (vc_cons u k)) = unat buf + k * screen \<and> unat (vc_video_mem_end (vc_cons u k)) = unat buf + (k + 1) * screen) \<and>
    unat (vc_x (vc_cons u 0)) \<le> unat (video_num_columns s) \<and> unat (vc_y (vc_cons u 0)) < unat (video_num_lines s) \<and>
    video_num_columns u = video_num_columns s \<and> video_num_lines u = video_num_lines s \<and> video_size_row u = video_size_row s \<and>
    video_mem_base u = video_mem_base s \<and> video_mem_term u = video_mem_term s \<and> unat (screen_size u) = screen \<and>
    fg_console u = fg_console s \<and> vc_origin (vc_cons u 0) = buf \<and> (\<forall>k < NR_CONSOLES u. vc_scrbuf u k = vc_origin (vc_cons u k))"
proof -
  let ?sz = "video_num_lines s * video_size_row s"
  have sz: "unat ?sz = screen"
    using g m(1) by (subst unat_mul) (simp_all add: geometry_def screen_def)
  have pos: "0 < screen"
    using g by (simp add: screen_def geometry_def)
  let ?n = "min MAX_CONSOLES (64000 div screen)"
  have "0x2000 div screen \<le> 64000 div screen"
    by (rule div_le_mono) simp
  moreover have "1 \<le> 0x2000 div screen"
    using pos m(1) by (simp add: screen_def [symmetric] Suc_le_eq div_greater_zero_iff)
  ultimately have n1: "1 \<le> ?n"
    by (simp add: MAX_CONSOLES_def)
  have n: "unat (MEM_BUFFER_SIZE div ?sz) = 64000 div screen"
    by (simp add: unat_div_distrib MEM_BUFFER_SIZE_def) (simp add: sz)
  let ?w = "upd_vmem (memsetw buf (vc_video_erase_char (vc_cons s 0)) (MEM_BUFFER_SIZE div 2)) s"
  have w: "video_num_lines ?w = video_num_lines s" "video_size_row ?w = video_size_row s"
    by (simp_all add: upd_vmem_def)
  let ?t = "?w\<lparr>screen_size := ?sz, NR_CONSOLES := ?n\<rparr>"
  let ?g = "gotoxy 0 (ORIG_X ?t) (ORIG_Y ?t) (first_console buf ?sz ?t)"
  let ?f = "fold (next_console buf ?sz) [1..<?n] ?g"
  have nr: "(if (if unat (MEM_BUFFER_SIZE div ?sz) > MAX_CONSOLES then MAX_CONSOLES else unat (MEM_BUFFER_SIZE div ?sz)) = 0 then 1
      else if unat (MEM_BUFFER_SIZE div ?sz) > MAX_CONSOLES then MAX_CONSOLES else unat (MEM_BUFFER_SIZE div ?sz)) = ?n"
    using n1 by (auto simp: n min_def MAX_CONSOLES_def)
  note first = first_console_ok [where s = ?t and x = "ORIG_X ?t" and y = "ORIG_Y ?t" and buf = buf and sz = ?sz]
  have t: "vc_cons ?t = vc_cons s" "video_num_columns ?t = video_num_columns s" "video_num_lines ?t = video_num_lines s"
    "video_size_row ?t = video_size_row s" "NR_CONSOLES ?t = ?n" "fg_console ?t = fg_console s" "video_mem_base ?t = video_mem_base s"
    "video_mem_term ?t = video_mem_term s" "screen_size ?t = ?sz"
    by (simp_all add: upd_vmem_def)
  have u: "u = ?f\<lparr>vc_scrbuf := (\<lambda>k. if k < NR_CONSOLES ?f then vc_origin (vc_cons ?f k) else vc_scrbuf ?f k)\<rparr>"
    unfolding u_def make_consoles_def Let_def by (simp only: w nr first(8) t)
  have "?n * screen \<le> 64000 div screen * screen"
    by (rule mult_le_mono1) simp
  also have "\<dots> \<le> 64000"
    by (rule div_times_less_eq_dividend)
  finally have "unat buf + ?n * unat ?sz < 2 ^ 31"
    using m(2) sz by simp
  then have mem: "unat buf + ?n * unat ?sz < 2 ^ 31" .
  define G where "G = ?g"
  define n where "n = ?n"
  note first = first [folded G_def, unfolded t, folded n_def]
  define F where "F = fold (next_console buf ?sz) [1..<n] G"
  have u: "u = F\<lparr>vc_scrbuf := (\<lambda>k. if k < NR_CONSOLES F then vc_origin (vc_cons F k) else vc_scrbuf F k)\<rparr>"
    using u by (simp only: F_def G_def n_def)
  have fg: "unat ?sz = unat (video_num_lines G) * (2 * unat (video_num_columns G))" "geometry G" "0 < unat (video_num_lines G)"
    "?sz = video_num_lines G * video_size_row G" "vc_bottom (vc_cons G 0) = video_num_lines G"
    using g sz by (simp_all only: first geometry_def screen_def)
  have "(\<forall>k. 1 \<le> k \<and> k < n \<longrightarrow> good (unat (video_num_columns G)) (unat (video_num_lines G)) (vc_cons F k) \<and>
      buffer_window buf ?sz k (vc_cons F k)) \<and> vc_cons F 0 = vc_cons G 0 \<and> video_num_columns F = video_num_columns G \<and>
    video_num_lines F = video_num_lines G \<and> video_size_row F = video_size_row G \<and> NR_CONSOLES F = NR_CONSOLES G \<and>
    fg_console F = fg_console G \<and> video_mem_base F = video_mem_base G \<and> video_mem_term F = video_mem_term G \<and>
    screen_size F = screen_size G"
    unfolding F_def by (rule next_consoles_ok [OF fg(2,1,3) first(3) fg(5) _ fg(4)]) (simp only: n_def mem)
  then show ?thesis
    using first sz x unfolding u by (simp add: buffer_window_def n_def)
qed

lemma good_at_window:
  fixes s :: "'a console_scheme" and a e :: u32
  defines "C \<equiv> unat (video_num_columns s)" and "L \<equiv> unat (video_num_lines s)"
  assumes g: "geometry s" "unat (screen_size s) = L * (2 * C)"
    and c: "unat (vc_x (vc_cons s i)) \<le> C" "unat (vc_y (vc_cons s i)) < L"
    and m: "unat a + L * (2 * C) \<le> unat e" "unat e < 2 ^ 31"
  shows "good C L (vc_cons (at_window i a e s) i)"
proof -
  let ?c = "vc_cons s i"
  have b: "unat (vc_y ?c) * (2 * C) + 2 * unat (vc_x ?c) \<le> L * (2 * C)"
    using c by (intro cell_bound)
  have y: "unat (vc_y ?c * video_size_row s) = unat (vc_y ?c) * (2 * C)"
  proof -
    have r: "unat (video_size_row s) = 2 * C"
      using g by (simp add: geometry_def C_def)
    have "unat (vc_y ?c) * unat (video_size_row s) < 2 ^ 32"
      unfolding r using b m power_strict_increasing [of 31 32 "2 :: nat"] by linarith
    then show ?thesis
      by (simp only: unat_mul r)
  qed
  have x: "unat (shl1 (vc_x ?c)) = 2 * unat (vc_x ?c)"
    using b m by (intro unat_shl1) simp
  have ay: "unat (a + vc_y ?c * video_size_row s) = unat a + unat (vc_y ?c) * (2 * C)"
    using b m y by (subst unat_add) simp_all
  have "unat (a + vc_y ?c * video_size_row s + shl1 (vc_x ?c)) = unat a + unat (vc_y ?c) * (2 * C) + 2 * unat (vc_x ?c)"
    using b m x ay by (subst unat_add) simp_all
  moreover have "unat (a + screen_size s) = unat a + L * (2 * C)"
    using g(2) m by (subst unat_add) simp_all
  ultimately show ?thesis
    using c m by (simp add: at_window_def upd_vc_def good_def L_def)
qed

lemma at_window_fields [simp]:
  "video_num_columns (at_window i a e s) = video_num_columns s" "video_num_lines (at_window i a e s) = video_num_lines s"
  "video_size_row (at_window i a e s) = video_size_row s" "NR_CONSOLES (at_window i a e s) = NR_CONSOLES s"
  "fg_console (at_window i a e s) = fg_console s" "video_mem_base (at_window i a e s) = video_mem_base s"
  "video_mem_term (at_window i a e s) = video_mem_term s" "screen_size (at_window i a e s) = screen_size s"
  "vc_scrbuf (at_window i a e s) = vc_scrbuf s" "vmem (at_window i a e s) = vmem s" "screen_lock (at_window i a e s) = screen_lock s"
  "j \<noteq> i \<Longrightarrow> vc_cons (at_window i a e s) j = vc_cons s j" "vc_video_mem_start (vc_cons (at_window i a e s) i) = a"
  "vc_video_mem_end (vc_cons (at_window i a e s) i) = e" "vc_origin (vc_cons (at_window i a e s) i) = a"
  "vc_x (vc_cons (at_window i a e s) j) = vc_x (vc_cons s j)" "vc_y (vc_cons (at_window i a e s) j) = vc_y (vc_cons s j)"
  by (simp_all add: at_window_def upd_vc_def)

definition apart :: "u32 \<times> u32 \<Rightarrow> u32 \<times> u32 \<Rightarrow> bool" where
  "apart v w \<longleftrightarrow> unat (snd v) \<le> unat (fst w) \<or> unat (snd w) \<le> unat (fst v)"

definition window :: "nat \<Rightarrow> 'a console_scheme \<Rightarrow> u32 \<times> u32" where
  "window i s = (vc_video_mem_start (vc_cons s i), vc_video_mem_end (vc_cons s i))"

definition video :: "'a console_scheme \<Rightarrow> u32 \<times> u32" where
  "video s = (video_mem_base s, video_mem_term s)"

definition buffer :: "nat \<Rightarrow> 'a console_scheme \<Rightarrow> u32 \<times> u32" where
  "buffer i s = (vc_scrbuf s i, vc_scrbuf s i + screen_size s)"

text \<open>
  Console \<open>v\<close>, if any, has the video memory, each other its buffer; all of these are apart.
\<close>

definition placed :: "nat option \<Rightarrow> 'a console_scheme \<Rightarrow> bool" where
  "placed v s \<longleftrightarrow> geometry s \<and>
     unat (screen_size s) = unat (video_num_lines s) * (2 * unat (video_num_columns s)) \<and>
     unat (video_mem_base s) + unat (screen_size s) \<le> unat (video_mem_term s) \<and> unat (video_mem_term s) < 2 ^ 31 \<and>
     (\<forall>i < NR_CONSOLES s. screen_ok i s \<and> window i s = (if v = Some i then video s else buffer i s) \<and>
        apart (buffer i s) (video s) \<and> unat (vc_scrbuf s i) + unat (screen_size s) < 2 ^ 31 \<and>
        (\<forall>j < NR_CONSOLES s. j \<noteq> i \<longrightarrow> apart (buffer i s) (buffer j s)))"

definition screens_ok :: "'a console_scheme \<Rightarrow> bool" where
  "screens_ok s \<longleftrightarrow> placed (Some (fg_console s)) s \<and> fg_console s < NR_CONSOLES s"

lemma placedD:
  assumes "placed v s"
  shows "geometry s" "unat (screen_size s) = unat (video_num_lines s) * (2 * unat (video_num_columns s))"
    "unat (video_mem_base s) + unat (screen_size s) \<le> unat (video_mem_term s)" "unat (video_mem_term s) < 2 ^ 31"
    "i < NR_CONSOLES s \<Longrightarrow> screen_ok i s" "i < NR_CONSOLES s \<Longrightarrow> window i s = (if v = Some i then video s else buffer i s)"
    "i < NR_CONSOLES s \<Longrightarrow> apart (buffer i s) (video s)" "i < NR_CONSOLES s \<Longrightarrow> unat (vc_scrbuf s i) + unat (screen_size s) < 2 ^ 31"
    "i < NR_CONSOLES s \<Longrightarrow> j < NR_CONSOLES s \<Longrightarrow> j \<noteq> i \<Longrightarrow> apart (buffer i s) (buffer j s)"
  using assms unfolding placed_def by blast+

lemma screens_ok_port [simp]: "screens_ok (s\<lparr>port_out := p\<rparr>) \<longleftrightarrow> screens_ok s"
  by (simp add: screens_ok_def placed_def screen_ok_def geometry_def window_def video_def buffer_def)

text \<open>
  C34.
  After \<open>con_init\<close>, with room for a screen in the video memory and the buffer of the screens below it,
  there are as many consoles as screens fit in the buffer, at most eight; the cursor of each is on its
  screen, and each has a part of the memory apart from those of the others.
\<close>

theorem consoles_start:
  fixes buf :: u32
  assumes "8 \<le> unat (ORIG_VIDEO_COLS s)" "0 < unat (ORIG_VIDEO_LINES s)"
    and m: "unat (ORIG_VIDEO_LINES s) * (2 * unat (ORIG_VIDEO_COLS s)) \<le> 0x2000" "unat buf + 64000 \<le> 0xb0000"
    and z: "vc_x (vc_cons s 0) = 0" "vc_y (vc_cons s 0) = 0" "fg_console s = 0"
  defines "screen \<equiv> unat (ORIG_VIDEO_LINES s) * (2 * unat (ORIG_VIDEO_COLS s))"
  shows "NR_CONSOLES (con_init inb buf s) = min MAX_CONSOLES (64000 div screen) \<and> screens_ok (con_init inb buf s)"
proof -
  let ?s = "find_screen s"
  note fs = find_screen_ok [of s]
  define u where "u = make_consoles buf ?s"
  have g: "geometry ?s" "0 < unat (video_num_lines ?s)" "unat (video_num_lines ?s) * (2 * unat (video_num_columns ?s)) = screen"
    using assms(1,2) fs by (simp_all add: geometry_def screen_def)
  have x: "unat (vc_x (vc_cons ?s 0)) \<le> unat (video_num_columns ?s)" "unat (vc_y (vc_cons ?s 0)) < unat (video_num_lines ?s)"
    using z fs g(2) by simp_all
  have m31: "unat buf + 64000 < 2 ^ 31" "screen \<le> 0x2000"
    using m by (simp_all add: screen_def)
  note mk = make_consoles_ok [OF g(1,2) x _ m31(1), unfolded g(3), OF m31(2), folded u_def]
  define w where "w = at_window 0 (video_mem_base u) (video_mem_term u) u"
  have "\<exists>p. con_init inb buf s = w\<lparr>port_out := p\<rparr>"
    unfolding con_init_def Let_def u_def [symmetric] w_def [symmetric] by (simp add: update_screen_def outb_def) blast
  then obtain p where p: "con_init inb buf s = w\<lparr>port_out := p\<rparr>"
    by blast
  have n: "NR_CONSOLES u = min MAX_CONSOLES (64000 div screen)"
    using mk by blast
  have fg: "fg_console u = 0" "unat (screen_size u) = screen"
    using mk fs z by simp_all
  have pos: "0 < screen"
    using g by (auto simp: geometry_def)
  have "0x2000 div screen \<le> 64000 div screen" "1 \<le> 0x2000 div screen"
    using pos m31(2) by (simp_all add: div_le_mono Suc_le_eq div_greater_zero_iff)
  then have n1: "0 < NR_CONSOLES u"
    by (simp add: n MAX_CONSOLES_def)
  have fit: "unat buf + (i + 1) * screen \<le> 0xb0000" if "i < NR_CONSOLES u" for i
  proof -
    have "(i + 1) * screen \<le> 64000 div screen * screen"
      using that n by (intro mult_le_mono1) simp
    also have "\<dots> \<le> 64000"
      by (rule div_times_less_eq_dividend)
    finally show ?thesis
      using m(2) by simp
  qed
  have good: "good (unat (video_num_columns u)) (unat (video_num_lines u)) (vc_cons u i)"
    "unat (vc_video_mem_start (vc_cons u i)) = unat buf + i * screen" "unat (vc_video_mem_end (vc_cons u i)) = unat buf + (i + 1) * screen"
    if "i < NR_CONSOLES u" "i \<noteq> 0" for i
    using mk that by (simp_all add: Suc_le_eq)
  have scr: "unat (vc_scrbuf u i) = unat buf + i * screen" if "i < NR_CONSOLES u" for i
  proof (cases "i = 0")
    case False
    have "unat (vc_origin (vc_cons u i)) = unat buf + i * screen"
      using good [OF that False] mk g(3) by (simp add: good_def)
    then show ?thesis
      using mk that by simp
  qed (use mk that in simp)
  have e: "unat (vc_scrbuf u i + screen_size u) = unat buf + (i + 1) * screen" if "i < NR_CONSOLES u" for i
    using fit [OF that] scr [OF that] fg(2) by (subst unat_add) (simp_all add: add_mult_distrib)
  have win: "window i u = buffer i u" if "i < NR_CONSOLES u" "i \<noteq> 0" for i
    using good [OF that] scr [OF that(1)] e [OF that(1)] by (simp add: window_def buffer_def word_unat_eq_iff)
  have step: "i * screen + screen \<le> j * screen" if "i < j" for i j
    using mult_le_mono1 [of "Suc i" j screen] that by simp
  have g0: "good (unat (video_num_columns u)) (unat (video_num_lines u)) (vc_cons w 0)"
    unfolding w_def using mk fs m m31 g z by (intro good_at_window) (simp_all add: geometry_def)
  have ap: "apart (buffer i u) (buffer j u)" if "i < NR_CONSOLES u" "j < NR_CONSOLES u" "i < j" for i j
    using that scr e step [of i j] by (simp add: apart_def buffer_def)
  have dims: "geometry w" "unat (screen_size w) = unat (video_num_lines w) * (2 * unat (video_num_columns w))"
    "unat (video_mem_base w) + screen \<le> unat (video_mem_term w)" "unat (video_mem_term w) < 2 ^ 31" "0xb0000 \<le> unat (video_mem_base w)"
    using mk fs g m31 by (simp_all add: geometry_def w_def)
  have "screen_ok i w \<and> window i w = (if Some (fg_console w) = Some i then video w else buffer i w) \<and>
      apart (buffer i w) (video w) \<and> unat (vc_scrbuf w i) + unat (screen_size w) < 2 ^ 31 \<and>
      (\<forall>j < NR_CONSOLES w. j \<noteq> i \<longrightarrow> apart (buffer i w) (buffer j w))" if i: "i < NR_CONSOLES w" for i
  proof (intro conjI allI impI)
    have i': "i < NR_CONSOLES u"
      using i by (simp add: w_def)
    show "screen_ok i w"
      using g0 good(1) [OF i'] dims(1) by (cases "i = 0") (simp_all add: screen_ok_def w_def)
    show "window i w = (if Some (fg_console w) = Some i then video w else buffer i w)"
      using win [OF i'] fg(1) by (simp add: w_def window_def video_def buffer_def)
    show "apart (buffer i w) (video w)"
      using e [OF i'] fit [OF i'] dims(5) by (simp add: apart_def buffer_def video_def w_def)
    show "unat (vc_scrbuf w i) + unat (screen_size w) < 2 ^ 31"
      using scr [OF i'] fit [OF i'] fg(2) by (simp add: w_def)
    show "apart (buffer i w) (buffer j w)" if "j < NR_CONSOLES w" "j \<noteq> i" for j
    proof -
      have "buffer k w = buffer k u" for k
        by (simp add: buffer_def w_def)
      then show ?thesis
        using ap [of i j] ap [of j i] i' that by (cases "i < j") (auto simp: apart_def w_def)
    qed
  qed
  moreover have "fg_console w < NR_CONSOLES w"
    using n1 fg(1) by (simp add: w_def)
  ultimately have "screens_ok w"
    unfolding screens_ok_def placed_def using dims fg(2) by (auto simp: w_def)
  then show ?thesis
    unfolding p using n by (simp add: w_def)
qed

section \<open>Switching\<close>

lemma memcpy_apart:
  assumes "unat src + n \<le> unat dest \<or> unat dest + n \<le> unat src" "unat src + n < 2 ^ 32" "unat dest + n < 2 ^ 32"
  shows "k < n \<Longrightarrow> snd (memcpy dest src (of_nat n) m) (dest + of_nat k) = m (src + of_nat k)"
    "unat a < unat dest \<or> unat dest + n \<le> unat a \<Longrightarrow> snd (memcpy dest src (of_nat n) m) a = m a"
proof -
  have un: "unat (src + of_nat i) = unat src + i" "unat (dest + of_nat i) = unat dest + i" if "i < n" for i
    using that assms by (simp_all add: unat_step)
  have "src + of_nat j \<noteq> dest + of_nat i" if "i < j" "j < n" for i j
    using un(1) [of j] un(2) [of i] that assms(1) by auto
  then have e: "snd (memcpy dest src (of_nat n) m) = write_bytes m dest (map (\<lambda>i. m (src + of_nat i)) [0..<n])"
    using assms(2) by (simp add: memcpy_def movsb_forward)
  show "k < n \<Longrightarrow> snd (memcpy dest src (of_nat n) m) (dest + of_nat k) = m (src + of_nat k)"
    unfolding e using assms(2) by (subst write_bytes_nth) simp_all
  show "unat a < unat dest \<or> unat dest + n \<le> unat a \<Longrightarrow> snd (memcpy dest src (of_nat n) m) a = m a"
    unfolding e using un(2) by (intro write_bytes_other) auto
qed

definition contents :: "nat \<Rightarrow> 'a console_scheme \<Rightarrow> u8 list" where
  "contents i s = map (\<lambda>k. vmem s (vc_origin (vc_cons s i) + of_nat k)) [0..<unat (screen_size s)]"

lemma length_contents: "length (contents i s) = unat (screen_size s)"
  by (simp add: contents_def)

lemma contents_nth: "k < unat (screen_size s) \<Longrightarrow> contents i s ! k = vmem s (vc_origin (vc_cons s i) + of_nat k)"
  by (simp add: contents_def)

lemma contents_eqI:
  assumes "screen_size u = screen_size s"
    and "\<And>k. k < unat (screen_size s) \<Longrightarrow> vmem u (vc_origin (vc_cons u i) + of_nat k) = vmem s (vc_origin (vc_cons s j) + of_nat k)"
  shows "contents i u = contents j s"
  using assms by (simp add: contents_def)

text \<open>Where the screen of console \<open>i\<close> is: in its part of the memory.\<close>

lemma screen_inside:
  assumes "placed v s" "i < NR_CONSOLES s"
  shows "unat (fst (window i s)) \<le> unat (vc_origin (vc_cons s i))"
    "unat (vc_origin (vc_cons s i)) + unat (screen_size s) \<le> unat (snd (window i s))" "unat (snd (window i s)) < 2 ^ 31"
    "v \<noteq> Some i \<Longrightarrow> vc_origin (vc_cons s i) = vc_scrbuf s i"
proof -
  note d = placedD [OF assms(1)]
  have g: "good (unat (video_num_columns s)) (unat (video_num_lines s)) (vc_cons s i)"
    using d(5) [OF assms(2)] by (simp add: screen_ok_def)
  show "unat (fst (window i s)) \<le> unat (vc_origin (vc_cons s i))"
    "unat (vc_origin (vc_cons s i)) + unat (screen_size s) \<le> unat (snd (window i s))" "unat (snd (window i s)) < 2 ^ 31"
    using g d(2) by (simp_all add: good_def window_def)
  show "vc_origin (vc_cons s i) = vc_scrbuf s i" if "v \<noteq> Some i"
  proof -
    have "vc_video_mem_start (vc_cons s i) = vc_scrbuf s i" "vc_video_mem_end (vc_cons s i) = vc_scrbuf s i + screen_size s"
      using d(6) [OF assms(2)] that by (simp_all add: window_def buffer_def)
    moreover have "unat (vc_scrbuf s i + screen_size s) = unat (vc_scrbuf s i) + unat (screen_size s)"
      using d(8) [OF assms(2)] by (intro unat_add) simp
    ultimately show ?thesis
      using g d(2) by (simp add: good_def word_unat_eq_iff)
  qed
qed

text \<open>Moving a screen from one place to another that is apart from it.\<close>

lemma window_apart:
  assumes "placed v s" "i < NR_CONSOLES s" "j < NR_CONSOLES s"
  shows "i \<noteq> j \<Longrightarrow> apart (buffer i s) (window j s)" "v = Some i \<Longrightarrow> apart (buffer i s) (window i s)"
    "v \<noteq> Some j \<Longrightarrow> apart (video s) (window j s)"
  using assms placedD(6,7,9) [OF assms(1)] by (auto simp: apart_def)

lemma upd_vmem_fields [simp]:
  "video_num_columns (upd_vmem f s) = video_num_columns s" "video_num_lines (upd_vmem f s) = video_num_lines s"
  "video_size_row (upd_vmem f s) = video_size_row s" "NR_CONSOLES (upd_vmem f s) = NR_CONSOLES s"
  "fg_console (upd_vmem f s) = fg_console s" "video_mem_base (upd_vmem f s) = video_mem_base s"
  "video_mem_term (upd_vmem f s) = video_mem_term s" "screen_size (upd_vmem f s) = screen_size s"
  "vc_scrbuf (upd_vmem f s) = vc_scrbuf s" "vmem (upd_vmem f s) = f (vmem s)" "vc_cons (upd_vmem f s) = vc_cons s"
  by (simp_all add: upd_vmem_def)

definition move_screen :: "nat \<Rightarrow> u32 \<times> u32 \<Rightarrow> 'a console_scheme \<Rightarrow> 'a console_scheme" where
  "move_screen i w s =
     at_window i (fst w) (snd w) (upd_vmem (\<lambda>m. snd (memcpy (fst w) (vc_origin (vc_cons s i)) (screen_size s) m)) s)"

lemma move_contents:
  fixes s :: "'a console_scheme"
  assumes p: "placed v s" and i: "i < NR_CONSOLES s" "j < NR_CONSOLES s"
    and w: "unat (fst w) + unat (screen_size s) \<le> unat (snd w)" "unat (snd w) < 2 ^ 31" "\<And>j. j < NR_CONSOLES s \<Longrightarrow> apart w (window j s)"
  shows "contents j (move_screen i w s) = contents j s"
proof (rule contents_eqI)
  show "screen_size (move_screen i w s) = screen_size s"
    by (simp add: move_screen_def)
  fix k
  assume k: "k < unat (screen_size s)"
  let ?m = "snd (memcpy (fst w) (vc_origin (vc_cons s i)) (of_nat (unat (screen_size s))) (vmem s))"
  note ij = screen_inside [OF p i(1)] screen_inside [OF p i(2)]
  have m: "vmem (move_screen i w s) = ?m"
    by (simp add: move_screen_def)
  note copy = memcpy_apart [where src = "vc_origin (vc_cons s i)" and n = "unat (screen_size s)" and dest = "fst w"]
  have r: "unat (vc_origin (vc_cons s i)) + unat (screen_size s) \<le> unat (fst w) \<or> unat (fst w) + unat (screen_size s) \<le> unat (vc_origin (vc_cons s i))"
    using w(3) [OF i(1)] ij(1,2) w(1) by (auto simp: apart_def)
  have b: "unat (vc_origin (vc_cons s i)) + unat (screen_size s) < 2 ^ 32" "unat (fst w) + unat (screen_size s) < 2 ^ 32"
    using ij(2,3) w(1,2) by simp_all
  show "vmem (move_screen i w s) (vc_origin (vc_cons (move_screen i w s) j) + of_nat k) = vmem s (vc_origin (vc_cons s j) + of_nat k)"
  proof (cases "j = i")
    case True
    then show ?thesis
      unfolding m using copy(1) [OF r b k] by (simp add: move_screen_def)
  next
    case False
    have "unat (vc_origin (vc_cons s j) + of_nat k) = unat (vc_origin (vc_cons s j)) + k"
      using ij(6,7) k by (intro unat_step) simp
    then have "unat (vc_origin (vc_cons s j) + of_nat k) < unat (fst w) \<or> unat (fst w) + unat (screen_size s) \<le> unat (vc_origin (vc_cons s j) + of_nat k)"
      using w(3) [OF i(2)] ij(5,6) k w(1) by (auto simp: apart_def)
    from copy(2) [OF r b this] False show ?thesis
      unfolding m by (simp add: move_screen_def)
  qed
qed

lemma move_placed:
  fixes s :: "'a console_scheme"
  assumes p: "placed v s" and i: "i < NR_CONSOLES s"
    and w: "w = (if v' = Some i then video s else buffer i s)" "unat (fst w) + unat (screen_size s) \<le> unat (snd w)" "unat (snd w) < 2 ^ 31"
    and v: "\<And>j. j \<noteq> i \<Longrightarrow> v' = Some j \<longleftrightarrow> v = Some j"
  shows "placed v' (move_screen i w s)"
proof -
  note d = placedD [OF p]
  let ?t = "move_screen i w s" and ?u = "upd_vmem (\<lambda>m. snd (memcpy (fst w) (vc_origin (vc_cons s i)) (screen_size s) m)) s"
  have f: "video_num_columns ?t = video_num_columns s" "video_num_lines ?t = video_num_lines s" "video_size_row ?t = video_size_row s"
    "NR_CONSOLES ?t = NR_CONSOLES s" "screen_size ?t = screen_size s" "video ?t = video s" "buffer j ?t = buffer j s"
    "vc_scrbuf ?t = vc_scrbuf s" "video_mem_base ?t = video_mem_base s" "video_mem_term ?t = video_mem_term s"
    "geometry ?t = geometry s" "window i ?t = w" "j \<noteq> i \<Longrightarrow> window j ?t = window j s" "j \<noteq> i \<Longrightarrow> vc_cons ?t j = vc_cons s j" for j
    by (simp_all add: move_screen_def video_def buffer_def geometry_def window_def)
  have "good (unat (video_num_columns s)) (unat (video_num_lines s)) (vc_cons s i)"
    using d(5) [OF i] by (simp add: screen_ok_def)
  then have "good (unat (video_num_columns ?u)) (unat (video_num_lines ?u)) (vc_cons ?t i)"
    unfolding move_screen_def using d(1,2) w(2,3) by (intro good_at_window) (simp_all add: good_def geometry_def)
  then have "screen_ok i ?t"
    using d(1) f by (simp add: screen_ok_def)
  moreover have "screen_ok j ?t" if "j < NR_CONSOLES s" "j \<noteq> i" for j
    using d(1,5) f that by (simp add: screen_ok_def)
  moreover have "window j ?t = (if v' = Some j then video ?t else buffer j ?t)" if "j < NR_CONSOLES s" for j
  proof (cases "j = i")
    case True
    show ?thesis
      unfolding True f(6,7,12) by (rule w(1))
  next
    case False
    show ?thesis
      unfolding f(6,7) f(13) [OF False] v [OF False] by (rule d(6) [OF that])
  qed
  ultimately show ?thesis
    unfolding placed_def f using d(1-4,7-9) by auto
qed

text \<open>The three operations in terms of \<open>move_screen\<close>.\<close>

lemma get_scrmem_move: "fg_console s = i \<Longrightarrow> get_scrmem i s = move_screen i (buffer i s) s"
  by (simp add: get_scrmem_def move_screen_def buffer_def Let_def)

lemma set_scrmem_move:
  assumes "placed None s" "i < NR_CONSOLES s" "fg_console s = i"
  shows "set_scrmem i s = move_screen i (video s) s"
  using screen_inside(4) [OF assms(1,2)] assms(3)
  by (simp add: set_scrmem_def move_screen_def video_def at_window_def upd_vc_def upd_vmem_def)

lemma get_scrmem_ok:
  assumes "placed (Some i) s" "i < NR_CONSOLES s" "fg_console s = i"
  shows "placed None (get_scrmem i s)" "j < NR_CONSOLES s \<Longrightarrow> contents j (get_scrmem i s) = contents j s"
proof -
  note d = placedD [OF assms(1)]
  have b: "unat (fst (buffer i s)) + unat (screen_size s) \<le> unat (snd (buffer i s))" "unat (snd (buffer i s)) < 2 ^ 31"
    using d(8) [OF assms(2)] by (simp_all add: buffer_def unat_add)
  have "apart (buffer i s) (window j s)" if "j < NR_CONSOLES s" for j
    using window_apart(1,2) [OF assms(1,2) that] by (cases "i = j") simp_all
  then show "placed None (get_scrmem i s)" "j < NR_CONSOLES s \<Longrightarrow> contents j (get_scrmem i s) = contents j s"
    unfolding get_scrmem_move [OF assms(3)] using b assms
    by (auto intro!: move_placed move_contents)
qed

lemma set_scrmem_ok:
  assumes "placed None s" "i < NR_CONSOLES s" "fg_console s = i"
  shows "placed (Some i) (set_scrmem i s)" "j < NR_CONSOLES s \<Longrightarrow> contents j (set_scrmem i s) = contents j s"
proof -
  note d = placedD [OF assms(1)]
  have "unat (fst (video s)) + unat (screen_size s) \<le> unat (snd (video s))" "unat (snd (video s)) < 2 ^ 31"
    using d(3,4) by (simp_all add: video_def)
  moreover have "apart (video s) (window j s)" if "j < NR_CONSOLES s" for j
    using window_apart(3) [OF assms(1,2) that] by simp
  ultimately show "placed (Some i) (set_scrmem i s)" "j < NR_CONSOLES s \<Longrightarrow> contents j (set_scrmem i s) = contents j s"
    unfolding set_scrmem_move [OF assms] using assms
    by (auto intro!: move_placed move_contents)
qed

text \<open>What else the operations change says nothing about the screens.\<close>

definition same_screens :: "'a console_scheme \<Rightarrow> 'a console_scheme \<Rightarrow> bool" where
  "same_screens s u \<longleftrightarrow> video_num_columns u = video_num_columns s \<and> video_num_lines u = video_num_lines s \<and>
     video_size_row u = video_size_row s \<and> NR_CONSOLES u = NR_CONSOLES s \<and> screen_size u = screen_size s \<and>
     video u = video s \<and> vc_scrbuf u = vc_scrbuf s \<and>
     (\<forall>j. window j u = window j s \<and> vc_origin (vc_cons u j) = vc_origin (vc_cons s j) \<and>
        (\<forall>C L. good C L (vc_cons u j) = good C L (vc_cons s j)))"

lemma same_screens_ok:
  assumes "same_screens s u"
  shows "placed v u = placed v s" "vmem u = vmem s \<Longrightarrow> contents j u = contents j s" "NR_CONSOLES u = NR_CONSOLES s"
  using assms by (simp_all add: same_screens_def placed_def screen_ok_def geometry_def buffer_def video_def contents_def)

lemma same_screens_kbdsave: "same_screens s (kbdsave n s)" "vmem (kbdsave n s) = vmem s" "fg_console (kbdsave n s) = fg_console s"
  by (simp_all add: same_screens_def kbdsave_def upd_vc_def Let_def window_def video_def good_def)

lemma same_screens_other:
  "same_screens s (s\<lparr>fg_console := n\<rparr>)" "same_screens s (s\<lparr>screen_lock := l\<rparr>)" "same_screens s (out_offset r a s)"
  by (simp_all add: same_screens_def out_offset_def outb_def window_def video_def)

lemma same_screens_set: "same_screens s (set_cursor i s)" "same_screens s (set_origin i s)"
  "vmem (set_cursor i s) = vmem s" "vmem (set_origin i s) = vmem s" "fg_console (set_cursor i s) = fg_console s" "fg_console (set_origin i s) = fg_console s"
  by (simp_all add: set_cursor_def set_origin_def out_offset_def outb_def same_screens_def window_def video_def)

text \<open>
  C35.
  Switching to another console changes where the screens are, and not what is on them: the console
  switched to gets the video memory, the one left its buffer, and the contents and the cursor of
  every console stay the same.
\<close>

theorem console_switch:
  assumes "screens_ok s" "n < NR_CONSOLES s" "\<not> screen_lock s"
  defines "u \<equiv> update_screen n s"
  shows "screens_ok u \<and> fg_console u = n \<and> window n u = video s \<and>
    (\<forall>j < NR_CONSOLES s. contents j u = contents j s \<and> vc_x (vc_cons u j) = vc_x (vc_cons s j) \<and> vc_y (vc_cons u j) = vc_y (vc_cons s j))"
proof (cases "n = fg_console s")
  case True
  then show ?thesis
    using assms(1) placedD(6) [where v = "Some n" and s = s and i = n] by (simp add: u_def update_screen_def screens_ok_def)
next
  case False
  let ?f = "fg_console s"
  define a where "a = kbdsave n (s\<lparr>screen_lock := True\<rparr>)"
  define b where "b = (get_scrmem ?f a)\<lparr>fg_console := n\<rparr>"
  define c where "c = set_scrmem n b"
  have s: "placed (Some ?f) s" "?f < NR_CONSOLES s"
    using assms(1) by (simp_all add: screens_ok_def)
  have a: "placed (Some ?f) a" "\<And>j. contents j a = contents j s" "NR_CONSOLES a = NR_CONSOLES s" "fg_console a = ?f"
    using s(1) same_screens_ok [OF same_screens_kbdsave(1) [of "s\<lparr>screen_lock := True\<rparr>" n]] same_screens_ok [OF same_screens_other(2) [of s True]]
    by (simp_all add: a_def same_screens_kbdsave(2,3))
  have g: "placed None (get_scrmem ?f a)" "\<And>j. j < NR_CONSOLES s \<Longrightarrow> contents j (get_scrmem ?f a) = contents j s"
    "NR_CONSOLES (get_scrmem ?f a) = NR_CONSOLES s"
    using get_scrmem_ok [OF a(1)] a s(2) by (simp_all add: get_scrmem_def Let_def)
  have b: "placed None b" "\<And>j. j < NR_CONSOLES s \<Longrightarrow> contents j b = contents j s" "NR_CONSOLES b = NR_CONSOLES s" "fg_console b = n"
    using g same_screens_ok [OF same_screens_other(1) [of "get_scrmem ?f a" n]] by (simp_all add: b_def)
  have c: "placed (Some n) c" "\<And>j. j < NR_CONSOLES s \<Longrightarrow> contents j c = contents j s" "NR_CONSOLES c = NR_CONSOLES s" "fg_console c = n"
    using set_scrmem_ok [OF b(1)] b assms(2) by (simp_all add: c_def set_scrmem_def)
  define d where "d = set_cursor n (set_origin n c)"
  have d: "placed (Some n) d" "\<And>j. contents j d = contents j c" "NR_CONSOLES d = NR_CONSOLES s" "fg_console d = n"
    using c same_screens_ok [OF same_screens_set(1) [of "set_origin n c" n]] same_screens_ok [OF same_screens_set(2) [of c n]]
    by (simp_all add: d_def same_screens_set)
  have u: "u = d\<lparr>screen_lock := False\<rparr>"
    using False assms(3) by (simp add: u_def update_screen_def Let_def a_def b_def c_def d_def same_screens_kbdsave(3))
  have "placed (Some n) u" "\<And>j. contents j u = contents j d" "NR_CONSOLES u = NR_CONSOLES s" "fg_console u = n"
    using d same_screens_ok [OF same_screens_other(2) [of d False]] by (simp_all add: u)
  moreover have "vc_x (vc_cons u j) = vc_x (vc_cons s j)" "vc_y (vc_cons u j) = vc_y (vc_cons s j)" for j
    by (simp_all add: u d_def c_def b_def a_def set_cursor_def set_origin_def out_offset_def outb_def set_scrmem_def get_scrmem_def
        kbdsave_def upd_vc_def Let_def)
  moreover have "video u = video s"
    by (simp add: u d_def c_def b_def a_def set_cursor_def set_origin_def out_offset_def outb_def set_scrmem_def get_scrmem_def
        kbdsave_def upd_vc_def Let_def video_def)
  ultimately show ?thesis
    using placedD(6) [where v = "Some n" and s = u and i = n] assms(2) c(2) d(2) by (simp add: screens_ok_def)
qed

text \<open>
  C36.
  A blanked screen comes back as it was: if the buffers are below the video memory, and it is not at
  the end of the address space, blanking and unblanking keep the contents of every console.
\<close>

theorem blank_unblank:
  assumes "screens_ok s" "\<And>i. i < NR_CONSOLES s \<Longrightarrow> unat (vc_scrbuf s i) + unat (screen_size s) \<le> unat (video_mem_base s)"
  shows "screens_ok (unblank_screen (blank_screen s)) \<and> \<not> console_blanked (unblank_screen (blank_screen s)) \<and>
    (\<forall>j < NR_CONSOLES s. contents j (unblank_screen (blank_screen s)) = contents j s)"
proof -
  let ?f = "fg_console s"
  define a where "a = set_timer_fn UNBLANK_SCREEN s"
  define b where "b = (hide_cursor ?f (get_scrmem ?f a))\<lparr>console_blanked := True\<rparr>"
  define c where "c = upd_vmem (memsetw (video_mem_base b) 0x0020 (video_mem_term b - video_mem_base b)) b"
  define d where "d = (let t = set_timer_fn BLANK_SCREEN c
    in (if blankinterval t \<noteq> 0 then t\<lparr>timer_table := (timer_table t)(BLANK_TIMER := (timer_table t BLANK_TIMER)\<lparr>tm_expires := jiffies t + blankinterval t\<rparr>),
         timer_active := timer_active t OR push_bit BLANK_TIMER 1\<rparr> else t)\<lparr>console_blanked := False\<rparr>)"
  define e where "e = set_scrmem ?f d"
  define u where "u = set_cursor ?f (set_origin ?f e)"
  have s: "placed (Some ?f) s" "?f < NR_CONSOLES s"
    using assms(1) by (simp_all add: screens_ok_def)
  have "same_screens s a" "vmem a = vmem s" "fg_console a = ?f"
    by (simp_all add: a_def set_timer_fn_def same_screens_def window_def video_def)
  then have a: "placed (Some ?f) a" "\<And>j. contents j a = contents j s" "NR_CONSOLES a = NR_CONSOLES s" "fg_console a = ?f"
    using s(1) same_screens_ok by auto
  have g: "placed None (get_scrmem ?f a)" "\<And>j. j < NR_CONSOLES s \<Longrightarrow> contents j (get_scrmem ?f a) = contents j s"
    "NR_CONSOLES (get_scrmem ?f a) = NR_CONSOLES s" "fg_console (get_scrmem ?f a) = ?f"
    using get_scrmem_ok [OF a(1)] a s(2) by (simp_all add: get_scrmem_def Let_def)
  have sb: "same_screens (get_scrmem ?f a) b" "vmem b = vmem (get_scrmem ?f a)"
    by (simp_all add: b_def hide_cursor_def out_offset_def outb_def same_screens_def window_def video_def)
  have b: "placed None b" "\<And>j. j < NR_CONSOLES s \<Longrightarrow> contents j b = contents j s" "NR_CONSOLES b = NR_CONSOLES s"
    using g same_screens_ok [OF sb(1)] sb(2) by simp_all
  have fb: "fg_console b = ?f" "vc_scrbuf b = vc_scrbuf s" "video_mem_base b = video_mem_base s" "screen_size b = screen_size s"
    by (simp_all add: b_def hide_cursor_def out_offset_def outb_def get_scrmem_def Let_def a_def set_timer_fn_def)
  have sc: "same_screens b c"
    by (simp add: c_def same_screens_def window_def video_def)
  note db = placedD [OF b(1)]
  have "unat (video_mem_term b - video_mem_base b) = unat (video_mem_term b) - unat (video_mem_base b)"
    using db(3) by (intro unat_sub_le) simp
  then have out: "memsetw (video_mem_base b) 0x0020 (video_mem_term b - video_mem_base b) m x = m x"
    if "unat x < unat (video_mem_base b)" for m x
    using db(3,4) that by (simp add: memsetw_def rep_stosw_up)
  have "contents j c = contents j b" if j: "j < NR_CONSOLES s" for j
  proof (rule contents_eqI)
    fix k
    assume k: "k < unat (screen_size b)"
    have o: "vc_origin (vc_cons b j) = vc_scrbuf s j"
      using screen_inside(4) [OF b(1)] j b(3) fb(2) by simp
    have "unat (vc_scrbuf s j) + unat (screen_size s) < 2 ^ 31"
      using db(8) [of j] j b(3) fb by simp
    then have "unat (vc_origin (vc_cons b j) + of_nat k) = unat (vc_scrbuf s j) + k"
      unfolding o using k fb(4) by (intro unat_step) simp
    then have "unat (vc_origin (vc_cons b j) + of_nat k) < unat (video_mem_base b)"
      using assms(2) [OF j] k fb by simp
    then show "vmem c (vc_origin (vc_cons c j) + of_nat k) = vmem b (vc_origin (vc_cons b j) + of_nat k)"
      by (simp add: c_def out)
  qed (simp add: c_def)
  then have c: "placed None c" "\<And>j. j < NR_CONSOLES s \<Longrightarrow> contents j c = contents j s" "NR_CONSOLES c = NR_CONSOLES s" "fg_console c = ?f"
    using b same_screens_ok [OF sc] fb(1) by (simp_all add: c_def)
  have sd: "same_screens c d" "vmem d = vmem c" "fg_console d = fg_console c"
    by (simp_all add: d_def set_timer_fn_def same_screens_def window_def video_def Let_def)
  have d: "placed None d" "\<And>j. j < NR_CONSOLES s \<Longrightarrow> contents j d = contents j s" "NR_CONSOLES d = NR_CONSOLES s" "fg_console d = ?f"
    using c same_screens_ok [OF sd(1)] sd(2,3) by simp_all
  have e: "placed (Some ?f) e" "\<And>j. j < NR_CONSOLES s \<Longrightarrow> contents j e = contents j s" "NR_CONSOLES e = NR_CONSOLES s" "fg_console e = ?f"
    using set_scrmem_ok [OF d(1)] d s(2) by (simp_all add: e_def set_scrmem_def)
  have u: "placed (Some ?f) u" "\<And>j. contents j u = contents j e" "NR_CONSOLES u = NR_CONSOLES s" "fg_console u = ?f"
    using e same_screens_ok [OF same_screens_set(1) [of "set_origin ?f e" ?f]] same_screens_ok [OF same_screens_set(2) [of e ?f]]
    by (simp_all add: u_def same_screens_set)
  have "fg_console (set_timer_fn UNBLANK_SCREEN s) = ?f"
    by (simp add: set_timer_fn_def)
  with g(4) have "blank_screen s = c"
    by (simp add: blank_screen_def Let_def b_def c_def a_def)
  moreover have "unblank_screen c = set_cursor (fg_console d) (set_origin (fg_console d) (set_scrmem (fg_console d) d))"
    by (simp only: unblank_screen_def Let_def d_def)
  ultimately have "unblank_screen (blank_screen s) = u"
    by (simp add: d(4) e_def u_def)
  moreover have "\<not> console_blanked u"
    by (simp add: u_def e_def d_def set_cursor_def set_origin_def out_offset_def outb_def set_scrmem_def at_window_def upd_vc_def upd_vmem_def Let_def)
  ultimately show ?thesis
    using u e(2) s(2) by (simp add: screens_ok_def)
qed

section \<open>At concrete states\<close>

lemma screens_example: "screens_ok (console_example cs)"
proof -
  have "i = 0 \<or> i = 1" if "i < 2" for i :: nat
    using that by auto
  then show ?thesis
    by (auto simp: screens_ok_def placed_def screen_ok_def geometry_def good_def vc_example_def window_def video_def buffer_def apart_def)
qed

theorem console_switch_witness:
  "screens_ok (update_screen 1 (console_example [])) \<and> contents 0 (update_screen 1 (console_example [])) = contents 0 (console_example [])"
  using console_switch [OF screens_example, of 1 "[]"] by simp

theorem blank_unblank_witness:
  "contents 0 (unblank_screen (blank_screen (console_example []))) = contents 0 (console_example [])"
  using blank_unblank [OF screens_example, of "[]"] by simp

theorem consoles_start_witness:
  "NR_CONSOLES (con_init (\<lambda>_ _. 0) 0x20000 ((console_example [])\<lparr>vmem := (\<lambda>_. 0)(0x90007 := 80, 0x9000e := 25),
     vc_cons := (\<lambda>k. (vc_example 0 0)\<lparr>vc_x := 0, vc_y := 0\<rparr>)\<rparr>)) = 8"
proof -
  let ?s = "(console_example [])\<lparr>vmem := (\<lambda>_. 0)(0x90007 := 80, 0x9000e := 25), vc_cons := (\<lambda>k. (vc_example 0 0)\<lparr>vc_x := 0, vc_y := 0\<rparr>)\<rparr>"
  have "ORIG_VIDEO_COLS ?s = 80" "ORIG_VIDEO_LINES ?s = 25"
    by (simp_all add: ORIG_VIDEO_COLS_def ORIG_VIDEO_LINES_def get_word_def)
  then show ?thesis
    using consoles_start [of ?s "0x20000" "\<lambda>_ _. 0"] by (simp add: MAX_CONSOLES_def)
qed

end
