(* ===== verification/Buffers.thy ===== *)
theory Buffers
  imports Requests
begin

text \<open>
  fs/buffer.c: the buffer cache. The heads of the buffers are found by their addresses; each is in
  the ring of the free list, and one that holds a block of a device is in the chain of its hash
  value. \<open>buffer_wait\<close> is the address of the variable of that name, whose queue is in \<open>waitq\<close>.

  A function that may sleep is split where it sleeps: its first argument says where it goes on, and
  its result whether it is done. \<open>getblk\<close> is split at its call of \<open>sync_dev\<close> too, during which
  other tasks run as well.
\<close>

section \<open>State\<close>

record cache = blk +
  hash_table :: "nat \<Rightarrow> ptr"
  free_list :: ptr
  buffer_wait :: ptr
  NR_BUFFERS :: nat
  start_buffer :: ptr

definition NR_HASH :: nat where "NR_HASH = 307"
definition BLOCK_SIZE :: nat where "BLOCK_SIZE = 1024"

text \<open>The address of the next head of the array.\<close>

definition next_head :: "ptr \<Rightarrow> ptr" where "next_head b = b + 36"

definition hashfn :: "u32 \<Rightarrow> u32 \<Rightarrow> nat" where "hashfn dev block = unat (dev XOR block) mod NR_HASH"

definition hash_of :: "buffer_head \<Rightarrow> nat" where "hash_of b = hashfn (ucast (b_dev b)) (b_blocknr b)"

section \<open>The queues\<close>

definition remove_from_hash_queue :: "ptr \<Rightarrow> 'a cache_scheme \<Rightarrow> 'a cache_scheme" where
  "remove_from_hash_queue bh s =
     (let next = b_next (bufs s bh); prev = b_prev (bufs s bh);
          s = (if next \<noteq> NULL then upd_buf next (\<lambda>b. b\<lparr>b_prev := prev\<rparr>) s else s);
          next = b_next (bufs s bh); prev = b_prev (bufs s bh);
          s = (if prev \<noteq> NULL then upd_buf prev (\<lambda>b. b\<lparr>b_next := next\<rparr>) s else s);
          k = hash_of (bufs s bh);
          s = (if hash_table s k = bh then s\<lparr>hash_table := (hash_table s)(k := b_next (bufs s bh))\<rparr> else s)
      in upd_buf bh (\<lambda>b. b\<lparr>b_next := NULL, b_prev := NULL\<rparr>) s)"

definition remove_from_free_list :: "ptr \<Rightarrow> 'a cache_scheme \<Rightarrow> (unit, 'a cache_scheme) outcome" where
  "remove_from_free_list bh s =
     (let prev = b_prev_free (bufs s bh); next = b_next_free (bufs s bh)
      in if prev = NULL \<or> next = NULL then Panic s
         else
           let s = upd_buf prev (\<lambda>b. b\<lparr>b_next_free := next\<rparr>) s;
               next = b_next_free (bufs s bh);
               s = upd_buf next (\<lambda>b. b\<lparr>b_prev_free := b_prev_free (bufs s bh)\<rparr>) s;
               s = (if free_list s = bh then s\<lparr>free_list := b_next_free (bufs s bh)\<rparr> else s)
           in Ret () (upd_buf bh (\<lambda>b. b\<lparr>b_next_free := NULL, b_prev_free := NULL\<rparr>) s))"

definition remove_from_queues :: "ptr \<Rightarrow> 'a cache_scheme \<Rightarrow> (unit, 'a cache_scheme) outcome" where
  "remove_from_queues bh s = remove_from_free_list bh (remove_from_hash_queue bh s)"

text \<open>The four assignments that put a buffer in the ring before \<open>free_list\<close>.\<close>

definition link_free :: "ptr \<Rightarrow> 'a cache_scheme \<Rightarrow> 'a cache_scheme" where
  "link_free bh s =
     (let f = free_list s;
          s = upd_buf bh (\<lambda>b. b\<lparr>b_next_free := f\<rparr>) s;
          s = upd_buf bh (\<lambda>b. b\<lparr>b_prev_free := b_prev_free (bufs s f)\<rparr>) s;
          s = upd_buf (b_prev_free (bufs s f)) (\<lambda>b. b\<lparr>b_next_free := bh\<rparr>) s
      in upd_buf f (\<lambda>b. b\<lparr>b_prev_free := bh\<rparr>) s)"

definition put_first_free :: "ptr \<Rightarrow> 'a cache_scheme \<Rightarrow> (unit, 'a cache_scheme) outcome" where
  "put_first_free bh s =
     (if bh = NULL \<or> bh = free_list s then Ret () s
      else and_then (remove_from_free_list bh s) (\<lambda>_ s. Ret () ((link_free bh s)\<lparr>free_list := bh\<rparr>)))"

definition put_last_free :: "ptr \<Rightarrow> 'a cache_scheme \<Rightarrow> (unit, 'a cache_scheme) outcome" where
  "put_last_free bh s =
     (if bh = NULL then Ret () s
      else if bh = free_list s then Ret () (s\<lparr>free_list := b_next_free (bufs s bh)\<rparr>)
      else and_then (remove_from_free_list bh s) (\<lambda>_ s. Ret () (link_free bh s)))"

definition insert_into_queues :: "ptr \<Rightarrow> 'a cache_scheme \<Rightarrow> 'a cache_scheme" where
  "insert_into_queues bh s =
     (let s = upd_buf bh (\<lambda>b. b\<lparr>b_prev := NULL, b_next := NULL\<rparr>) (link_free bh s);
          k = hash_of (bufs s bh)
      in if b_dev (bufs s bh) = 0 then s
         else let s = upd_buf bh (\<lambda>b. b\<lparr>b_next := hash_table s k\<rparr>) s;
                  s = s\<lparr>hash_table := (hash_table s)(k := bh)\<rparr>
              in upd_buf (b_next (bufs s bh)) (\<lambda>b. b\<lparr>b_prev := bh\<rparr>) s)"

section \<open>Finding a buffer\<close>

definition is_block :: "u32 \<Rightarrow> u32 \<Rightarrow> buffer_head \<Rightarrow> bool" where
  "is_block dev block b \<longleftrightarrow> ucast (b_dev b) = dev \<and> b_blocknr b = block"

partial_function (option) find_chain :: "u32 \<Rightarrow> u32 \<Rightarrow> ptr \<Rightarrow> 'a cache_scheme \<Rightarrow> ptr option" where
  "find_chain dev block tmp s =
     (if tmp = NULL then Some NULL
      else if is_block dev block (bufs s tmp) then Some tmp
      else find_chain dev block (b_next (bufs s tmp)) s)"

definition find_buffer :: "u32 \<Rightarrow> u32 \<Rightarrow> 'a cache_scheme \<Rightarrow> ptr option" where
  "find_buffer dev block s = find_chain dev block (hash_table s (hashfn dev block)) s"

text \<open>
  Where a function goes on: from its start, or in the loop of \<open>wait_on_buffer\<close> for a buffer. The
  result is a pointer, or the place of a sleep: the value \<open>sleep_on\<close> keeps, the queue, the buffer.
\<close>

datatype cache_step = Got ptr | Waits ptr ptr ptr

definition wait_for :: "ptr \<Rightarrow> ptr \<Rightarrow> 'a cache_scheme \<Rightarrow> (cache_step, 'a cache_scheme) outcome" where
  "wait_for init_task bh s = and_then (sleep_on init_task (b_wait bh) s) (\<lambda>tmp s. Ret (Waits tmp (b_wait bh) bh) s)"

partial_function (option) get_hash_table ::
    "ptr \<Rightarrow> u32 \<Rightarrow> u32 \<Rightarrow> ptr option \<Rightarrow> 'a cache_scheme \<Rightarrow> (cache_step, 'a cache_scheme) outcome option" where
  "get_hash_table init_task dev block at s =
     (case at of
        None \<Rightarrow>
          Option.bind (find_buffer dev block s) (\<lambda>bh.
            if bh = NULL then Some (Ret (Got NULL) s)
            else get_hash_table init_task dev block (Some bh) (upd_buf bh (\<lambda>b. b\<lparr>b_count := b_count b + 1\<rparr>) s))
      | Some bh \<Rightarrow>
          if b_lock (bufs s bh) then Some (wait_for init_task bh s)
          else if is_block dev block (bufs s bh) then
            Some (and_then (put_last_free bh s) (\<lambda>_ s. Ret (Got bh) s))
          else get_hash_table init_task dev block None (upd_buf bh (\<lambda>b. b\<lparr>b_count := b_count b - 1\<rparr>) s))"

section \<open>Getting a buffer for a block\<close>

definition BADNESS :: "buffer_head \<Rightarrow> nat" where "BADNESS b = 2 * of_bool (b_dirt b) + of_bool (b_lock b)"

text \<open>A write ahead never sleeps.\<close>

definition write_ahead :: "'a request_fns \<Rightarrow> ptr \<Rightarrow> ptr \<Rightarrow> 'a blk_scheme \<Rightarrow> (unit, 'a blk_scheme) outcome option" where
  "write_ahead fns init_task bh s = map_option (\<lambda>out. and_then out (\<lambda>_ s. Ret () s)) (ll_rw_block fns init_task WRITEA bh s)"

text \<open>The search from the buffer behind \<open>tmp\<close>, \<open>n\<close> of them and one more, with \<open>bh\<close> the best so far.\<close>

fun search :: "'a cache_ext request_fns \<Rightarrow> ptr \<Rightarrow> nat \<Rightarrow> ptr \<Rightarrow> ptr \<Rightarrow> 'a cache_scheme \<Rightarrow> (ptr, 'a cache_scheme) outcome option" where
  "search fns init_task n bh tmp s =
     (let tmp = b_next_free (bufs s tmp); b = bufs s tmp;
          next = (\<lambda>bh s. case n of 0 \<Rightarrow> Some (Ret bh s) | Suc n \<Rightarrow> search fns init_task n bh tmp s);
          better = (bh = NULL \<or> BADNESS b < BADNESS (bufs s bh));
          bh' = (if better then tmp else bh)
      in if b_count b \<noteq> 0 then next bh s
         else if better \<and> BADNESS b = 0 then Some (Ret tmp s)
         else if b_dirt b then
           (case write_ahead fns init_task tmp s of
              None \<Rightarrow> None
            | Some (Ret _ s) \<Rightarrow> next bh' s
            | Some (DoExit c s) \<Rightarrow> Some (DoExit c s)
            | Some (Panic s) \<Rightarrow> Some (Panic s))
         else next bh' s)"

declare search.simps [simp del]

text \<open>The buffer is unused, unlocked and clean, and the block is in no other.\<close>

definition claim_buffer :: "u32 \<Rightarrow> u32 \<Rightarrow> ptr \<Rightarrow> 'a cache_scheme \<Rightarrow> (unit, 'a cache_scheme) outcome" where
  "claim_buffer dev block bh s =
     and_then (remove_from_queues bh (upd_buf bh (\<lambda>b. b\<lparr>b_count := 1, b_dirt := False, b_uptodate := False\<rparr>) s))
       (\<lambda>_ s. Ret () (insert_into_queues bh (upd_buf bh (\<lambda>b. b\<lparr>b_dev := ucast dev, b_blocknr := block\<rparr>) s)))"

datatype getblk_at = AtHash "ptr option" | AtWait ptr

datatype getblk_step = GotBlk ptr | SleepsAt ptr ptr getblk_at | SyncsDev u16 getblk_at

partial_function (option) getblk ::
    "'a cache_ext request_fns \<Rightarrow> ptr \<Rightarrow> u32 \<Rightarrow> u32 \<Rightarrow> getblk_at \<Rightarrow> 'a cache_scheme \<Rightarrow>
     (getblk_step, 'a cache_scheme) outcome option" where
  "getblk fns init_task dev block at s =
     (case at of
        AtHash w \<Rightarrow>
          (case get_hash_table init_task dev block w s of
             None \<Rightarrow> None
           | Some (DoExit c s) \<Rightarrow> Some (DoExit c s)
           | Some (Panic s) \<Rightarrow> Some (Panic s)
           | Some (Ret (Waits tmp q bh) s) \<Rightarrow> Some (Ret (SleepsAt tmp q (AtHash (Some bh))) s)
           | Some (Ret (Got bh) s) \<Rightarrow>
               if bh \<noteq> NULL then Some (Ret (GotBlk bh) s)
               else
                 (case search fns init_task (NR_BUFFERS s) NULL (free_list s) s of
                    None \<Rightarrow> None
                  | Some (DoExit c s) \<Rightarrow> Some (DoExit c s)
                  | Some (Panic s) \<Rightarrow> Some (Panic s)
                  | Some (Ret bh s) \<Rightarrow>
                      if bh = NULL then
                        Some (and_then (sleep_on init_task (buffer_wait s) s)
                          (\<lambda>tmp s. Ret (SleepsAt tmp (buffer_wait s) (AtHash None)) s))
                      else getblk fns init_task dev block (AtWait bh) s))
      | AtWait bh \<Rightarrow>
          if b_lock (bufs s bh) then
            Some (and_then (sleep_on init_task (b_wait bh) s) (\<lambda>tmp s. Ret (SleepsAt tmp (b_wait bh) (AtWait bh)) s))
          else if b_count (bufs s bh) \<noteq> 0 then getblk fns init_task dev block (AtHash None) s
          else if b_dirt (bufs s bh) then Some (Ret (SyncsDev (b_dev (bufs s bh)) (AtWait bh)) s)
          else Option.bind (find_buffer dev block s) (\<lambda>t.
            if t \<noteq> NULL then getblk fns init_task dev block (AtHash None) s
            else Some (and_then (claim_buffer dev block bh s) (\<lambda>_ s. Ret (GotBlk bh) s))))"

section \<open>Releasing, reading and writing\<close>

text \<open>Woken from the wait, it starts again.\<close>

definition brelse :: "ptr \<Rightarrow> ptr \<Rightarrow> 'a cache_scheme \<Rightarrow> (cache_step, 'a cache_scheme) outcome" where
  "brelse init_task b s =
     (if b = NULL then Ret (Got NULL) s
      else if b_lock (bufs s b) then wait_for init_task b s
      else let n = b_count (bufs s b); s = upd_buf b (\<lambda>b. b\<lparr>b_count := b_count b - 1\<rparr>) s
           in if n = 0 then Panic s else Ret (Got NULL) (wake_up (buffer_wait s) s))"

text \<open>
  A request goes on at its lock or in its search for a free entry, which the queue it sleeps on
  tells apart.
\<close>

datatype request_at = AtLock | AtFind

definition woken_request :: "'a request_fns \<Rightarrow> ptr \<Rightarrow> int \<Rightarrow> request_at \<Rightarrow> ptr \<Rightarrow> 'a blk_scheme \<Rightarrow> (blk_step, 'a blk_scheme) outcome option" where
  "woken_request fns init_task rw at b s =
     (let major = MAJOR (uint (b_dev (bufs s b)))
      in case at of AtLock \<Rightarrow> make_request_lock fns init_task major rw False b s
         | AtFind \<Rightarrow> make_request_find fns init_task major rw False b s)"

definition sleeps_in :: "ptr \<Rightarrow> ptr \<Rightarrow> request_at" where "sleeps_in q b = (if q = b_wait b then AtLock else AtFind)"

datatype bread_at = InGetblk getblk_at | InRead request_at ptr | InWait ptr

datatype bread_step = BreadDone ptr | BreadSleeps ptr ptr bread_at | BreadSyncs u16 getblk_at

text \<open>From \<open>wait_on_buffer\<close> on. The buffer that \<open>brelse\<close> gets is not locked.\<close>

definition bread_wait :: "ptr \<Rightarrow> ptr \<Rightarrow> 'a cache_scheme \<Rightarrow> (bread_step, 'a cache_scheme) outcome" where
  "bread_wait init_task b s =
     (if b_lock (bufs s b) then
        and_then (sleep_on init_task (b_wait b) s) (\<lambda>tmp s. Ret (BreadSleeps tmp (b_wait b) (InWait b)) s)
      else if b_uptodate (bufs s b) then Ret (BreadDone b) s
      else and_then (brelse init_task b s) (\<lambda>_ s. Ret (BreadDone NULL) s))"

definition bread_asked ::
    "ptr \<Rightarrow> ptr \<Rightarrow> (blk_step, 'a cache_scheme) outcome option \<Rightarrow> (bread_step, 'a cache_scheme) outcome option" where
  "bread_asked init_task b = map_option (\<lambda>out. and_then out (\<lambda>r s.
     case r of BlkDone \<Rightarrow> bread_wait init_task b s | BlkSleep tmp q \<Rightarrow> Ret (BreadSleeps tmp q (InRead (sleeps_in q b) b)) s))"

definition bread ::
    "'a cache_ext request_fns \<Rightarrow> ptr \<Rightarrow> u32 \<Rightarrow> u32 \<Rightarrow> bread_at \<Rightarrow> 'a cache_scheme \<Rightarrow> (bread_step, 'a cache_scheme) outcome option" where
  "bread fns init_task dev block at s =
     (case at of
        InGetblk a \<Rightarrow>
          (case getblk fns init_task dev block a s of
             None \<Rightarrow> None
           | Some (DoExit c s) \<Rightarrow> Some (DoExit c s)
           | Some (Panic s) \<Rightarrow> Some (Panic s)
           | Some (Ret (SleepsAt tmp q a) s) \<Rightarrow> Some (Ret (BreadSleeps tmp q (InGetblk a)) s)
           | Some (Ret (SyncsDev d a) s) \<Rightarrow> Some (Ret (BreadSyncs d a) s)
           | Some (Ret (GotBlk b) s) \<Rightarrow>
               if b = NULL then Some (Panic s)
               else if b_uptodate (bufs s b) then Some (Ret (BreadDone b) s)
               else bread_asked init_task b (ll_rw_block fns init_task READ b s))
      | InRead a b \<Rightarrow> bread_asked init_task b (woken_request fns init_task READ a b s)
      | InWait b \<Rightarrow> Some (bread_wait init_task b s))"

text \<open>\<open>n\<close> buffers are left, from \<open>b\<close> on; it goes on with the same two when it is woken.\<close>

datatype sync_step = SyncDone | SyncSleeps ptr ptr nat ptr "request_at option"

fun sync_buffers :: "'a cache_ext request_fns \<Rightarrow> ptr \<Rightarrow> nat \<Rightarrow> ptr \<Rightarrow> 'a cache_scheme \<Rightarrow> (sync_step, 'a cache_scheme) outcome option" where
  "sync_buffers fns init_task 0 b s = Some (Ret SyncDone s)"
| "sync_buffers fns init_task (Suc n) b s =
     (if b_lock (bufs s b) then
        Some (and_then (sleep_on init_task (b_wait b) s) (\<lambda>tmp s. Ret (SyncSleeps tmp (b_wait b) (Suc n) b None) s))
      else if b_dirt (bufs s b) then
        (case ll_rw_block fns init_task WRITE b s of
           None \<Rightarrow> None
         | Some (Ret BlkDone s) \<Rightarrow> sync_buffers fns init_task n (b_next_free (bufs s b)) s
         | Some (Ret (BlkSleep tmp q) s) \<Rightarrow> Some (Ret (SyncSleeps tmp q (Suc n) b (Some (sleeps_in q b))) s)
         | Some (DoExit c s) \<Rightarrow> Some (DoExit c s)
         | Some (Panic s) \<Rightarrow> Some (Panic s))
      else sync_buffers fns init_task n (b_next_free (bufs s b)) s)"

definition sync_all :: "'a cache_ext request_fns \<Rightarrow> ptr \<Rightarrow> 'a cache_scheme \<Rightarrow> (sync_step, 'a cache_scheme) outcome option" where
  "sync_all fns init_task s = sync_buffers fns init_task (NR_BUFFERS s) (free_list s) s"

text \<open>\<open>woken\<close>: the loop goes on behind the wait for \<open>b\<close>.\<close>

datatype invalidate_step = InvDone | InvSleeps ptr ptr nat ptr

fun invalidate_loop :: "ptr \<Rightarrow> u16 \<Rightarrow> bool \<Rightarrow> nat \<Rightarrow> ptr \<Rightarrow> 'a cache_scheme \<Rightarrow> (invalidate_step, 'a cache_scheme) outcome" where
  "invalidate_loop init_task dev woken 0 b s = Ret InvDone s"
| "invalidate_loop init_task dev woken (Suc n) b s =
     (if \<not> woken \<and> b_dev (bufs s b) \<noteq> dev then invalidate_loop init_task dev False n (next_head b) s
      else if b_lock (bufs s b) then
        and_then (sleep_on init_task (b_wait b) s) (\<lambda>tmp s. Ret (InvSleeps tmp (b_wait b) (Suc n) b) s)
      else invalidate_loop init_task dev False n (next_head b)
             (if b_dev (bufs s b) = dev then upd_buf b (\<lambda>b. b\<lparr>b_dirt := False, b_uptodate := False\<rparr>) s else s))"

definition invalidate_buffers :: "ptr \<Rightarrow> u16 \<Rightarrow> 'a cache_scheme \<Rightarrow> (invalidate_step, 'a cache_scheme) outcome" where
  "invalidate_buffers init_task dev s = invalidate_loop init_task dev False (NR_BUFFERS s) (start_buffer s) s"

section \<open>Start-up\<close>

text \<open>The loop that makes heads from \<open>h\<close> upwards and blocks from \<open>b\<close> downwards, around the hole below 1 MB.\<close>

function init_heads :: "nat \<Rightarrow> ptr \<Rightarrow> 'a cache_scheme \<Rightarrow> ptr \<times> 'a cache_scheme" where
  "init_heads b h s =
     (if b < BLOCK_SIZE + next_head h then (h, s)
      else let b = b - BLOCK_SIZE;
               s = upd_buf h (\<lambda>x. x\<lparr>b_dev := 0, b_dirt := False, b_count := 0, b_lock := False, b_uptodate := False, b_next := NULL,
                     b_prev := NULL, b_data := of_nat b, b_prev_free := h - 36, b_next_free := next_head h\<rparr>)
                     (s\<lparr>waitq := (waitq s)(b_wait h := NULL), NR_BUFFERS := NR_BUFFERS s + 1\<rparr>)
           in init_heads (if b = 0x100000 then 0xA0000 else b) (next_head h) s)"
  by pat_completeness auto
termination
  by (relation "measure (\<lambda>(b, h, s). b)") (auto simp: BLOCK_SIZE_def)

declare init_heads.simps [simp del]

definition buffer_init :: "nat \<Rightarrow> 'a cache_scheme \<Rightarrow> 'a cache_scheme" where
  "buffer_init buffer_end s =
     (let (h, s) = init_heads (if buffer_end = 2 ^ 20 then 640 * 1024 else buffer_end) (start_buffer s) s;
          h = h - 36;
          s = s\<lparr>free_list := start_buffer s\<rparr>;
          s = upd_buf (free_list s) (\<lambda>b. b\<lparr>b_prev_free := h\<rparr>) s;
          s = upd_buf h (\<lambda>b. b\<lparr>b_next_free := free_list s\<rparr>) s
      in s\<lparr>hash_table := (\<lambda>k. if k < NR_HASH then NULL else hash_table s k)\<rparr>)"

section \<open>Rings and chains\<close>

text \<open>\<open>N\<close> and \<open>P\<close> lead from each element of a list to the next and back.\<close>

fun chained :: "('a \<Rightarrow> 'a) \<Rightarrow> ('a \<Rightarrow> 'a) \<Rightarrow> 'a list \<Rightarrow> bool" where
  "chained N P (a # b # xs) \<longleftrightarrow> N a = b \<and> P b = a \<and> chained N P (b # xs)"
| "chained N P xs \<longleftrightarrow> True"

lemma chained_append: "chained N P (xs @ a # ys) \<longleftrightarrow> chained N P (xs @ [a]) \<and> chained N P (a # ys)"
  by (induction xs rule: induct_list012) auto

lemma chained_snoc: "xs \<noteq> [] \<Longrightarrow> chained N P (xs @ [a]) \<longleftrightarrow> chained N P xs \<and> N (last xs) = a \<and> P a = last xs"
  by (induction xs rule: induct_list012) auto

lemma chained_Cons: "xs \<noteq> [] \<Longrightarrow> chained N P (a # xs) \<longleftrightarrow> N a = hd xs \<and> P (hd xs) = a \<and> chained N P xs"
  by (cases xs) auto

lemma chained_cong:
  "(\<And>x. x \<in> set (butlast xs) \<Longrightarrow> N x = M x) \<Longrightarrow> (\<And>x. x \<in> set (tl xs) \<Longrightarrow> P x = Q x) \<Longrightarrow> chained N P xs = chained M Q xs"
  by (induction xs rule: induct_list012) auto

definition ring :: "('a::zero \<Rightarrow> 'a) \<Rightarrow> ('a \<Rightarrow> 'a) \<Rightarrow> 'a list \<Rightarrow> bool" where
  "ring N P xs \<longleftrightarrow> xs \<noteq> [] \<and> distinct xs \<and> 0 \<notin> set xs \<and> chained N P xs \<and> N (last xs) = hd xs \<and> P (hd xs) = last xs"

lemma ring_rotate1: "ring N P (a # xs) \<Longrightarrow> ring N P (xs @ [a])"
  by (cases "xs = []") (auto simp: ring_def chained_Cons chained_snoc)

lemma ring_rotate: "ring N P (xs @ ys) \<Longrightarrow> ring N P (ys @ xs)"
proof (induction xs arbitrary: ys)
  case (Cons a xs)
  then show ?case
    using Cons.IH [of "ys @ [a]"] ring_rotate1 [of N P a "xs @ ys"] by simp
qed simp

lemma not_butlast: "distinct xs \<Longrightarrow> x \<in> set (butlast xs) \<Longrightarrow> x \<noteq> last xs"
  by (cases xs rule: rev_cases) auto

lemma not_tl: "distinct xs \<Longrightarrow> x \<in> set (tl xs) \<Longrightarrow> x \<noteq> hd xs"
  by (cases xs) auto

lemma ring_remove:
  assumes "ring N P (b # xs)" "xs \<noteq> []"
  shows "N b = hd xs" "P b = last xs" "b \<notin> set xs" "hd xs \<noteq> 0" "last xs \<noteq> 0" "b \<noteq> 0"
    "ring (N(last xs := hd xs, b := v)) (P(hd xs := last xs, b := w)) xs"
proof -
  show b: "N b = hd xs" "P b = last xs" "b \<notin> set xs" "hd xs \<noteq> 0" "last xs \<noteq> 0" "b \<noteq> 0"
    using assms by (auto simp: ring_def chained_Cons) (metis hd_in_set, metis last_in_set)
  have d: "distinct xs" "0 \<notin> set xs" "chained N P xs"
    using assms by (auto simp: ring_def chained_Cons)
  have "chained (N(last xs := hd xs, b := v)) (P(hd xs := last xs, b := w)) xs = chained N P xs"
    using b(3) not_butlast [OF d(1)] not_tl [OF d(1)] by (intro chained_cong) (auto dest: in_set_butlastD list.set_sel(2) [OF assms(2)])
  moreover have "hd xs \<noteq> b" "last xs \<noteq> b"
    using b(3) assms(2) by auto
  ultimately show "ring (N(last xs := hd xs, b := v)) (P(hd xs := last xs, b := w)) xs"
    using assms(2) d by (simp add: ring_def)
qed

lemma ring_insert:
  assumes "ring N P xs" "b \<notin> set xs" "b \<noteq> 0"
  shows "ring (N(b := hd xs, last xs := b)) (P(b := last xs, hd xs := b)) (b # xs)"
proof -
  have d: "distinct xs" "0 \<notin> set xs" "chained N P xs" "xs \<noteq> []"
    using assms(1) by (auto simp: ring_def)
  then have n: "hd xs \<noteq> b" "last xs \<noteq> b"
    using assms(2) by auto
  have "chained (N(b := hd xs, last xs := b)) (P(b := last xs, hd xs := b)) xs = chained N P xs"
    using assms(2) not_butlast [OF d(1)] not_tl [OF d(1)] by (intro chained_cong) (auto dest: in_set_butlastD list.set_sel(2) [OF d(4)])
  with d n assms show ?thesis
    by (simp add: ring_def chained_Cons)
qed

section \<open>The free list\<close>

abbreviation nfree :: "'a cache_scheme \<Rightarrow> ptr \<Rightarrow> ptr" where "nfree s \<equiv> \<lambda>b. b_next_free (bufs s b)"
abbreviation pfree :: "'a cache_scheme \<Rightarrow> ptr \<Rightarrow> ptr" where "pfree s \<equiv> \<lambda>b. b_prev_free (bufs s b)"

definition free_ring :: "'a cache_scheme \<Rightarrow> ptr list \<Rightarrow> bool" where
  "free_ring s xs \<longleftrightarrow> ring (nfree s) (pfree s) xs \<and> free_list s = hd xs"

text \<open>\<open>free_frame s u\<close>: only the links of the free list differ.\<close>

definition free_frame :: "'a cache_scheme \<Rightarrow> 'a cache_scheme \<Rightarrow> bool" where
  "free_frame s u \<longleftrightarrow> (\<exists>B f. u = s\<lparr>bufs := B, free_list := f\<rparr> \<and>
     (\<forall>b. (B b)\<lparr>b_next_free := 0, b_prev_free := 0\<rparr> = (bufs s b)\<lparr>b_next_free := 0, b_prev_free := 0\<rparr>))"

lemma free_frame_refl: "free_frame s s"
  unfolding free_frame_def by (intro exI [of _ "bufs s"] exI [of _ "free_list s"]) simp

lemma free_frame_trans:
  assumes "free_frame s t" "free_frame t u"
  shows "free_frame s u"
proof -
  obtain B f where t: "t = s\<lparr>bufs := B, free_list := f\<rparr>"
    "\<forall>b. (B b)\<lparr>b_next_free := 0, b_prev_free := 0\<rparr> = (bufs s b)\<lparr>b_next_free := 0, b_prev_free := 0\<rparr>"
    using assms(1) by (auto simp: free_frame_def)
  obtain B' f' where u: "u = t\<lparr>bufs := B', free_list := f'\<rparr>"
    "\<forall>b. (B' b)\<lparr>b_next_free := 0, b_prev_free := 0\<rparr> = (bufs t b)\<lparr>b_next_free := 0, b_prev_free := 0\<rparr>"
    using assms(2) by (auto simp: free_frame_def)
  have "u = s\<lparr>bufs := B', free_list := f'\<rparr>"
    by (simp add: t(1) u(1))
  with t u show ?thesis
    unfolding free_frame_def by (intro exI [of _ B'] exI [of _ f']) simp
qed

lemma same_but_free:
  assumes "x\<lparr>b_next_free := 0, b_prev_free := 0\<rparr> = y\<lparr>b_next_free := 0, b_prev_free := 0\<rparr>"
  shows "b_data x = b_data y" "b_blocknr x = b_blocknr y" "b_dev x = b_dev y" "b_uptodate x = b_uptodate y" "b_dirt x = b_dirt y"
    "b_count x = b_count y" "b_lock x = b_lock y" "b_prev x = b_prev y" "b_next x = b_next y"
  using assms by (cases x, cases y, simp)+

lemma free_frame_fields:
  assumes "free_frame s u"
  shows "hash_table u = hash_table s" "NR_BUFFERS u = NR_BUFFERS s" "start_buffer u = start_buffer s" "buffer_wait u = buffer_wait s"
    "b_data (bufs u b) = b_data (bufs s b)" "b_blocknr (bufs u b) = b_blocknr (bufs s b)" "b_dev (bufs u b) = b_dev (bufs s b)"
    "b_uptodate (bufs u b) = b_uptodate (bufs s b)" "b_dirt (bufs u b) = b_dirt (bufs s b)" "b_count (bufs u b) = b_count (bufs s b)"
    "b_lock (bufs u b) = b_lock (bufs s b)" "b_prev (bufs u b) = b_prev (bufs s b)" "b_next (bufs u b) = b_next (bufs s b)"
    "hash_of (bufs u b) = hash_of (bufs s b)"
proof -
  obtain B f where u: "u = s\<lparr>bufs := B, free_list := f\<rparr>"
    and B: "\<And>b. (B b)\<lparr>b_next_free := 0, b_prev_free := 0\<rparr> = (bufs s b)\<lparr>b_next_free := 0, b_prev_free := 0\<rparr>"
    using assms by (auto simp: free_frame_def)
  note f = same_but_free [OF B]
  show "hash_table u = hash_table s" "NR_BUFFERS u = NR_BUFFERS s" "start_buffer u = start_buffer s" "buffer_wait u = buffer_wait s"
    by (simp_all add: u)
  show "b_data (bufs u b) = b_data (bufs s b)" "b_blocknr (bufs u b) = b_blocknr (bufs s b)" "b_dev (bufs u b) = b_dev (bufs s b)"
    "b_uptodate (bufs u b) = b_uptodate (bufs s b)" "b_dirt (bufs u b) = b_dirt (bufs s b)" "b_count (bufs u b) = b_count (bufs s b)"
    "b_lock (bufs u b) = b_lock (bufs s b)" "b_prev (bufs u b) = b_prev (bufs s b)" "b_next (bufs u b) = b_next (bufs s b)"
    "hash_of (bufs u b) = hash_of (bufs s b)"
    using f by (simp_all add: u hash_of_def)
qed

lemma free_frame_upd: "(\<And>x. (g x)\<lparr>b_next_free := 0, b_prev_free := 0\<rparr> = x\<lparr>b_next_free := 0, b_prev_free := 0\<rparr>) \<Longrightarrow> free_frame s (upd_buf b g s)"
  unfolding free_frame_def upd_buf_def
  by (intro exI [of _ "(bufs s)(b := g (bufs s b))"] exI [of _ "free_list s"]) simp

lemma free_frame_head: "free_frame s (s\<lparr>free_list := f\<rparr>)"
  unfolding free_frame_def by (intro exI [of _ "bufs s"] exI [of _ f]) simp

text \<open>Taking \<open>b\<close> out of a ring in which it is followed by \<open>xs\<close>.\<close>

lemma remove_from_free_list_step:
  assumes r: "ring (nfree s) (pfree s) (b # xs)" "xs \<noteq> []"
  shows "\<exists>u. remove_from_free_list b s = Ret () u \<and> ring (nfree u) (pfree u) xs \<and> free_frame s u \<and>
    free_list u = (if free_list s = b then hd xs else free_list s)"
proof -
  note k = ring_remove [OF r]
  have ne: "hd xs \<noteq> b" "last xs \<noteq> b"
    using k(3) r(2) by auto
  let ?s1 = "upd_buf (last xs) (\<lambda>b. b\<lparr>b_next_free := hd xs\<rparr>) s"
  let ?s2 = "upd_buf (hd xs) (\<lambda>b. b\<lparr>b_prev_free := last xs\<rparr>) ?s1"
  let ?s3 = "if free_list s = b then ?s2\<lparr>free_list := hd xs\<rparr> else ?s2"
  let ?u = "upd_buf b (\<lambda>b. b\<lparr>b_next_free := NULL, b_prev_free := NULL\<rparr>) ?s3"
  have "b_next_free (bufs ?s1 b) = hd xs" "b_prev_free (bufs ?s1 b) = last xs" "b_next_free (bufs ?s2 b) = hd xs" "free_list ?s2 = free_list s"
    using k(1,2) ne by (simp_all add: upd_buf_def)
  then have "remove_from_free_list b s = Ret () ?u"
    using k by (simp add: remove_from_free_list_def Let_def)
  moreover have "nfree ?u = (nfree s)(last xs := hd xs, b := NULL)" "pfree ?u = (pfree s)(hd xs := last xs, b := NULL)"
    using ne by (auto simp: upd_buf_def fun_eq_iff)
  moreover have "free_frame s ?u"
    by (auto intro!: free_frame_trans [OF free_frame_trans [OF free_frame_upd free_frame_upd] free_frame_upd]
        free_frame_trans [OF free_frame_trans [OF free_frame_trans [OF free_frame_upd free_frame_upd] free_frame_head] free_frame_upd])
  moreover have "free_list ?u = (if free_list s = b then hd xs else free_list s)"
    by (simp add: upd_buf_def)
  ultimately show ?thesis
    using k(7) [where v = NULL and w = NULL] by auto
qed

lemma remove_from_free_list_ok:
  assumes "free_ring s (ys @ b # zs)" "ys @ zs \<noteq> []"
  shows "\<exists>u. remove_from_free_list b s = Ret () u \<and> free_ring u (ys @ zs) \<and> free_frame s u"
proof -
  have d: "distinct (ys @ b # zs)" "free_list s = hd (ys @ b # zs)"
    using assms(1) by (simp_all add: free_ring_def ring_def)
  have "ring (nfree s) (pfree s) (b # zs @ ys)"
    using assms(1) ring_rotate [of _ _ ys "b # zs"] by (simp add: free_ring_def)
  from remove_from_free_list_step [OF this] assms(2) obtain u where
    u: "remove_from_free_list b s = Ret () u" "ring (nfree u) (pfree u) (zs @ ys)" "free_frame s u"
    "free_list u = (if free_list s = b then hd (zs @ ys) else free_list s)"
    by auto
  have "free_list u = hd (ys @ zs)"
    using d assms(2) u(4) by (cases ys) auto
  then show ?thesis
    using u ring_rotate [OF u(2)] by (auto simp: free_ring_def)
qed

lemma link_free_ok:
  assumes "free_ring s xs" "b \<notin> set xs" "b \<noteq> NULL"
  shows "free_ring (link_free b s) (xs @ [b])" "free_frame s (link_free b s)" "free_list (link_free b s) = hd xs"
    "ring (nfree (link_free b s)) (pfree (link_free b s)) (b # xs)"
proof -
  have xs: "xs \<noteq> []" "free_list s = hd xs" "ring (nfree s) (pfree s) xs" "pfree s (hd xs) = last xs"
    using assms(1) by (auto simp: free_ring_def ring_def)
  then have ne: "hd xs \<noteq> b" "last xs \<noteq> b"
    using assms(2) by auto
  have N: "nfree (link_free b s) = (nfree s)(b := hd xs, last xs := b)" "pfree (link_free b s) = (pfree s)(b := last xs, hd xs := b)"
    using ne xs(2,4) by (auto simp: link_free_def upd_buf_def Let_def fun_eq_iff)
  show "free_frame s (link_free b s)"
    unfolding link_free_def Let_def
    by (auto intro!: free_frame_trans [OF free_frame_trans [OF free_frame_trans [OF free_frame_upd free_frame_upd] free_frame_upd] free_frame_upd])
  show fl: "free_list (link_free b s) = hd xs"
    using xs(2) by (simp add: link_free_def upd_buf_def Let_def)
  show "ring (nfree (link_free b s)) (pfree (link_free b s)) (b # xs)"
    unfolding N by (rule ring_insert [OF xs(3) assms(2,3)])
  from ring_rotate1 [OF this] fl xs(1) show "free_ring (link_free b s) (xs @ [b])"
    by (simp add: free_ring_def)
qed

text \<open>A buffer that is used goes to the end, where it will be looked at last.\<close>

lemma put_last_free_ok:
  assumes r: "free_ring s xs" and b: "b \<in> set xs"
  shows "\<exists>u. put_last_free b s = Ret () u \<and> free_ring u (remove1 b xs @ [b]) \<and> free_frame s u"
proof -
  have d: "distinct xs" "free_list s = hd xs" "ring (nfree s) (pfree s) xs"
    using r by (auto simp: free_ring_def ring_def)
  have n: "b \<noteq> NULL"
    using r b unfolding free_ring_def ring_def by metis
  obtain ys zs where xs: "xs = ys @ b # zs"
    using b by (meson split_list)
  show ?thesis
  proof (cases ys)
    case Nil
    have "ring (nfree s) (pfree s) (zs @ [b])"
      using d(3) ring_rotate1 xs Nil by simp
    moreover have "nfree s b = hd (zs @ [b])"
      using d(3) xs Nil by (cases zs) (auto simp: ring_def)
    ultimately show ?thesis
      using d n xs Nil by (intro exI [of _ "s\<lparr>free_list := nfree s b\<rparr>"])
        (auto simp: put_last_free_def free_ring_def intro: free_frame_head)
  next
    case (Cons y ys')
    have "ys @ zs \<noteq> []" "b \<notin> set (ys @ zs)" "free_list s \<noteq> b"
      using d xs Cons by auto
    moreover obtain t where t: "remove_from_free_list b s = Ret () t" "free_ring t (ys @ zs)" "free_frame s t"
      using remove_from_free_list_ok [of s ys b zs] r xs calculation(1) by blast
    ultimately show ?thesis
      using n xs link_free_ok [OF t(2), of b] free_frame_trans [OF t(3)]
      by (auto simp: put_last_free_def remove1_append)
  qed
qed

section \<open>The hash queues\<close>

abbreviation nhash :: "'a cache_scheme \<Rightarrow> ptr \<Rightarrow> ptr" where "nhash s \<equiv> \<lambda>b. b_next (bufs s b)"
abbreviation phash :: "'a cache_scheme \<Rightarrow> ptr \<Rightarrow> ptr" where "phash s \<equiv> \<lambda>b. b_prev (bufs s b)"

fun prevs :: "('a \<Rightarrow> 'a) \<Rightarrow> 'a \<Rightarrow> 'a list \<Rightarrow> bool" where
  "prevs P p [] \<longleftrightarrow> True"
| "prevs P p (x # xs) \<longleftrightarrow> P x = p \<and> prevs P x xs"

lemma prevs_cong: "(\<And>x. x \<in> set xs \<Longrightarrow> P x = Q x) \<Longrightarrow> prevs P p xs = prevs Q p xs"
  by (induction xs arbitrary: p) auto

lemma prevs_append: "prevs P p (ys @ zs) \<longleftrightarrow> prevs P p ys \<and> prevs P (if ys = [] then p else last ys) zs"
  by (induction ys arbitrary: p) auto

text \<open>The chain of hash value \<open>k\<close>.\<close>

definition chain :: "'a cache_scheme \<Rightarrow> nat \<Rightarrow> ptr list \<Rightarrow> bool" where
  "chain s k ys \<longleftrightarrow> linked (nhash s) (hash_table s k) ys \<and> prevs (phash s) NULL ys \<and> distinct ys"

definition hash_frame :: "'a cache_scheme \<Rightarrow> 'a cache_scheme \<Rightarrow> bool" where
  "hash_frame s u \<longleftrightarrow> (\<exists>B f. u = s\<lparr>bufs := B, hash_table := f\<rparr> \<and>
     (\<forall>b. (B b)\<lparr>b_next := 0, b_prev := 0\<rparr> = (bufs s b)\<lparr>b_next := 0, b_prev := 0\<rparr>))"

lemma hash_frame_trans:
  assumes "hash_frame s t" "hash_frame t u"
  shows "hash_frame s u"
proof -
  obtain B f where t: "t = s\<lparr>bufs := B, hash_table := f\<rparr>"
    "\<forall>b. (B b)\<lparr>b_next := 0, b_prev := 0\<rparr> = (bufs s b)\<lparr>b_next := 0, b_prev := 0\<rparr>"
    using assms(1) by (auto simp: hash_frame_def)
  obtain B' f' where u: "u = t\<lparr>bufs := B', hash_table := f'\<rparr>"
    "\<forall>b. (B' b)\<lparr>b_next := 0, b_prev := 0\<rparr> = (bufs t b)\<lparr>b_next := 0, b_prev := 0\<rparr>"
    using assms(2) by (auto simp: hash_frame_def)
  have "u = s\<lparr>bufs := B', hash_table := f'\<rparr>"
    by (simp add: t(1) u(1))
  with t u show ?thesis
    unfolding hash_frame_def by (intro exI [of _ B'] exI [of _ f']) simp
qed

lemma same_but_hash:
  assumes "x\<lparr>b_next := 0, b_prev := 0\<rparr> = y\<lparr>b_next := 0, b_prev := 0\<rparr>"
  shows "b_data x = b_data y" "b_blocknr x = b_blocknr y" "b_dev x = b_dev y" "b_uptodate x = b_uptodate y" "b_dirt x = b_dirt y"
    "b_count x = b_count y" "b_lock x = b_lock y" "b_prev_free x = b_prev_free y" "b_next_free x = b_next_free y"
  using assms by (cases x, cases y, simp)+

lemma hash_frame_fields:
  assumes "hash_frame s u"
  shows "free_list u = free_list s" "NR_BUFFERS u = NR_BUFFERS s" "start_buffer u = start_buffer s" "buffer_wait u = buffer_wait s"
    "b_data (bufs u b) = b_data (bufs s b)" "b_blocknr (bufs u b) = b_blocknr (bufs s b)" "b_dev (bufs u b) = b_dev (bufs s b)"
    "b_uptodate (bufs u b) = b_uptodate (bufs s b)" "b_dirt (bufs u b) = b_dirt (bufs s b)" "b_count (bufs u b) = b_count (bufs s b)"
    "b_lock (bufs u b) = b_lock (bufs s b)" "hash_of (bufs u b) = hash_of (bufs s b)" "free_ring u xs = free_ring s xs"
proof -
  obtain B f where u: "u = s\<lparr>bufs := B, hash_table := f\<rparr>"
    and B: "\<And>b. (B b)\<lparr>b_next := 0, b_prev := 0\<rparr> = (bufs s b)\<lparr>b_next := 0, b_prev := 0\<rparr>"
    using assms by (auto simp: hash_frame_def)
  note f = same_but_hash [OF B]
  show "free_list u = free_list s" "NR_BUFFERS u = NR_BUFFERS s" "start_buffer u = start_buffer s" "buffer_wait u = buffer_wait s"
    by (simp_all add: u)
  show "b_data (bufs u b) = b_data (bufs s b)" "b_blocknr (bufs u b) = b_blocknr (bufs s b)" "b_dev (bufs u b) = b_dev (bufs s b)"
    "b_uptodate (bufs u b) = b_uptodate (bufs s b)" "b_dirt (bufs u b) = b_dirt (bufs s b)" "b_count (bufs u b) = b_count (bufs s b)"
    "b_lock (bufs u b) = b_lock (bufs s b)" "hash_of (bufs u b) = hash_of (bufs s b)"
    using f by (simp_all add: u hash_of_def)
  have "nfree u = nfree s" "pfree u = pfree s"
    using f by (simp_all add: u)
  then show "free_ring u xs = free_ring s xs"
    by (simp add: free_ring_def u)
qed

lemma hash_frame_upd: "(\<And>x. (g x)\<lparr>b_next := 0, b_prev := 0\<rparr> = x\<lparr>b_next := 0, b_prev := 0\<rparr>) \<Longrightarrow> hash_frame s (upd_buf b g s)"
  unfolding hash_frame_def upd_buf_def
  by (intro exI [of _ "(bufs s)(b := g (bufs s b))"] exI [of _ "hash_table s"]) simp

lemma hash_frame_head: "hash_frame s (s\<lparr>hash_table := f\<rparr>)"
  unfolding hash_frame_def by (intro exI [of _ "bufs s"] exI [of _ f]) simp

lemma hash_frame_refl: "hash_frame s s"
  unfolding hash_frame_def by (intro exI [of _ "bufs s"] exI [of _ "hash_table s"]) simp

lemma hash_frame_if: "hash_frame s t \<Longrightarrow> hash_frame s u \<Longrightarrow> hash_frame s (if c then t else u)"
  by simp

lemmas hash_frame_steps = hash_frame_if hash_frame_refl hash_frame_trans [OF _ hash_frame_upd] hash_frame_trans [OF _ hash_frame_head]

lemma hash_frame_remove: "hash_frame s (remove_from_hash_queue b s)"
  unfolding remove_from_hash_queue_def Let_def by (intro hash_frame_steps) simp_all

lemma remove_from_hash_queue_links:
  fixes s :: "'a cache_scheme"
  assumes "nhash s b \<noteq> b" "phash s b \<noteq> b"
  defines "u \<equiv> remove_from_hash_queue b s" and "k \<equiv> hash_of (bufs s b)"
  shows "nhash u = (if phash s b \<noteq> NULL then (nhash s)(phash s b := nhash s b) else nhash s)(b := NULL)"
    "phash u = (if nhash s b \<noteq> NULL then (phash s)(nhash s b := phash s b) else phash s)(b := NULL)"
    "hash_table u = (if hash_table s k = b then (hash_table s)(k := nhash s b) else hash_table s)"
proof -
  let ?t = "if nhash s b \<noteq> NULL then upd_buf (nhash s b) (\<lambda>x. x\<lparr>b_prev := phash s b\<rparr>) s else s"
  let ?v = "if phash s b \<noteq> NULL then upd_buf (phash s b) (\<lambda>x. x\<lparr>b_next := nhash s b\<rparr>) ?t else ?t"
  have t: "nhash ?t b = nhash s b" "phash ?t b = phash s b" "hash_table ?t = hash_table s" "hash_of (bufs ?t b) = k"
    using assms(1) by (simp_all add: upd_buf_def k_def)
  have v: "nhash ?v b = nhash s b" "phash ?v b = phash s b" "hash_table ?v = hash_table s" "hash_of (bufs ?v b) = k"
    using t assms(2) by (simp_all add: upd_buf_def)
  have u: "u = upd_buf b (\<lambda>x. x\<lparr>b_next := NULL, b_prev := NULL\<rparr>)
      (if hash_table ?v k = b then ?v\<lparr>hash_table := (hash_table ?v)(k := nhash ?v b)\<rparr> else ?v)"
    unfolding u_def remove_from_hash_queue_def Let_def by (simp only: t v)
  show "hash_table u = (if hash_table s k = b then (hash_table s)(k := nhash s b) else hash_table s)"
    unfolding u using v by (simp add: upd_buf_def)
  have "nhash ?v = (if phash s b \<noteq> NULL then (nhash s)(phash s b := nhash s b) else nhash s)"
    by (auto simp: upd_buf_def fun_eq_iff)
  moreover have "phash ?v = (if nhash s b \<noteq> NULL then (phash s)(nhash s b := phash s b) else phash s)"
    by (auto simp: upd_buf_def fun_eq_iff)
  moreover have "nhash u = (nhash ?v)(b := NULL)" "phash u = (phash ?v)(b := NULL)"
    unfolding u by (auto simp: upd_buf_def fun_eq_iff)
  ultimately show "nhash u = (if phash s b \<noteq> NULL then (nhash s)(phash s b := nhash s b) else nhash s)(b := NULL)"
    "phash u = (if nhash s b \<noteq> NULL then (phash s)(nhash s b := phash s b) else phash s)(b := NULL)"
    by simp_all
qed

text \<open>The neighbours of an element of a chain.\<close>

lemma chain_neighbours:
  assumes "linked N h (ys @ b # zs)" "prevs P 0 (ys @ b # zs)"
  shows "N b = (if zs = [] then 0 else hd zs)" "P b = (if ys = [] then 0 else last ys)" "h = hd (ys @ [b])"
proof -
  have "linked N b (b # zs)"
    by (rule linked_split [OF assms(1)])
  then show "N b = (if zs = [] then 0 else hd zs)"
    by (cases zs) auto
  show "P b = (if ys = [] then 0 else last ys)"
    using assms(2) by (simp add: prevs_append)
  show "h = hd (ys @ [b])"
    using assms(1) by (cases ys) auto
qed

lemma prevs_remove:
  assumes "prevs P p (ys @ b # zs)" "distinct (ys @ b # zs)"
  shows "prevs (if zs = [] then P else P(hd zs := P b)) p (ys @ zs)"
proof (cases zs)
  case (Cons z zs')
  have "prevs (P(z := P b)) p ys = prevs P p ys" "prevs (P(z := P b)) z zs' = prevs P z zs'"
    using assms(2) Cons by (auto intro!: prevs_cong)
  then show ?thesis
    using assms(1) Cons by (simp add: prevs_append)
qed (use assms(1) in \<open>simp add: prevs_append\<close>)

lemma chain_remove:
  assumes c: "chain s k (ys @ b # zs)" "k = hash_of (bufs s b)"
  shows "chain (remove_from_hash_queue b s) k (ys @ zs)"
proof -
  have l: "linked (nhash s) (hash_table s k) (ys @ b # zs)" "prevs (phash s) NULL (ys @ b # zs)" "distinct (ys @ b # zs)"
    using c(1) by (simp_all add: chain_def)
  have nz: "\<And>x. x \<in> set (ys @ b # zs) \<Longrightarrow> x \<noteq> NULL"
    by (rule linked_nonzero [OF l(1)])
  note n = chain_neighbours [OF l(1,2)]
  have ne: "nhash s b \<noteq> b" "phash s b \<noteq> b"
    using n l(3) nz by auto
  note u = remove_from_hash_queue_links [OF ne]
  have nh: "(nhash s b \<noteq> NULL) = (zs \<noteq> [])" "(phash s b \<noteq> NULL) = (ys \<noteq> [])"
    using n nz by auto
  have "linked (nhash (remove_from_hash_queue b s)) (hash_table (remove_from_hash_queue b s) k) (ys @ zs)"
  proof (cases "ys = []")
    case True
    then show ?thesis
      using linked_remove [OF l(1,3)] l(3) n(2,3) by (simp add: u c(2) [symmetric] nh linked_upd)
  next
    case False
    have "hash_table s k \<noteq> b"
      using n(3) False l(3) by (cases ys) auto
    moreover have "last ys \<noteq> NULL"
      using nz False by simp
    ultimately show ?thesis
      using linked_remove [OF l(1,3)] l(3) n(2) False by (simp add: u c(2) [symmetric] nh linked_upd)
  qed
  moreover have "prevs (phash (remove_from_hash_queue b s)) NULL (ys @ zs)"
  proof -
    have "prevs (phash (remove_from_hash_queue b s)) NULL (ys @ zs) =
        prevs (if zs = [] then phash s else (phash s)(hd zs := phash s b)) NULL (ys @ zs)"
      unfolding u(2) using nh(1) n(1) l(3) by (intro prevs_cong) auto
    then show ?thesis
      using prevs_remove [OF l(2,3)] by simp
  qed
  ultimately show ?thesis
    using l(3) by (simp add: chain_def)
qed

lemma chain_remove_other:
  assumes c: "chain s k (ys @ b # zs)" "k = hash_of (bufs s b)" and o: "chain s j ws" "j \<noteq> k" "set ws \<inter> set (ys @ b # zs) = {}"
  shows "chain (remove_from_hash_queue b s) j ws"
proof -
  have l: "linked (nhash s) (hash_table s k) (ys @ b # zs)" "prevs (phash s) NULL (ys @ b # zs)" "distinct (ys @ b # zs)"
    using c(1) by (simp_all add: chain_def)
  have nz: "\<And>x. x \<in> set (ys @ b # zs) \<Longrightarrow> x \<noteq> NULL"
    by (rule linked_nonzero [OF l(1)])
  note n = chain_neighbours [OF l(1,2)]
  have ne: "nhash s b \<noteq> b" "phash s b \<noteq> b"
    using n l(3) nz by auto
  note u = remove_from_hash_queue_links [OF ne]
  have nb: "nhash s b \<noteq> NULL \<Longrightarrow> nhash s b \<in> set (ys @ b # zs)" "phash s b \<noteq> NULL \<Longrightarrow> phash s b \<in> set (ys @ b # zs)"
    using n by (auto split: if_splits)
  have out: "x \<noteq> b" "phash s b \<noteq> NULL \<Longrightarrow> x \<noteq> phash s b" "nhash s b \<noteq> NULL \<Longrightarrow> x \<noteq> nhash s b" if "x \<in> set ws" for x
    using o(3) nb that by auto
  have "hash_table (remove_from_hash_queue b s) j = hash_table s j"
    unfolding u using o(2) c(2) by simp
  moreover have "linked (nhash (remove_from_hash_queue b s)) h ws = linked (nhash s) h ws" for h
    unfolding u(1) using out(1,2) by (intro linked_cong) simp
  moreover have "prevs (phash (remove_from_hash_queue b s)) NULL ws = prevs (phash s) NULL ws"
    unfolding u(2) using out(1,3) by (intro prevs_cong) simp
  ultimately show ?thesis
    using o(1) by (simp add: chain_def)
qed

lemma chain_remove_unhashed:
  assumes "nhash s b = NULL" "phash s b = NULL" "b \<noteq> NULL" "chain s j ws" "b \<notin> set ws"
    and "hash_table s (hash_of (bufs s b)) \<noteq> b"
  shows "chain (remove_from_hash_queue b s) j ws"
proof -
  have ne: "nhash s b \<noteq> b" "phash s b \<noteq> b"
    using assms(1-3) by auto
  note u = remove_from_hash_queue_links [OF ne]
  have "hash_table (remove_from_hash_queue b s) = hash_table s"
    unfolding u using assms(6) by simp
  moreover have "linked (nhash (remove_from_hash_queue b s)) h ws = linked (nhash s) h ws" for h
    unfolding u(1) using assms(2,5) by (intro linked_cong) auto
  moreover have "prevs (phash (remove_from_hash_queue b s)) NULL ws = prevs (phash s) NULL ws"
    unfolding u(2) using assms(1,5) by (intro prevs_cong) auto
  ultimately show ?thesis
    using assms(4) by (simp add: chain_def)
qed

section \<open>The invariant\<close>

text \<open>
  \<open>xs\<close> is the free list from its head on, and \<open>H\<close> gives the chain of each hash value. No two buffers
  hold the same block.
\<close>

definition hashed :: "'a cache_scheme \<Rightarrow> ptr list \<Rightarrow> nat \<Rightarrow> ptr set" where
  "hashed s xs k = {b \<in> set xs. b_dev (bufs s b) \<noteq> 0 \<and> hash_of (bufs s b) = k}"

definition in_cache :: "'a cache_scheme \<Rightarrow> ptr list \<Rightarrow> (nat \<Rightarrow> ptr list) \<Rightarrow> bool" where
  "in_cache s xs H \<longleftrightarrow> free_ring s xs \<and> length xs = NR_BUFFERS s \<and> 2 \<le> length xs \<and>
     (\<forall>k. chain s k (H k) \<and> set (H k) = hashed s xs k) \<and>
     (\<forall>b \<in> set xs. b_dev (bufs s b) = 0 \<longrightarrow> b_next (bufs s b) = NULL \<and> b_prev (bufs s b) = NULL) \<and>
     (\<forall>a \<in> set xs. \<forall>b \<in> set xs. b_dev (bufs s a) \<noteq> 0 \<and> b_dev (bufs s b) = b_dev (bufs s a) \<and>
        b_blocknr (bufs s b) = b_blocknr (bufs s a) \<longrightarrow> a = b)"

lemma in_cache_unique:
  assumes "in_cache s xs H" and ab: "a \<in> set xs" "b \<in> set xs"
    "b_dev (bufs s a) \<noteq> 0" "b_dev (bufs s b) = b_dev (bufs s a)" "b_blocknr (bufs s b) = b_blocknr (bufs s a)"
  shows "a = b"
proof -
  have "\<forall>a \<in> set xs. \<forall>b \<in> set xs. b_dev (bufs s a) \<noteq> 0 \<and> b_dev (bufs s b) = b_dev (bufs s a) \<and>
      b_blocknr (bufs s b) = b_blocknr (bufs s a) \<longrightarrow> a = b"
    using assms(1) unfolding in_cache_def by - ((drule conjunct2)+, assumption)
  note mp [OF bspec [OF bspec [OF this ab(1)] ab(2)]]
  then show ?thesis
    using ab(3-5) by blast
qed

definition cache_ok :: "'a cache_scheme \<Rightarrow> bool" where
  "cache_ok s \<longleftrightarrow> (\<exists>xs H. in_cache s xs H)"

lemma chain_hash_frame:
  "(\<And>b. b_next (bufs u b) = b_next (bufs s b)) \<Longrightarrow> (\<And>b. b_prev (bufs u b) = b_prev (bufs s b)) \<Longrightarrow> hash_table u = hash_table s \<Longrightarrow>
   chain u k ys = chain s k ys"
  by (simp add: chain_def)

text \<open>Operations on the free list keep the rest of the invariant.\<close>

lemma in_cache_free:
  assumes "in_cache s xs H" "free_frame s u" "free_ring u ys" "set ys = set xs" "length ys = length xs"
  shows "in_cache u ys H"
proof -
  note f = free_frame_fields [OF assms(2)]
  have "chain u k zs = chain s k zs" for k zs
    by (rule chain_hash_frame) (simp_all add: f)
  moreover have "hashed u ys k = hashed s xs k" for k
    by (simp add: hashed_def f assms(4))
  ultimately show ?thesis
    using assms(1,3-5) by (simp add: in_cache_def f)
qed

text \<open>Changes of what is in a buffer, but not of which block it is.\<close>

lemma in_cache_upd:
  assumes "in_cache s xs H"
    and "\<And>x. b_dev (g x) = b_dev x \<and> b_blocknr (g x) = b_blocknr x \<and> b_next (g x) = b_next x \<and> b_prev (g x) = b_prev x \<and>
      b_next_free (g x) = b_next_free x \<and> b_prev_free (g x) = b_prev_free x"
  shows "in_cache (upd_buf b g s) xs H"
proof -
  let ?u = "upd_buf b g s"
  have f: "b_dev (bufs ?u x) = b_dev (bufs s x)" "b_blocknr (bufs ?u x) = b_blocknr (bufs s x)" "b_next (bufs ?u x) = b_next (bufs s x)"
    "b_prev (bufs ?u x) = b_prev (bufs s x)" "b_next_free (bufs ?u x) = b_next_free (bufs s x)" "b_prev_free (bufs ?u x) = b_prev_free (bufs s x)"
    "hash_of (bufs ?u x) = hash_of (bufs s x)" "free_list ?u = free_list s" "hash_table ?u = hash_table s" "NR_BUFFERS ?u = NR_BUFFERS s" for x
    using assms(2) by (simp_all add: upd_buf_def hash_of_def)
  have "chain ?u k zs = chain s k zs" for k zs
    by (rule chain_hash_frame) (simp_all add: f)
  then show ?thesis
    using assms(1) by (simp add: in_cache_def hashed_def f free_ring_def)
qed

text \<open>What a buffer holds, its links aside.\<close>

definition core :: "buffer_head \<Rightarrow> u32 \<times> u16 \<times> u32 \<times> bool \<times> bool \<times> u8 \<times> bool" where
  "core b = (b_data b, b_dev b, b_blocknr b, b_uptodate b, b_dirt b, b_count b, b_lock b)"

lemma core_frames: "free_frame s u \<Longrightarrow> core (bufs u b) = core (bufs s b)" "hash_frame s u \<Longrightarrow> core (bufs u b) = core (bufs s b)"
  by (simp_all add: core_def free_frame_fields hash_frame_fields)

lemma core_hash_of: "core x = core y \<Longrightarrow> hash_of x = hash_of y"
  by (simp add: core_def hash_of_def)

lemma remove_hash_ok:
  assumes c: "in_cache s xs H" and b: "b \<in> set xs"
  defines "u \<equiv> remove_from_hash_queue b s"
  shows "\<And>k. chain u k (remove1 b (H k))" "free_ring u xs" "\<And>x. core (bufs u x) = core (bufs s x)"
    "\<And>x. x \<in> set xs \<Longrightarrow> x \<noteq> b \<Longrightarrow> b_dev (bufs s x) = 0 \<Longrightarrow> b_next (bufs u x) = NULL \<and> b_prev (bufs u x) = NULL" "NR_BUFFERS u = NR_BUFFERS s"
proof -
  have ch: "\<And>k. chain s k (H k)" "\<And>k. set (H k) = hashed s xs k" and r: "free_ring s xs"
    and un: "\<And>x. x \<in> set xs \<Longrightarrow> b_dev (bufs s x) = 0 \<Longrightarrow> b_next (bufs s x) = NULL \<and> b_prev (bufs s x) = NULL"
    using c by (auto simp: in_cache_def)
  have nz: "x \<noteq> NULL" if "x \<in> set xs" for x
    using r that unfolding free_ring_def ring_def by metis
  note f = hash_frame_remove [of s b, folded u_def]
  show "free_ring u xs" "\<And>x. core (bufs u x) = core (bufs s x)" "NR_BUFFERS u = NR_BUFFERS s"
    using r by (simp_all add: hash_frame_fields [OF f] core_frames(2) [OF f])
  let ?k = "hash_of (bufs s b)"
  have "(\<forall>k. chain u k (remove1 b (H k))) \<and>
    (\<forall>x. x \<in> set xs \<longrightarrow> x \<noteq> b \<longrightarrow> b_dev (bufs s x) = 0 \<longrightarrow> b_next (bufs u x) = NULL \<and> b_prev (bufs u x) = NULL)"
  proof (cases "b_dev (bufs s b) = 0")
    case True
    have out: "b \<notin> set (H k)" for k
      using True ch(2) by (simp add: hashed_def)
    have "hash_table s ?k \<noteq> b"
      using ch(1) [of ?k] out [of ?k] nz [OF b] by (cases "H ?k") (auto simp: chain_def)
    then have "chain u k (H k)" for k
      using un [OF b True] nz [OF b] out ch(1) unfolding u_def by (intro chain_remove_unhashed) auto
    moreover have "nhash u x = NULL \<and> phash u x = NULL" if "x \<in> set xs" "b_dev (bufs s x) = 0" for x
    proof -
      have "nhash s b \<noteq> b" "phash s b \<noteq> b"
        using un [OF b True] nz [OF b] by auto
      from remove_from_hash_queue_links(1,2) [OF this, THEN fun_cong, of x] show ?thesis
        using un [OF b True] un [OF that] unfolding u_def by simp
    qed
    ultimately show ?thesis
      using out by (simp add: remove1_idem)
  next
    case False
    have "b \<in> set (H ?k)"
      using False b ch(2) by (simp add: hashed_def)
    then obtain ys zs where s: "H ?k = ys @ b # zs"
      by (meson split_list)
    have cs: "chain s ?k (ys @ b # zs)"
      using ch(1) [of ?k] s by simp
    then have d: "distinct (ys @ b # zs)" "linked (nhash s) (hash_table s ?k) (ys @ b # zs)" "prevs (phash s) NULL (ys @ b # zs)"
      by (simp_all add: chain_def)
    have nz': "\<And>x. x \<in> set (ys @ b # zs) \<Longrightarrow> x \<noteq> NULL"
      by (rule linked_nonzero [OF d(2)])
    have "chain u k (remove1 b (H k))" for k
    proof (cases "k = ?k")
      case True
      then show ?thesis
        using chain_remove [OF cs refl] d(1) s by (simp add: u_def remove1_append)
    next
      case False
      have disj: "set (H k) \<inter> set (ys @ b # zs) = {}"
        unfolding s [symmetric] ch(2) using False by (auto simp: hashed_def)
      then have "b \<notin> set (H k)"
        by auto
      with chain_remove_other [OF cs refl ch(1) False disj] show ?thesis
        by (simp add: u_def remove1_idem)
    qed
    moreover have "nhash u x = NULL \<and> phash u x = NULL" if x: "x \<in> set xs" "b_dev (bufs s x) = 0" for x
    proof -
      have xh: "x \<notin> set (ys @ b # zs)"
        unfolding s [symmetric] ch(2) using x(2) by (simp add: hashed_def)
      note n = chain_neighbours [OF d(2,3)]
      have ne: "nhash s b \<noteq> b" "phash s b \<noteq> b"
        using n d(1) nz' by auto
      have "nhash s b \<noteq> NULL \<Longrightarrow> x \<noteq> nhash s b" "phash s b \<noteq> NULL \<Longrightarrow> x \<noteq> phash s b" "x \<noteq> b"
        using n xh by (auto split: if_splits)
      with remove_from_hash_queue_links(1,2) [OF ne, THEN fun_cong, of x] un [OF x] show ?thesis
        unfolding u_def by simp
    qed
    ultimately show ?thesis
      by blast
  qed
  then show "\<And>k. chain u k (remove1 b (H k))"
    "\<And>x. x \<in> set xs \<Longrightarrow> x \<noteq> b \<Longrightarrow> b_dev (bufs s x) = 0 \<Longrightarrow> b_next (bufs u x) = NULL \<and> b_prev (bufs u x) = NULL"
    by blast+
qed

lemma find_chain_ok:
  assumes "linked (nhash s) h ys"
  shows "find_chain dev block h s = Some (case filter (\<lambda>b. is_block dev block (bufs s b)) ys of [] \<Rightarrow> NULL | b # _ \<Rightarrow> b)"
  using assms
proof (induction ys arbitrary: h)
  case (Cons y ys)
  then show ?case
    by (subst find_chain.simps) auto
qed (subst find_chain.simps, simp)

lemma find_buffer_ok:
  assumes c: "in_cache s xs H" and "dev \<noteq> 0"
  shows "\<exists>b. find_buffer dev block s = Some b \<and>
    (if b = NULL then \<forall>x \<in> set xs. \<not> is_block dev block (bufs s x) else b \<in> set xs \<and> is_block dev block (bufs s b))"
proof -
  let ?k = "hashfn dev block" and ?ys = "filter (\<lambda>b. is_block dev block (bufs s b)) (H (hashfn dev block))"
  have ch: "chain s ?k (H ?k)" "set (H ?k) = hashed s xs ?k"
    using c by (auto simp: in_cache_def)
  have f: "find_buffer dev block s = Some (case ?ys of [] \<Rightarrow> NULL | b # _ \<Rightarrow> b)"
    unfolding find_buffer_def using ch(1) by (intro find_chain_ok) (simp add: chain_def)
  have nz: "\<And>x. x \<in> set (H ?k) \<Longrightarrow> x \<noteq> NULL"
    using ch(1) linked_nonzero unfolding chain_def by metis
  have in_chain: "x \<in> set ?ys" if "x \<in> set xs" "is_block dev block (bufs s x)" for x
  proof -
    have "ucast (b_dev (bufs s x)) = dev" "b_blocknr (bufs s x) = block"
      using that(2) by (simp_all add: is_block_def)
    then have "x \<in> hashed s xs ?k"
      using that(1) assms(2) unfolding hashed_def hash_of_def by (metis (mono_tags, lifting) mem_Collect_eq ucast_0)
    then show ?thesis
      using that(2) by (simp add: ch(2))
  qed
  show ?thesis
  proof (cases ?ys)
    case Nil
    with f in_chain show ?thesis
      by fastforce
  next
    case (Cons b ys)
    then have "b \<in> set ?ys"
      by simp
    then have b: "b \<in> set (H ?k)" "is_block dev block (bufs s b)"
      by simp_all
    moreover from b(1) have "b \<in> set xs"
      unfolding ch(2) by (simp add: hashed_def)
    ultimately show ?thesis
      using f nz [OF b(1)] Cons by (intro exI [of _ b]) simp
  qed
qed

lemma insert_into_queues_ok:
  fixes t :: "'a cache_scheme"
  assumes r: "free_ring t xs" "b \<notin> set xs" "b \<noteq> NULL" and dev: "b_dev (bufs t b) \<noteq> 0"
    and ch: "\<And>k. chain t k (H k)" "\<And>k. b \<notin> set (H k)" and disj: "\<forall>j k. j \<noteq> k \<longrightarrow> set (H j) \<inter> set (H k) = {}"
  defines "u \<equiv> insert_into_queues b t" and "kb \<equiv> hash_of (bufs t b)"
  shows "free_ring u (xs @ [b])" "\<And>x. core (bufs u x) = core (bufs t x)" "NR_BUFFERS u = NR_BUFFERS t"
    "chain u k (if k = kb then b # H k else H k)"
    "x \<noteq> b \<Longrightarrow> x \<noteq> NULL \<Longrightarrow> x \<notin> set (H kb) \<Longrightarrow> nhash u x = nhash t x \<and> phash u x = phash t x"
proof -
  let ?v = "link_free b t" and ?h = "hash_table t kb"
  note v = free_frame_fields [OF link_free_ok(2) [OF r]]
  let ?w = "upd_buf b (\<lambda>b. b\<lparr>b_prev := NULL, b_next := NULL\<rparr>) ?v"
  let ?y = "(upd_buf b (\<lambda>x. x\<lparr>b_next := ?h\<rparr>) ?w)\<lparr>hash_table := (hash_table t)(kb := b)\<rparr>"
  have w: "b_dev (bufs ?w b) = b_dev (bufs t b)" "hash_of (bufs ?w b) = kb" "hash_table ?w = hash_table t"
    by (simp_all add: upd_buf_def v kb_def hash_of_def)
  have u: "u = upd_buf ?h (\<lambda>x. x\<lparr>b_prev := b\<rparr>) ?y"
    using dev by (simp add: u_def insert_into_queues_def Let_def w) (simp add: upd_buf_def w v)
  have hf: "hash_frame ?v u"
    unfolding u by (intro hash_frame_steps) simp_all
  note h = hash_frame_fields [OF hf]
  show "free_ring u (xs @ [b])"
    using link_free_ok(1) [OF r] by (simp add: h)
  show "core (bufs u x) = core (bufs t x)" for x
    using core_frames(2) [OF hf] core_frames(1) [OF link_free_ok(2) [OF r]] by simp
  show "NR_BUFFERS u = NR_BUFFERS t"
    by (simp add: h v)
  have head: "?h \<noteq> b"
    using ch [of kb] r(3) by (cases "H kb") (auto simp: chain_def)
  have N: "nhash u = (nhash t)(b := ?h)" "phash u = (phash t)(b := NULL, ?h := b)" "hash_table u = (hash_table t)(kb := b)"
    unfolding u using head by (auto simp: upd_buf_def v fun_eq_iff)
  have hin: "?h = NULL \<or> ?h \<in> set (H kb)"
    using ch(1) [of kb] by (cases "H kb") (auto simp: chain_def)
  show "x \<noteq> b \<Longrightarrow> x \<noteq> NULL \<Longrightarrow> x \<notin> set (H kb) \<Longrightarrow> nhash u x = nhash t x \<and> phash u x = phash t x"
    using N(1,2) [THEN fun_cong, of x] hin by auto
  show "chain u k (if k = kb then b # H k else H k)"
  proof (cases "k = kb")
    case True
    have "prevs (phash u) b (H kb)"
    proof (cases "H kb")
      case (Cons z zs)
      then have z: "?h = z" "prevs (phash t) z zs" "z \<notin> set zs" "b \<notin> set zs"
        using ch [of kb] by (auto simp: chain_def)
      have "prevs (phash u) z zs = prevs (phash t) z zs"
        unfolding N(2) using z by (intro prevs_cong) auto
      then show ?thesis
        using z Cons N(2) by simp
    qed simp
    moreover have "linked (nhash u) ?h (H kb)"
      unfolding N(1) using ch [of kb] by (simp add: chain_def linked_upd)
    moreover have "nhash u b = ?h" "phash u b = NULL"
      using N(1,2) [THEN fun_cong, of b] head by simp_all
    ultimately show ?thesis
      using True ch [of kb] r(3) N(3) by (simp add: chain_def)
  next
    case False
    have "NULL \<notin> set (H k)"
      using ch(1) [of k] linked_nonzero unfolding chain_def by metis
    moreover have "set (H k) \<inter> set (H kb) = {}"
      using disj False by simp
    ultimately have "?h \<notin> set (H k)"
      using hin by auto
    then have "prevs (phash u) NULL (H k) = prevs (phash t) NULL (H k)"
      unfolding N(2) using ch(2) [of k] by (intro prevs_cong) auto
    moreover have "linked (nhash u) h (H k) = linked (nhash t) h (H k)" for h
      unfolding N(1) using ch(2) [of k] by (simp add: linked_upd)
    ultimately show ?thesis
      using False ch(1) [of k] N(3) by (simp add: chain_def)
  qed
qed

lemma same_core_upd: "(\<And>x. core (g x) = core x) \<Longrightarrow> core (bufs (upd_buf b g s) y) = core (bufs s y)"
  by (simp add: upd_buf_def)

text \<open>Giving a buffer to another block.\<close>

lemma claim_buffer_ok:
  assumes c: "in_cache s xs H" and b: "b \<in> set xs" and dev: "dev \<noteq> 0" "unat dev < 2 ^ 16"
    and new: "\<And>x. x \<in> set xs \<Longrightarrow> \<not> is_block dev block (bufs s x)"
  shows "\<exists>u H'. claim_buffer dev block b s = Ret () u \<and> in_cache u (remove1 b xs @ [b]) H' \<and>
    core (bufs u b) = (b_data (bufs s b), ucast dev, block, False, False, 1, b_lock (bufs s b)) \<and>
    (\<forall>x. x \<noteq> b \<longrightarrow> core (bufs u x) = core (bufs s x))"
proof -
  let ?g = "\<lambda>x. x\<lparr>b_count := 1, b_dirt := False, b_uptodate := False\<rparr>"
  let ?s = "upd_buf b ?g s"
  have c0: "in_cache ?s xs H"
    by (rule in_cache_upd [OF c]) simp
  define t where "t = remove_from_hash_queue b ?s"
  note rm = remove_hash_ok [OF c0 b, folded t_def]
  obtain ys zs where xs: "xs = ys @ b # zs"
    using b by (meson split_list)
  have len: "2 \<le> length xs" "length xs = NR_BUFFERS s" and dx: "distinct xs" and bn: "b \<noteq> NULL"
    and un: "\<And>x. x \<in> set xs \<Longrightarrow> b_dev (bufs s x) = 0 \<Longrightarrow> b_next (bufs s x) = NULL \<and> b_prev (bufs s x) = NULL"
    using c b by (auto simp: in_cache_def free_ring_def ring_def) (metis gr0I)
  then have ne: "ys @ zs \<noteq> []" "remove1 b xs = ys @ zs" "b \<notin> set (ys @ zs)"
    using xs by (auto simp: remove1_append)
  obtain v where v: "remove_from_free_list b t = Ret () v" "free_ring v (ys @ zs)" "free_frame t v"
    using remove_from_free_list_ok [of t ys b zs] rm(2) xs ne(1) by auto
  note vf = free_frame_fields [OF v(3)]
  let ?h = "\<lambda>x. x\<lparr>b_dev := ucast dev, b_blocknr := block\<rparr>"
  let ?w = "upd_buf b ?h v" and ?H = "\<lambda>k. remove1 b (H k)"
  have claim: "claim_buffer dev block b s = Ret () (insert_into_queues b ?w)"
    by (simp add: claim_buffer_def remove_from_queues_def t_def [symmetric] v(1))
  have "nfree ?w = nfree v" "pfree ?w = pfree v" "free_list ?w = free_list v"
    by (auto simp: upd_buf_def fun_eq_iff)
  then have "free_ring ?w (ys @ zs)"
    using v(2) by (simp only: free_ring_def)
  moreover have "hash_table ?w = hash_table v" "NR_BUFFERS ?w = NR_BUFFERS v" "nhash ?w = nhash v" "phash ?w = phash v"
    by (simp_all add: upd_buf_def fun_eq_iff)
  ultimately have wf: "free_ring ?w (ys @ zs)" "hash_table ?w = hash_table v" "NR_BUFFERS ?w = NR_BUFFERS v" "nhash ?w = nhash v" "phash ?w = phash v"
    by blast+
  have hs: "set (H k) = hashed ?s xs k" "chain ?s k (H k)" for k
    using c0 by (simp_all add: in_cache_def)
  have dist: "distinct (H k)" for k
    using hs(2) [of k] by (simp add: chain_def)
  have chw: "chain ?w k (?H k)" for k
    using rm(1) [of k] by (simp add: chain_def wf vf)
  have ucast_dev: "ucast (ucast dev :: u16) = dev"
    using dev(2) by (simp add: word_unat_eq_iff unsigned_ucast_eq unsigned_take_bit_eq take_bit_nat_eq_self)
  then have d16: "ucast dev \<noteq> (0 :: u16)"
    using dev(1) by (metis ucast_0)
  let ?kb = "hash_of (bufs ?w b)"
  have outH: "b \<notin> set (?H k)" for k
    using dist by simp
  have disj: "\<forall>j k. j \<noteq> k \<longrightarrow> set (?H j) \<inter> set (?H k) = {}"
    using hs(1) dist by (auto simp: hashed_def)
  have dw: "b_dev (bufs ?w b) \<noteq> 0"
    using d16 by (simp add: upd_buf_def)
  define u where "u = insert_into_queues b ?w"
  note ins = insert_into_queues_ok [OF wf(1) ne(3) bn dw chw outH disj, folded u_def]
  define H' where "H' = (\<lambda>k. if k = ?kb then b # ?H k else ?H k)"
  have core_u: "core (bufs u x) = core (bufs ?w x)" for x
    by (rule ins(2))
  have core_v: "core (bufs v x) = core (bufs ?s x)" for x
    using core_frames(1) [OF v(3)] rm(3) by simp
  have core_b: "core (bufs u b) = (b_data (bufs s b), ucast dev, block, False, False, 1, b_lock (bufs s b))"
    using core_u [of b] core_v [of b] by (simp add: core_def upd_buf_def)
  have core_x: "core (bufs u x) = core (bufs s x)" if "x \<noteq> b" for x
    using core_u [of x] core_v [of x] that by (simp add: core_def upd_buf_def)
  have fb: "b_dev (bufs u b) = ucast dev" "b_blocknr (bufs u b) = block" "hash_of (bufs u b) = ?kb"
    using core_b core_hash_of [OF core_u [of b]] by (simp_all add: core_def)
  have fx: "b_dev (bufs u x) = b_dev (bufs s x)" "b_blocknr (bufs u x) = b_blocknr (bufs s x)" "hash_of (bufs u x) = hash_of (bufs s x)"
    if "x \<noteq> b" for x
    using core_x [OF that] core_hash_of [OF core_x [OF that]] by (simp_all add: core_def)
  have "in_cache u (ys @ zs @ [b]) H'"
    unfolding in_cache_def
  proof (intro conjI allI ballI impI)
    show "free_ring u (ys @ zs @ [b])"
      using ins(1) by simp
    show "length (ys @ zs @ [b]) = NR_BUFFERS u" "2 \<le> length (ys @ zs @ [b])"
      using len xs ins(3) wf(3) vf(2) rm(5) by (simp_all add: upd_buf_def)
    show "chain u k (H' k)" for k
      unfolding H'_def by (rule ins(4))
    show "set (H' k) = hashed u (ys @ zs @ [b]) k" for k
    proof (rule set_eqI)
      fix x
      have "x \<in> set (H' k) \<longleftrightarrow> x = b \<and> k = ?kb \<or> x \<noteq> b \<and> x \<in> set (H k)"
        using dist [of k] by (auto simp: H'_def)
      moreover have "x \<in> set (H k) \<longleftrightarrow> x \<in> set xs \<and> b_dev (bufs s x) \<noteq> 0 \<and> hash_of (bufs s x) = k" if "x \<noteq> b"
        using hs(1) [of k] that by (simp add: hashed_def upd_buf_def)
      ultimately show "x \<in> set (H' k) \<longleftrightarrow> x \<in> hashed u (ys @ zs @ [b]) k"
        using fx [of x] fb d16 xs by (cases "x = b") (auto simp: hashed_def)
    qed
    show "nhash u x = NULL" "phash u x = NULL" if x: "x \<in> set (ys @ zs @ [b])" "b_dev (bufs u x) = 0" for x
    proof -
      have xb: "x \<noteq> b"
        using x(2) fb(1) d16 by auto
      then have xs': "x \<in> set xs" "b_dev (bufs s x) = 0"
        using x xs fx(1) [of x] by auto
      then have "x \<notin> set (?H ?kb)" "x \<noteq> NULL"
        using hs(1) [of ?kb] dist [of ?kb] xb c unfolding in_cache_def free_ring_def ring_def by (auto simp: hashed_def upd_buf_def)
      moreover have "nhash ?w x = NULL" "phash ?w x = NULL"
        using rm(4) [OF xs'(1) xb] xs'(2) xb wf(4,5) [THEN fun_cong, of x] by (simp_all add: vf upd_buf_def)
      ultimately show "nhash u x = NULL" "phash u x = NULL"
        using ins(5) [OF xb] by simp_all
    qed
    show "x = y" if "x \<in> set (ys @ zs @ [b])" "y \<in> set (ys @ zs @ [b])"
      "b_dev (bufs u x) \<noteq> 0 \<and> b_dev (bufs u y) = b_dev (bufs u x) \<and> b_blocknr (bufs u y) = b_blocknr (bufs u x)" for x y
    proof -
      have no: "\<not> (b_dev (bufs s z) = ucast dev \<and> b_blocknr (bufs s z) = block)" if "z \<in> set xs" for z
        using new [OF that] ucast_dev by (auto simp: is_block_def)
      note uni = in_cache_unique [OF c, of x y]
      have mem: "x \<in> set xs" "y \<in> set xs"
        using that(1,2) xs by auto
      consider "x = b" "y = b" | "x = b" "y \<noteq> b" | "x \<noteq> b" "y = b" | "x \<noteq> b" "y \<noteq> b"
        by blast
      then show ?thesis
      proof cases
        case 2
        then show ?thesis
          using that(3) fb(1,2) fx(1,2) [of y] no [OF mem(2)] by simp
      next
        case 3
        then show ?thesis
          using that(3) fb(1,2) fx(1,2) [of x] no [OF mem(1)] by simp
      next
        case 4
        then show ?thesis
          using that(3) fx(1,2) [of x] fx(1,2) [of y] uni [OF mem] by simp
      qed simp
    qed
  qed
  then show ?thesis
    using claim core_b core_x ne(2) u_def by (intro exI [of _ u] exI [of _ H']) simp
qed

lemma and_then_Ret: "and_then m f = Ret r u \<longleftrightarrow> (\<exists>x t. m = Ret x t \<and> f x t = Ret r u)"
  by (cases m) simp_all

section \<open>What the drivers leave alone\<close>

text \<open>A driver may unlock buffers and say that they are up to date; it changes nothing in the queues.\<close>

definition key :: "buffer_head \<Rightarrow> u32 \<times> u16 \<times> u32 \<times> u8 \<times> ptr \<times> ptr \<times> ptr \<times> ptr" where
  "key b = (b_data b, b_dev b, b_blocknr b, b_count b, b_next b, b_prev b, b_next_free b, b_prev_free b)"

definition keeps_cache :: "'a cache_scheme \<Rightarrow> 'a cache_scheme \<Rightarrow> bool" where
  "keeps_cache s u \<longleftrightarrow> hash_table u = hash_table s \<and> free_list u = free_list s \<and> NR_BUFFERS u = NR_BUFFERS s \<and>
     (\<forall>b. key (bufs u b) = key (bufs s b))"

lemma keeps_cache_refl: "keeps_cache s s"
  by (simp add: keeps_cache_def)

lemma keeps_cache_trans: "keeps_cache s t \<Longrightarrow> keeps_cache t u \<Longrightarrow> keeps_cache s u"
  by (simp add: keeps_cache_def)

lemma keeps_cache_in_cache:
  assumes "keeps_cache s u"
  shows "in_cache u xs H = in_cache s xs H"
proof -
  have k: "b_dev (bufs u b) = b_dev (bufs s b)" "b_blocknr (bufs u b) = b_blocknr (bufs s b)" "b_next (bufs u b) = b_next (bufs s b)"
    "b_prev (bufs u b) = b_prev (bufs s b)" "b_next_free (bufs u b) = b_next_free (bufs s b)" "b_prev_free (bufs u b) = b_prev_free (bufs s b)" for b
    using assms by (simp_all add: keeps_cache_def key_def)
  have h: "hash_of (bufs u b) = hash_of (bufs s b)" for b
    by (simp add: hash_of_def k)
  have "chain u j zs = chain s j zs" for j zs
    using assms by (intro chain_hash_frame) (simp_all add: k keeps_cache_def)
  then show ?thesis
    using assms by (simp add: in_cache_def hashed_def free_ring_def k h keeps_cache_def)
qed

lemma keeps_cache_upd: "(\<And>x. key (g x) = key x) \<Longrightarrow> keeps_cache s (upd_buf b g s)"
  by (simp add: keeps_cache_def upd_buf_def)

lemma keeps_cache_other: "bufs u = bufs s \<Longrightarrow> blk.more u = blk.more s \<Longrightarrow> keeps_cache s u"
  by (cases s, cases u) (simp add: keeps_cache_def)

lemma keeps_cache_requests: "keeps_cache s (upd_req r f s)" "keeps_cache s (s\<lparr>current_request := q\<rparr>)"
  by (simp_all add: keeps_cache_def upd_req_def)

lemma kernel_more_cache: "kernel.more u = kernel.more s \<Longrightarrow> keeps_cache s u"
  by (cases s, cases u) (simp add: keeps_cache_def)

lemma keeps_cache_unlock: "keeps_cache s (unlock_buffer b s)"
proof -
  have "keeps_cache s (upd_buf b (\<lambda>b. b\<lparr>b_lock := False\<rparr>) s)"
    by (rule keeps_cache_upd) (simp add: key_def)
  moreover have "keeps_cache t (wake_up q t)" for t :: "'a cache_scheme" and q
    by (rule kernel_more_cache) (simp add: wake_up_def upd_task_def)
  ultimately show ?thesis
    unfolding unlock_buffer_def by (rule keeps_cache_trans)
qed

lemma keeps_cache_sleep: "sleep_on init_task q s = Ret tmp u \<Longrightarrow> keeps_cache s u"
  by (rule kernel_more_cache) (auto simp: sleep_on_def sleep_begin_def Let_def upd_cur_def upd_task_def split: if_splits)

locale block_driver =
  fixes fns :: "'a cache_ext request_fns"
  assumes keeps: "fns major = Some f \<Longrightarrow> f s = Ret () u \<Longrightarrow> keeps_cache s u"
begin

lemma add_request_keeps:
  assumes "add_request fns major req s = Some (Ret () u)"
  shows "keeps_cache s u"
proof -
  let ?s = "upd_req req (\<lambda>r. r\<lparr>rq_next := NULL\<rparr>) s"
  let ?t = "if rq_bh (requests ?s req) \<noteq> NULL then upd_buf (rq_bh (requests ?s req)) (\<lambda>b. b\<lparr>b_dirt := False\<rparr>) ?s else ?s"
  have "keeps_cache ?s (upd_buf b (\<lambda>b. b\<lparr>b_dirt := False\<rparr>) ?s)" for b
    by (rule keeps_cache_upd) (simp add: key_def)
  then have "keeps_cache ?s ?t"
    by (simp add: keeps_cache_refl)
  then have t: "keeps_cache s ?t"
    by (rule keeps_cache_trans [OF keeps_cache_requests(1)])
  show ?thesis
  proof (cases "current_request ?t major = NULL")
    case True
    then obtain f where f: "fns major = Some f" "f (?t\<lparr>current_request := (current_request ?t)(major := req)\<rparr>) = Ret () u"
      using assms by (auto simp: add_request_def Let_def split: option.splits)
    show ?thesis
      by (rule keeps_cache_trans [OF t keeps_cache_trans [OF keeps_cache_requests(2) keeps [OF f]]])
  next
    case False
    then obtain p where "u = upd_req p (\<lambda>r. r\<lparr>rq_next := req\<rparr>) (upd_req req (\<lambda>r. r\<lparr>rq_next := rq_next (requests ?t p)\<rparr>) ?t)"
      using assms by (auto simp: add_request_def Let_def)
    then show ?thesis
      using keeps_cache_trans [OF t keeps_cache_trans [OF keeps_cache_requests(1) keeps_cache_requests(1)]] by simp
  qed
qed

lemma make_request_keeps:
  assumes "make_request_lock fns init_task major rw ahead b s = Some (Ret r u)"
  shows "keeps_cache s u"
proof (cases "b_lock (bufs s b)")
  case True
  then obtain tmp where "sleep_on init_task (b_wait b) s = Ret tmp u"
    using assms by (auto simp: make_request_lock_def blk_sleep_def and_then_Ret)
  then show ?thesis
    by (rule keeps_cache_sleep)
next
  case False
  let ?s = "upd_buf b (\<lambda>b. b\<lparr>b_lock := True\<rparr>) s"
  have s: "keeps_cache s ?s"
    by (rule keeps_cache_upd) (simp add: key_def)
  have "keeps_cache ?s u"
  proof (cases "(rw = WRITE \<and> \<not> b_dirt (bufs ?s b)) \<or> (rw = READ \<and> b_uptodate (bufs ?s b))")
    case True
    then show ?thesis
      using assms False keeps_cache_unlock by (auto simp: make_request_lock_def Let_def)
  next
    case find: False
    then have "make_request_find fns init_task major rw ahead b ?s = Some (Ret r u)"
      using assms False by (simp only: make_request_lock_def Let_def if_False)
    then show ?thesis
      unfolding make_request_find_def
      by (auto simp: blk_sleep_def and_then_Ret split: option.splits if_splits
          intro: keeps_cache_unlock keeps_cache_sleep keeps_cache_trans [OF keeps_cache_requests(1) add_request_keeps])
  qed
  with s show ?thesis
    by (rule keeps_cache_trans)
qed

lemma ll_rw_block_keeps: "ll_rw_block fns init_task rw b s = Some (Ret r u) \<Longrightarrow> keeps_cache s u"
  by (auto simp: ll_rw_block_def make_request_def Let_def intro: keeps_cache_refl make_request_keeps split: if_splits)

lemma write_ahead_keeps: "write_ahead fns init_task b s = Some (Ret r u) \<Longrightarrow> keeps_cache s u"
  by (auto simp: write_ahead_def and_then_Ret intro: ll_rw_block_keeps)

end

section \<open>What getblk returns\<close>

lemma in_cache_ring: "in_cache s xs H \<Longrightarrow> free_ring s xs"
  by (simp add: in_cache_def)

lemma in_cache_nonzero: "in_cache s xs H \<Longrightarrow> b \<in> set xs \<Longrightarrow> b \<noteq> NULL"
  unfolding in_cache_def free_ring_def ring_def by metis

lemma dev_inj: "(ucast a :: u32) = ucast b \<Longrightarrow> a = b" for a b :: u16
proof -
  assume "(ucast a :: u32) = ucast b"
  then have "unat (ucast a :: u32) = unat (ucast b :: u32)"
    by simp
  moreover have "unat c < 2 ^ 32" for c :: u16
    using unsigned_less [of c, where ?'a = nat] by simp
  ultimately show "a = b"
    by (simp add: unsigned_ucast_eq take_bit_nat_eq_self word_unat_eq_iff)
qed

lemma put_last_free_in_cache:
  assumes "in_cache s xs H" "b \<in> set xs"
  shows "\<exists>u. put_last_free b s = Ret () u \<and> in_cache u (remove1 b xs @ [b]) H \<and> (\<forall>x. core (bufs u x) = core (bufs s x))"
proof -
  obtain u where u: "put_last_free b s = Ret () u" "free_ring u (remove1 b xs @ [b])" "free_frame s u"
    using put_last_free_ok [OF in_cache_ring [OF assms(1)] assms(2)] by blast
  have "set (remove1 b xs @ [b]) = set xs" "length (remove1 b xs @ [b]) = length xs"
    using assms in_cache_ring [OF assms(1)] by (auto simp: free_ring_def ring_def length_remove1 Suc_pred length_pos_if_in_set)
  from in_cache_free [OF assms(1) u(3,2) this] u(1) core_frames(1) [OF u(3)] show ?thesis
    by blast
qed

text \<open>The block is in the cache, and its buffer is not locked.\<close>

lemma get_hash_table_hit:
  assumes c: "in_cache s xs H" and b: "b \<in> set xs" "is_block dev block (bufs s b)" "\<not> b_lock (bufs s b)" and dev: "dev \<noteq> 0"
  shows "\<exists>u. get_hash_table init_task dev block None s = Some (Ret (Got b) u) \<and> in_cache u (remove1 b xs @ [b]) H \<and>
    b_count (bufs u b) = b_count (bufs s b) + 1 \<and> (\<forall>x. x \<noteq> b \<longrightarrow> core (bufs u x) = core (bufs s x)) \<and>
    is_block dev block (bufs u b)"
proof -
  obtain b' where f: "find_buffer dev block s = Some b'"
    "if b' = NULL then \<forall>x \<in> set xs. \<not> is_block dev block (bufs s x) else b' \<in> set xs \<and> is_block dev block (bufs s b')"
    using find_buffer_ok [OF c dev] by blast
  have b': "b' \<noteq> NULL" "b' \<in> set xs" "is_block dev block (bufs s b')"
    using f(2) b(1,2) by (auto split: if_splits)
  have "b' = b"
  proof (rule in_cache_unique [OF c b'(2) b(1)])
    have d: "ucast (b_dev (bufs s b')) = dev" "ucast (b_dev (bufs s b)) = dev"
      using b(2) b'(3) by (simp_all add: is_block_def)
    then show "b_dev (bufs s b) = b_dev (bufs s b')"
      by (metis dev_inj)
    show "b_dev (bufs s b') \<noteq> 0"
      using dev d(1) by (metis ucast_0)
    show "b_blocknr (bufs s b) = b_blocknr (bufs s b')"
      using b(2) b'(3) by (simp add: is_block_def)
  qed
  let ?s = "upd_buf b (\<lambda>b. b\<lparr>b_count := b_count b + 1\<rparr>) s"
  have c': "in_cache ?s xs H"
    by (rule in_cache_upd [OF c]) simp
  obtain u where u: "put_last_free b ?s = Ret () u" "in_cache u (remove1 b xs @ [b]) H" "\<forall>x. core (bufs u x) = core (bufs ?s x)"
    using put_last_free_in_cache [OF c' b(1)] by blast
  have at: "\<not> b_lock (bufs ?s b)" "is_block dev block (bufs ?s b)"
    using b by (simp_all add: upd_buf_def is_block_def)
  have "get_hash_table init_task dev block (Some b) ?s = Some (Ret (Got b) u)"
    using at u(1) by (subst get_hash_table.simps) simp
  then have "get_hash_table init_task dev block None s = Some (Ret (Got b) u)"
    using f(1) b'(1) \<open>b' = b\<close> by (subst get_hash_table.simps) simp
  moreover have "core (bufs u b) = core (bufs ?s b)" "core (bufs ?s b) = core ((bufs s b)\<lparr>b_count := b_count (bufs s b) + 1\<rparr>)"
    using u(3) by (simp_all add: upd_buf_def)
  then have "b_count (bufs u b) = b_count (bufs s b) + 1" "is_block dev block (bufs u b)"
    using b(2) by (simp_all add: core_def is_block_def)
  moreover have "core (bufs u x) = core (bufs s x)" if "x \<noteq> b" for x
    using u(3) that by (simp add: upd_buf_def)
  ultimately show ?thesis
    using u(2) by blast
qed

lemma get_hash_table_miss:
  assumes "in_cache s xs H" "dev \<noteq> 0" "\<And>x. x \<in> set xs \<Longrightarrow> \<not> is_block dev block (bufs s x)"
  shows "find_buffer dev block s = Some NULL" "get_hash_table init_task dev block None s = Some (Ret (Got NULL) s)"
proof -
  show f: "find_buffer dev block s = Some NULL"
    using find_buffer_ok [OF assms(1,2), of block] assms(3) by (auto split: if_splits)
  show "get_hash_table init_task dev block None s = Some (Ret (Got NULL) s)"
    by (subst get_hash_table.simps) (simp add: f)
qed

text \<open>The search follows the ring from the second buffer of the free list on.\<close>

fun leads :: "('a \<Rightarrow> 'a) \<Rightarrow> 'a \<Rightarrow> 'a list \<Rightarrow> bool" where
  "leads N t [] \<longleftrightarrow> True"
| "leads N t (x # xs) \<longleftrightarrow> N t = x \<and> leads N x xs"

lemma leads_chained: "chained N P (t # xs) \<Longrightarrow> leads N t xs"
  by (induction xs arbitrary: t) auto

lemma leads_ring: "ring N P xs \<Longrightarrow> leads N (hd xs) (rotate1 xs)"
  by (cases xs) (auto simp: ring_def leads_chained chained_snoc [of "_ # _", simplified] intro!: leads_chained [where P = P])

definition skipped :: "buffer_head \<Rightarrow> bool" where
  "skipped b \<longleftrightarrow> b_count b \<noteq> 0 \<or> b_lock b \<and> \<not> b_dirt b"

lemma search_finds:
  assumes "leads (nfree s) tmp (ys @ b # zs)" "length ys \<le> n" "\<forall>y \<in> set ys. skipped (bufs s y)"
    and "b_count (bufs s b) = 0" "BADNESS (bufs s b) = 0" "bh = NULL \<or> BADNESS (bufs s bh) \<noteq> 0"
  shows "search fns init_task n bh tmp s = Some (Ret b s)"
  using assms
proof (induction ys arbitrary: n bh tmp)
  case Nil
  then show ?case
    by (subst search.simps) (auto simp: Let_def)
next
  case (Cons y ys)
  then obtain m where n: "n = Suc m" "length ys \<le> m"
    by (cases n) auto
  have y: "nfree s tmp = y" "skipped (bufs s y)" "leads (nfree s) y (ys @ b # zs)"
    using Cons.prems by auto
  show ?case
  proof (cases "b_count (bufs s y) = 0")
    case False
    then show ?thesis
      using Cons.IH [OF y(3) n(2)] Cons.prems n(1) y(1) by (subst search.simps) (simp add: Let_def)
  next
    case True
    then have b: "b_lock (bufs s y)" "\<not> b_dirt (bufs s y)" "BADNESS (bufs s y) \<noteq> 0"
      using y(2) by (simp_all add: skipped_def BADNESS_def)
    have "search fns init_task m bh' y s = Some (Ret b s)" if "bh' = NULL \<or> BADNESS (bufs s bh') \<noteq> 0" for bh'
      using Cons.IH [OF y(3) n(2) _ Cons.prems(4,5) that] Cons.prems(3) by simp
    then have "search fns init_task m y y s = Some (Ret b s)" "search fns init_task m bh y s = Some (Ret b s)"
      using b(3) Cons.prems(6) by blast+
    then show ?thesis
      using y(1) b True by (subst search.simps) (simp add: Let_def n(1))
  qed
qed

text \<open>
  C37.
  A block that is in the cache, in a buffer that is not locked, is found there: \<open>getblk\<close> gives that
  buffer, with one more user and moved to the end of the free list, and changes nothing else.
\<close>

theorem getblk_cached:
  assumes "in_cache s xs H" "b \<in> set xs" "is_block dev block (bufs s b)" "\<not> b_lock (bufs s b)" "dev \<noteq> 0"
  shows "\<exists>u. getblk fns init_task dev block (AtHash None) s = Some (Ret (GotBlk b) u) \<and> in_cache u (remove1 b xs @ [b]) H \<and>
    b_count (bufs u b) = b_count (bufs s b) + 1 \<and> (\<forall>x. x \<noteq> b \<longrightarrow> core (bufs u x) = core (bufs s x))"
  using get_hash_table_hit [OF assms, of init_task] in_cache_nonzero [OF assms(1,2)]
  by (subst getblk.simps) auto

text \<open>
  C38.
  A block that is not in the cache gets the first buffer, from the second of the free list on, that is
  unused, unlocked and clean, if those before it are in use or locked: the buffer is the only one of
  the block, has one user and is not up to date, is the last of the free list, and the queues are in
  order again.
\<close>

theorem getblk_reuses:
  assumes c: "in_cache s xs H" and xs: "rotate1 xs = ys @ b # zs" "\<forall>y \<in> set ys. skipped (bufs s y)"
    and b: "b_count (bufs s b) = 0" "BADNESS (bufs s b) = 0"
    and new: "\<And>x. x \<in> set xs \<Longrightarrow> \<not> is_block dev block (bufs s x)" and dev: "dev \<noteq> 0" "unat dev < 2 ^ 16"
  shows "\<exists>u H'. getblk fns init_task dev block (AtHash None) s = Some (Ret (GotBlk b) u) \<and> in_cache u (remove1 b xs @ [b]) H' \<and>
    core (bufs u b) = (b_data (bufs s b), ucast dev, block, False, False, 1, False) \<and>
    (\<forall>x. x \<noteq> b \<longrightarrow> core (bufs u x) = core (bufs s x))"
proof -
  have bx: "b \<in> set xs"
    using arg_cong [OF xs(1), of set] by simp
  have r: "ring (nfree s) (pfree s) xs" "free_list s = hd xs" "length xs = NR_BUFFERS s"
    using c by (simp_all add: in_cache_def free_ring_def)
  have "length (ys @ b # zs) = NR_BUFFERS s"
    using r(3) arg_cong [OF xs(1), of length] by simp
  then have "search fns init_task (NR_BUFFERS s) NULL (free_list s) s = Some (Ret b s)"
    using leads_ring [OF r(1)] xs b r(2) by (intro search_finds [where ys = ys and zs = zs]) simp_all
  moreover note get_hash_table_miss [OF c dev(1) new]
  moreover have "b \<noteq> NULL"
    by (rule in_cache_nonzero [OF c bx])
  ultimately have at: "getblk fns init_task dev block (AtHash None) s = getblk fns init_task dev block (AtWait b) s"
    by (subst getblk.simps) simp
  have lock: "\<not> b_lock (bufs s b)" "\<not> b_dirt (bufs s b)"
    using b(2) by (simp_all add: BADNESS_def split: if_splits)
  obtain u H' where u: "claim_buffer dev block b s = Ret () u" "in_cache u (remove1 b xs @ [b]) H'"
    "core (bufs u b) = (b_data (bufs s b), ucast dev, block, False, False, 1, b_lock (bufs s b))"
    "\<forall>x. x \<noteq> b \<longrightarrow> core (bufs u x) = core (bufs s x)"
    using claim_buffer_ok [OF c bx dev new] by blast
  have "getblk fns init_task dev block (AtWait b) s = Some (Ret (GotBlk b) u)"
    using lock b(1) u(1) get_hash_table_miss(1) [OF c dev(1) new] by (subst getblk.simps) simp
  then show ?thesis
    using at u(2-) lock(1) by auto
qed

section \<open>Every way through getblk\<close>

text \<open>The queues are in order, with the same buffers as \<open>xs\<close>.\<close>

definition cached :: "ptr set \<Rightarrow> 'a cache_scheme \<Rightarrow> bool" where
  "cached X s \<longleftrightarrow> (\<exists>xs H. in_cache s xs H \<and> set xs = X)"

definition hash_result :: "ptr set \<Rightarrow> u32 \<Rightarrow> u32 \<Rightarrow> (cache_step, 'a cache_scheme) outcome \<Rightarrow> bool" where
  "hash_result X dev block out \<longleftrightarrow>
     (case out of
        Ret (Got b) u \<Rightarrow> cached X u \<and> (b \<noteq> NULL \<longrightarrow> b \<in> X \<and> is_block dev block (bufs u b))
      | Ret (Waits tmp q b) u \<Rightarrow> cached X u \<and> b \<in> X
      | _ \<Rightarrow> True)"

lemma cached_upd:
  assumes "cached X s" "\<And>x. b_dev (g x) = b_dev x \<and> b_blocknr (g x) = b_blocknr x \<and> b_next (g x) = b_next x \<and> b_prev (g x) = b_prev x \<and>
      b_next_free (g x) = b_next_free x \<and> b_prev_free (g x) = b_prev_free x"
  shows "cached X (upd_buf b g s)"
  using assms(1) in_cache_upd [OF _ assms(2)] unfolding cached_def by blast

lemma cached_keeps: "cached X s \<Longrightarrow> keeps_cache s u \<Longrightarrow> cached X u"
  by (simp add: cached_def keeps_cache_in_cache)

lemma cached_sleep: "cached X s \<Longrightarrow> sleep_on init_task q s = Ret tmp u \<Longrightarrow> cached X u"
  using cached_keeps keeps_cache_sleep by blast

lemma cached_find:
  assumes "cached X s" "dev \<noteq> 0" "find_buffer dev block s = Some b" "b \<noteq> NULL"
  shows "b \<in> X"
  using assms find_buffer_ok [where dev = dev and block = block and s = s] unfolding cached_def by fastforce

lemma cached_put_last:
  assumes "cached X s" "b \<in> X"
  shows "\<exists>u. put_last_free b s = Ret () u \<and> cached X u \<and> (\<forall>x. core (bufs u x) = core (bufs s x))"
proof -
  obtain xs H where x: "in_cache s xs H" "set xs = X"
    using assms(1) by (auto simp: cached_def)
  obtain u where "put_last_free b s = Ret () u" "in_cache u (remove1 b xs @ [b]) H" "\<forall>x. core (bufs u x) = core (bufs s x)"
    using put_last_free_in_cache [OF x(1)] x(2) assms(2) by blast
  moreover have "set (remove1 b xs @ [b]) = X"
    using x assms(2) in_cache_ring [OF x(1)] by (auto simp: free_ring_def ring_def)
  ultimately show ?thesis
    unfolding cached_def by blast
qed

lemma is_block_core: "core x = core y \<Longrightarrow> is_block dev block x = is_block dev block y"
  by (simp add: core_def is_block_def)

lemma get_hash_table_safe:
  assumes "get_hash_table init_task dev block at s = Some out" "cached X s" "\<And>b. at = Some b \<Longrightarrow> b \<in> X" "dev \<noteq> 0"
  shows "hash_result X dev block out"
proof -
  have "dev \<noteq> 0 \<longrightarrow> cached X s \<longrightarrow> (\<forall>b. at = Some b \<longrightarrow> b \<in> X) \<longrightarrow> hash_result X dev block out"
  proof (rule get_hash_table.raw_induct
      [where P = "\<lambda>it dev block at s out. dev \<noteq> 0 \<longrightarrow> cached X s \<longrightarrow> (\<forall>b. at = Some b \<longrightarrow> b \<in> X) \<longrightarrow> hash_result X dev block out"], goal_cases)
    case (1 f it dev block at s out)
    note IH = 1(1) and body = 1(2)
    show ?case
    proof (intro impI)
      assume dev: "dev \<noteq> 0" and c: "cached X s" and at: "\<forall>b. at = Some b \<longrightarrow> b \<in> X"
      show "hash_result X dev block out"
      proof (cases at)
        case None
        then obtain b where b: "find_buffer dev block s = Some b"
          using body by (cases "find_buffer dev block s") auto
        let ?s = "upd_buf b (\<lambda>b. b\<lparr>b_count := b_count b + 1\<rparr>) s"
        show ?thesis
        proof (cases "b = NULL")
          case True
          then have "out = Ret (Got NULL) s"
            using body b None by simp
          then show ?thesis
            using c by (simp add: hash_result_def)
        next
          case False
          then have "f it dev block (Some b) ?s = Some out"
            using body b None by simp
          moreover have "cached X ?s"
            by (rule cached_upd [OF c]) simp
          ultimately show ?thesis
            using IH dev cached_find [OF c dev b False] by blast
        qed
      next
        case (Some b)
        then have bX: "b \<in> X"
          using at by simp
        consider "b_lock (bufs s b)" | "\<not> b_lock (bufs s b)" "is_block dev block (bufs s b)"
          | "\<not> b_lock (bufs s b)" "\<not> is_block dev block (bufs s b)"
          by blast
        then show ?thesis
        proof cases
          case 1
          then have "out = wait_for it b s"
            using body Some by simp
          then show ?thesis
            using bX cached_sleep [OF c] by (cases "sleep_on it (b_wait b) s") (auto simp: wait_for_def hash_result_def)
        next
          case 2
          obtain u where u: "put_last_free b s = Ret () u" "cached X u" "\<forall>x. core (bufs u x) = core (bufs s x)"
            using cached_put_last [OF c bX] by blast
          then have "out = Ret (Got b) u"
            using body Some 2 by simp
          moreover have "is_block dev block (bufs u b)"
            using is_block_core [of "bufs u b" "bufs s b"] u(3) 2(2) by simp
          ultimately show ?thesis
            using u(2) bX by (simp add: hash_result_def)
        next
          case 3
          let ?s = "upd_buf b (\<lambda>b. b\<lparr>b_count := b_count b - 1\<rparr>) s"
          have "f it dev block None ?s = Some out"
            using body Some 3 by simp
          moreover have "cached X ?s"
            by (rule cached_upd [OF c]) simp
          ultimately show ?thesis
            using IH dev by blast
        qed
      qed
    qed
  qed (use assms in blast)
  then show ?thesis
    using assms by blast
qed

lemma next_free_in:
  assumes "in_cache s xs H" "b \<in> set xs"
  shows "nfree s b \<in> set xs"
proof -
  obtain ys zs where xs: "xs = ys @ b # zs"
    using assms(2) by (meson split_list)
  have "ring (nfree s) (pfree s) (b # zs @ ys)"
    using in_cache_ring [OF assms(1)] ring_rotate [of _ _ ys "b # zs"] xs by (simp add: free_ring_def)
  then have "nfree s b = hd (zs @ ys @ [b])"
    using ring_remove(1) [of "nfree s" "pfree s" b "zs @ ys"] by (cases "zs @ ys = []") (auto simp: ring_def hd_append)
  then show ?thesis
    using xs hd_in_set [of "zs @ ys @ [b]"] by auto
qed

lemma cached_next: "cached X s \<Longrightarrow> b \<in> X \<Longrightarrow> nfree s b \<in> X"
  unfolding cached_def using next_free_in by blast

context block_driver
begin

lemma search_safe:
  "search fns init_task n bh tmp s = Some (Ret r u) \<Longrightarrow> cached X s \<Longrightarrow> tmp \<in> X \<Longrightarrow> bh = NULL \<or> bh \<in> X \<Longrightarrow>
   cached X u \<and> (r = NULL \<or> r \<in> X)"
proof (induction n arbitrary: bh tmp s)
  case 0
  let ?t = "nfree s tmp"
  have t: "?t \<in> X"
    by (rule cached_next [OF 0(2,3)])
  show ?case
  proof (cases "b_count (bufs s ?t) = 0 \<and> b_dirt (bufs s ?t)")
    case True
    then obtain v where "write_ahead fns init_task ?t s = Some (Ret () v)" "u = v" "r = NULL \<or> r = bh \<or> r = ?t"
      using 0(1) by (subst (asm) search.simps) (auto simp: Let_def BADNESS_def split: option.splits outcome.splits if_splits)
    then show ?thesis
      using cached_keeps [OF 0(2) write_ahead_keeps] 0(4) t by auto
  next
    case False
    then have "u = s" "r = bh \<or> r = ?t"
      using 0(1) by (subst (asm) search.simps, auto simp: Let_def split: if_splits)+
    then show ?thesis
      using 0(2,4) t by auto
  qed
next
  case (Suc n)
  let ?t = "nfree s tmp"
  have t: "?t \<in> X"
    by (rule cached_next [OF Suc(3,4)])
  have body: "(r = ?t \<and> u = s) \<or> (\<exists>bh'. (bh' = bh \<or> bh' = ?t) \<and> (search fns init_task n bh' ?t s = Some (Ret r u) \<or>
      (\<exists>v. write_ahead fns init_task ?t s = Some (Ret () v) \<and> search fns init_task n bh' ?t v = Some (Ret r u))))"
    using Suc(2) by (subst (asm) search.simps) (auto simp: Let_def split: option.splits outcome.splits if_splits)
  moreover have "cached X v" if "write_ahead fns init_task ?t s = Some (Ret () v)" for v
    using cached_keeps [OF Suc(3) write_ahead_keeps [OF that]] .
  ultimately show ?case
    using Suc.IH Suc(3,5) t by blast
qed

end

definition at_ok :: "ptr set \<Rightarrow> getblk_at \<Rightarrow> bool" where
  "at_ok X at \<longleftrightarrow> (case at of AtHash w \<Rightarrow> (\<forall>b. w = Some b \<longrightarrow> b \<in> X) | AtWait b \<Rightarrow> b \<in> X)"

definition getblk_result :: "ptr set \<Rightarrow> u32 \<Rightarrow> u32 \<Rightarrow> (getblk_step, 'a cache_scheme) outcome \<Rightarrow> bool" where
  "getblk_result X dev block out \<longleftrightarrow>
     (case out of
        Ret r u \<Rightarrow> cached X u \<and>
          (case r of GotBlk b \<Rightarrow> b \<in> X \<and> is_block dev block (bufs u b) | SleepsAt tmp q at \<Rightarrow> at_ok X at | SyncsDev d at \<Rightarrow> at_ok X at)
      | _ \<Rightarrow> True)"

lemma cached_claim:
  assumes "cached X s" "b \<in> X" "find_buffer dev block s = Some NULL" "dev \<noteq> 0" "unat dev < 2 ^ 16"
  shows "\<exists>u. claim_buffer dev block b s = Ret () u \<and> cached X u \<and> is_block dev block (bufs u b)"
proof -
  obtain xs H where x: "in_cache s xs H" "set xs = X"
    using assms(1) by (auto simp: cached_def)
  have new: "\<not> is_block dev block (bufs s x)" if "x \<in> set xs" for x
    using find_buffer_ok [OF x(1) assms(4), of block] assms(3) that by auto
  have b: "b \<in> set xs"
    using x(2) assms(2) by simp
  obtain u H' where u: "claim_buffer dev block b s = Ret () u" "in_cache u (remove1 b xs @ [b]) H'"
    "core (bufs u b) = (b_data (bufs s b), ucast dev, block, False, False, 1, b_lock (bufs s b))"
    using claim_buffer_ok [OF x(1) b assms(4,5) new] by blast
  have "set (remove1 b xs @ [b]) = X"
    using x b in_cache_ring [OF x(1)] by (auto simp: free_ring_def ring_def)
  moreover have "ucast (ucast dev :: u16) = dev"
    using assms(5) by (simp add: word_unat_eq_iff unsigned_ucast_eq unsigned_take_bit_eq take_bit_nat_eq_self)
  ultimately show ?thesis
    using u unfolding cached_def by (auto simp: core_def is_block_def)
qed

lemma cached_head: "cached X s \<Longrightarrow> free_list s \<in> X"
  unfolding cached_def in_cache_def free_ring_def ring_def using hd_in_set by metis

text \<open>The part of \<open>getblk\<close> after the search, for any way to go on.\<close>

lemma after_search:
  assumes t: "cached X t" and driver: "block_driver fns"
    and body: "(case search fns it (NR_BUFFERS t) NULL (free_list t) t of
        None \<Rightarrow> None
      | Some (DoExit c s) \<Rightarrow> Some (DoExit c s)
      | Some (Panic s) \<Rightarrow> Some (Panic s)
      | Some (Ret bh s) \<Rightarrow> if bh = NULL then Some (sleeps s) else k bh s) = Some out"
    and sleep: "\<And>u. cached X u \<Longrightarrow> P (sleeps u)" and go: "\<And>b u. cached X u \<Longrightarrow> b \<in> X \<Longrightarrow> k b u = Some out \<Longrightarrow> P out"
    and stop: "\<And>c u. P (DoExit c u)" "\<And>u. P (Panic u)"
  shows "P out"
proof (cases "search fns it (NR_BUFFERS t) NULL (free_list t) t")
  case (Some o2)
  show ?thesis
  proof (cases o2)
    case (Ret b u)
    have "cached X u \<and> (b = NULL \<or> b \<in> X)"
      using block_driver.search_safe [OF driver Some [unfolded Ret] t cached_head [OF t]] by simp
    then show ?thesis
      using body Some Ret sleep go by (cases "b = NULL") auto
  qed (use body Some stop in auto)
qed (use body in simp)

text \<open>
  C39.
  Whatever \<open>getblk\<close> is woken for and wherever it goes on, it leaves the queues in order, and the buffer
  it returns in the end holds the block. The drivers must leave the queues alone.
\<close>

theorem getblk_safe:
  assumes driver: "block_driver fns" and "getblk fns init_task dev block at s = Some out" "cached X s" "at_ok X at"
    and "dev \<noteq> 0" "unat dev < 2 ^ 16"
  shows "getblk_result X dev block out"
proof -
  have "fns = fns \<longrightarrow> dev \<noteq> 0 \<and> unat dev < 2 ^ 16 \<longrightarrow> cached X s \<longrightarrow> at_ok X at \<longrightarrow> getblk_result X dev block out"
  proof (rule getblk.raw_induct [where P = "\<lambda>g it dev block at s out. g = fns \<longrightarrow> dev \<noteq> 0 \<and> unat dev < 2 ^ 16 \<longrightarrow> cached X s \<longrightarrow> at_ok X at \<longrightarrow>
      getblk_result X dev block out"], goal_cases)
    case (1 f g it dev block at s out)
    note IH = 1(1) and body = 1(2)
    show ?case
    proof (intro impI)
      assume g: "g = fns" and dev: "dev \<noteq> 0 \<and> unat dev < 2 ^ 16" and c: "cached X s" and at: "at_ok X at"
      have IH: "f fns it dev block at' t = Some out \<Longrightarrow> cached X t \<Longrightarrow> at_ok X at' \<Longrightarrow> getblk_result X dev block out" for at' t
        using IH dev by blast
      have slept: "getblk_result X dev block (and_then (sleep_on it q t) (\<lambda>tmp s. Ret (SleepsAt tmp (Q s) at') s))"
        if "cached X t" "at_ok X at'" for q t Q at'
        using that cached_sleep [OF that(1)] by (cases "sleep_on it q t") (auto simp: getblk_result_def)
      show "getblk_result X dev block out"
      proof (cases at)
        case (AtHash w)
        have "\<And>b. w = Some b \<Longrightarrow> b \<in> X"
          using at AtHash by (simp add: at_ok_def)
        note hash = get_hash_table_safe [OF _ c this, of it dev block] dev
        show ?thesis
        proof (cases "get_hash_table it dev block w s")
          case None
          then show ?thesis
            using body AtHash by simp
        next
          case (Some o1)
          then have hr: "hash_result X dev block o1"
            using hash by simp
          show ?thesis
          proof (cases o1)
            case (Ret st t)
            show ?thesis
            proof (cases st)
              case (Waits tmp q b)
              then have "out = Ret (SleepsAt tmp q (AtHash (Some b))) t"
                using body AtHash Some Ret by simp
              then show ?thesis
                using hr Ret Waits by (simp add: getblk_result_def hash_result_def at_ok_def)
            next
              case (Got b)
              show ?thesis
              proof (cases "b = NULL")
                case False
                then have "out = Ret (GotBlk b) t"
                  using body AtHash Some Ret Got by simp
                then show ?thesis
                  using hr Ret Got False by (simp add: getblk_result_def hash_result_def)
              next
                case True
                have t: "cached X t"
                  using hr Ret Got by (simp add: hash_result_def)
                have b1: "(case search fns it (NR_BUFFERS t) NULL (free_list t) t of
                    None \<Rightarrow> None
                  | Some (DoExit c s) \<Rightarrow> Some (DoExit c s)
                  | Some (Panic s) \<Rightarrow> Some (Panic s)
                  | Some (Ret bh s) \<Rightarrow> if bh = NULL then
                      Some (and_then (sleep_on it (buffer_wait s) s) (\<lambda>tmp s. Ret (SleepsAt tmp (buffer_wait s) (AtHash None)) s))
                      else f fns it dev block (AtWait bh) s) = Some out"
                  using body [unfolded g] AtHash Some Ret Got True by simp
                show ?thesis
                proof (rule after_search [OF t driver b1])
                  show "getblk_result X dev block (and_then (sleep_on it (buffer_wait u) u)
                      (\<lambda>tmp s. Ret (SleepsAt tmp (buffer_wait s) (AtHash None)) s))" if "cached X u" for u
                    by (rule slept [OF that]) (simp add: at_ok_def)
                  show "getblk_result X dev block out" if "cached X u" "b \<in> X" "f fns it dev block (AtWait b) u = Some out" for b u
                    using IH [OF that(3,1)] that(2) by (simp add: at_ok_def)
                qed (simp_all add: getblk_result_def)
              qed
            qed
          qed (use body AtHash Some in \<open>auto simp: getblk_result_def\<close>)
        qed
      next
        case (AtWait b)
        then have b: "b \<in> X"
          using at by (simp add: at_ok_def)
        have a: "at_ok X (AtWait b)" "at_ok X (AtHash None)"
          using b by (simp_all add: at_ok_def)
        consider "b_lock (bufs s b)" | "\<not> b_lock (bufs s b)" "b_count (bufs s b) \<noteq> 0"
          | "\<not> b_lock (bufs s b)" "b_count (bufs s b) = 0" "b_dirt (bufs s b)"
          | "\<not> b_lock (bufs s b)" "b_count (bufs s b) = 0" "\<not> b_dirt (bufs s b)"
          by blast
        then show ?thesis
        proof cases
          case 1
          then show ?thesis
            using body AtWait slept [OF c a(1), of "b_wait b" "\<lambda>_. b_wait b"] by simp
        next
          case 2
          then show ?thesis
            using body AtWait IH [OF _ c a(2)] g by simp
        next
          case 3
          then have "out = Ret (SyncsDev (b_dev (bufs s b)) (AtWait b)) s"
            using body AtWait by simp
          then show ?thesis
            using c a by (simp add: getblk_result_def)
        next
          case 4
          then obtain p where p: "find_buffer dev block s = Some p"
            using body AtWait by (cases "find_buffer dev block s") auto
          show ?thesis
          proof (cases "p = NULL")
            case True
            then obtain u where u: "claim_buffer dev block b s = Ret () u" "cached X u" "is_block dev block (bufs u b)"
              using cached_claim [OF c b] p dev by blast
            then have "out = Ret (GotBlk b) u"
              using body AtWait 4 p True by simp
            then show ?thesis
              using u b by (simp add: getblk_result_def)
          next
            case False
            then show ?thesis
              using body AtWait 4 p IH [OF _ c a(2)] g by simp
          qed
        qed
      qed
    qed
  qed (use assms in blast)
  then show ?thesis
    using assms by blast
qed

section \<open>The cache at start-up\<close>

definition fresh_head :: "ptr \<Rightarrow> nat \<Rightarrow> buffer_head \<Rightarrow> buffer_head" where
  "fresh_head h d x = x\<lparr>b_dev := 0, b_dirt := False, b_count := 0, b_lock := False, b_uptodate := False, b_next := NULL, b_prev := NULL,
     b_data := of_nat d, b_prev_free := h - 36, b_next_free := next_head h\<rparr>"

text \<open>The blocks \<open>ds\<close> are below \<open>b\<close>, one below the other, and not in the hole.\<close>

definition blocks_below :: "nat \<Rightarrow> nat list \<Rightarrow> bool" where
  "blocks_below b ds \<longleftrightarrow> (\<forall>d \<in> set ds. d + BLOCK_SIZE \<le> b \<and> (d + BLOCK_SIZE \<le> 0xA0000 \<or> 0x100000 \<le> d)) \<and>
     sorted_wrt (\<lambda>x y. y + BLOCK_SIZE \<le> x) ds"

definition good_end :: "nat \<Rightarrow> bool" where
  "good_end b \<longleftrightarrow> b \<le> 0xA0000 \<or> 0x100000 < b \<and> b mod BLOCK_SIZE = 0"

lemma good_end_step:
  assumes "good_end b" "BLOCK_SIZE \<le> b"
  defines "c \<equiv> b - BLOCK_SIZE"
  shows "good_end (if c = 0x100000 then 0xA0000 else c)" "c + BLOCK_SIZE \<le> 0xA0000 \<or> 0x100000 \<le> c"
proof -
  have "0x100000 \<le> c \<and> c mod BLOCK_SIZE = 0" if above: "0x100000 < b" and mult: "b mod BLOCK_SIZE = 0"
  proof -
    obtain k where b: "b = BLOCK_SIZE * k"
      using mult by (auto simp: mod_eq_0_iff_dvd)
    then have "1024 < k"
      using above by (simp add: BLOCK_SIZE_def)
    then obtain j where "k = Suc j" "1024 \<le> j"
      by (cases k) auto
    with b show ?thesis
      by (simp add: c_def BLOCK_SIZE_def)
  qed
  then show "good_end (if c = 0x100000 then 0xA0000 else c)" "c + BLOCK_SIZE \<le> 0xA0000 \<or> 0x100000 \<le> c"
    using assms(1,2) by (auto simp: good_end_def c_def)
qed

lemma init_heads_ok:
  "good_end b \<Longrightarrow> \<exists>ds u. init_heads b h s = (h + 36 * length ds, u) \<and> NR_BUFFERS u = NR_BUFFERS s + length ds \<and>
     free_list u = free_list s \<and> hash_table u = hash_table s \<and> start_buffer u = start_buffer s \<and>
     (\<forall>i < length ds. bufs u (h + 36 * i) = fresh_head (h + 36 * i) (ds ! i) (bufs s (h + 36 * i))) \<and>
     (\<forall>x. (\<forall>i < length ds. x \<noteq> h + 36 * i) \<longrightarrow> bufs u x = bufs s x) \<and>
     blocks_below b ds \<and> (\<forall>d \<in> set ds. h + 36 * length ds \<le> d)"
proof (induction b h s rule: init_heads.induct)
  case (1 b h s)
  show ?case
  proof (cases "b < BLOCK_SIZE + next_head h")
    case True
    then show ?thesis
      by (intro exI [of _ "[]"] exI [of _ s]) (simp add: init_heads.simps blocks_below_def)
  next
    case False
    define c where "c = b - BLOCK_SIZE"
    define t where "t = upd_buf h (fresh_head h c) (s\<lparr>waitq := (waitq s)(b_wait h := NULL), NR_BUFFERS := NR_BUFFERS s + 1\<rparr>)"
    let ?c = "if c = 0x100000 then 0xA0000 else c"
    have le: "BLOCK_SIZE \<le> b"
      using False by simp
    note step = good_end_step [OF "1.prems" le, folded c_def]
    have eq: "init_heads b h s = init_heads ?c (next_head h) t"
      using False by (subst init_heads.simps) (simp add: Let_def t_def c_def fresh_head_def [abs_def] del: of_nat_diff)
    have t: "NR_BUFFERS t = NR_BUFFERS s + 1" "free_list t = free_list s" "hash_table t = hash_table s" "start_buffer t = start_buffer s"
      "bufs t = (bufs s)(h := fresh_head h c (bufs s h))"
      by (simp_all add: t_def upd_buf_def)
    have "\<exists>ds u. init_heads ?c (next_head h) t = (next_head h + 36 * length ds, u) \<and> NR_BUFFERS u = NR_BUFFERS t + length ds \<and>
       free_list u = free_list t \<and> hash_table u = hash_table t \<and> start_buffer u = start_buffer t \<and>
       (\<forall>i < length ds. bufs u (next_head h + 36 * i) = fresh_head (next_head h + 36 * i) (ds ! i) (bufs t (next_head h + 36 * i))) \<and>
       (\<forall>x. (\<forall>i < length ds. x \<noteq> next_head h + 36 * i) \<longrightarrow> bufs u x = bufs t x) \<and>
       blocks_below ?c ds \<and> (\<forall>d \<in> set ds. next_head h + 36 * length ds \<le> d)"
      using "1.IH" [OF False refl refl] step(1) unfolding c_def t_def fresh_head_def [abs_def] by blast
    then obtain ds u where u: "init_heads ?c (next_head h) t = (next_head h + 36 * length ds, u)" "NR_BUFFERS u = NR_BUFFERS t + length ds"
      "free_list u = free_list t" "hash_table u = hash_table t" "start_buffer u = start_buffer t"
      "\<And>i. i < length ds \<Longrightarrow> bufs u (next_head h + 36 * i) = fresh_head (next_head h + 36 * i) (ds ! i) (bufs t (next_head h + 36 * i))"
      "\<And>x. (\<forall>i < length ds. x \<noteq> next_head h + 36 * i) \<Longrightarrow> bufs u x = bufs t x"
      "blocks_below ?c ds" "\<And>d. d \<in> set ds \<Longrightarrow> next_head h + 36 * length ds \<le> d"
      by blast
    have low: "h + 36 * length (c # ds) \<le> c"
    proof (cases ds)
      case Nil
      then show ?thesis
        using False by (simp add: c_def next_head_def)
    next
      case (Cons d ds')
      have "d + BLOCK_SIZE \<le> ?c" "next_head h + 36 * length ds \<le> d" "?c \<le> c"
        using u(8,9) Cons by (auto simp: blocks_below_def)
      then show ?thesis
        by (simp add: next_head_def)
    qed
    have bb: "blocks_below b (c # ds)"
      using u(8) step(2) le by (auto simp: blocks_below_def c_def split: if_splits)
    have heads: "bufs u (h + 36 * i) = fresh_head (h + 36 * i) ((c # ds) ! i) (bufs s (h + 36 * i))" if "i < length (c # ds)" for i
    proof (cases i)
      case 0
      have "bufs u h = bufs t h"
        by (rule u(7)) (simp add: next_head_def)
      then show ?thesis
        using 0 t(5) by simp
    next
      case (Suc j)
      then have at: "h + 36 * i = next_head h + 36 * j" and ne: "next_head h + 36 * j \<noteq> h"
        by (simp_all add: next_head_def)
      have "j < length ds" "(c # ds) ! i = ds ! j"
        using Suc that by simp_all
      then show ?thesis
        unfolding at using u(6) [of j] ne t(5) by simp
    qed
    have rest: "bufs u x = bufs s x" if "\<forall>i < length (c # ds). x \<noteq> h + 36 * i" for x
    proof -
      have "x \<noteq> h" "\<forall>i < length ds. x \<noteq> next_head h + 36 * i"
        using that by (force simp: next_head_def)+
      then show ?thesis
        using u(7) t(5) by simp
    qed
    have "init_heads b h s = (h + 36 * length (c # ds), u)"
      unfolding eq u(1) by (simp add: next_head_def)
    moreover have "\<forall>d \<in> set (c # ds). h + 36 * length (c # ds) \<le> d"
      using low u(9) by (fastforce simp: next_head_def)
    ultimately show ?thesis
      using u(2-5) t(1-4) heads rest bb by (intro exI [of _ "c # ds"] exI [of _ u]) simp
  qed
qed

lemma init_heads_grows: "NR_BUFFERS s \<le> NR_BUFFERS (snd (init_heads b h s))"
proof (induction b h s rule: init_heads.induct)
  case (1 b h s)
  show ?case
  proof (cases "b < BLOCK_SIZE + next_head h")
    case True
    then show ?thesis
      by (subst init_heads.simps) simp
  next
    case False
    from "1.IH" [OF this refl refl] show ?thesis
      by (subst init_heads.simps) (simp add: False Let_def upd_buf_def del: of_nat_diff)
  qed
qed

lemma init_heads_room:
  "h + (36 + BLOCK_SIZE) * n \<le> b \<Longrightarrow> h + (36 + BLOCK_SIZE) * n \<le> 0xA0000 \<Longrightarrow> NR_BUFFERS s + n \<le> NR_BUFFERS (snd (init_heads b h s))"
proof (induction n arbitrary: b h s)
  case 0
  show ?case
    using init_heads_grows by simp
next
  case (Suc n)
  define c where "c = (if b - BLOCK_SIZE = 0x100000 then 0xA0000 else b - BLOCK_SIZE)"
  have "next_head h + (36 + BLOCK_SIZE) * n \<le> c" "next_head h + (36 + BLOCK_SIZE) * n \<le> 0xA0000"
    using Suc.prems by (auto simp: c_def next_head_def BLOCK_SIZE_def)
  note ih = Suc.IH [OF this]
  have "\<not> b < BLOCK_SIZE + next_head h"
    using Suc.prems by (simp add: next_head_def)
  then obtain t where t: "init_heads b h s = init_heads c (next_head h) t" "NR_BUFFERS t = NR_BUFFERS s + 1"
    by (atomize_elim, subst init_heads.simps) (auto simp: Let_def c_def upd_buf_def)
  show ?case
    using ih [of t] t by simp
qed

lemma chained_map:
  "(\<And>i. a \<le> i \<Longrightarrow> Suc i < b \<Longrightarrow> N (f i) = f (Suc i) \<and> P (f (Suc i)) = f i) \<Longrightarrow> chained N P (map f [a..<b])"
proof (induction "b - a" arbitrary: a)
  case (Suc n)
  show ?case
  proof (cases "Suc a < b")
    case True
    have "chained N P (map f [Suc a..<b])"
      using Suc.hyps(2) Suc.prems by (intro Suc.hyps(1)) auto
    then show ?thesis
      using True Suc.prems [of a] by (simp add: upt_conv_Cons)
  next
    case False
    then have "b = Suc a"
      using Suc.hyps(2) by simp
    then show ?thesis
      by simp
  qed
qed simp

text \<open>The heads of a cache of \<open>n\<close> buffers, in the order of the memory.\<close>

definition heads :: "ptr \<Rightarrow> nat \<Rightarrow> ptr list" where
  "heads h n = map (\<lambda>i. h + 36 * i) [0..<n]"

lemma heads_simps [simp]: "length (heads h n) = n" "i < n \<Longrightarrow> heads h n ! i = h + 36 * i" "set (heads h n) = (\<lambda>i. h + 36 * i) ` {..<n}"
  "0 < n \<Longrightarrow> hd (heads h n) = h" "0 < n \<Longrightarrow> last (heads h n) = h + 36 * (n - 1)" "distinct (heads h n)"
  "heads h n = [] \<longleftrightarrow> n = 0"
  by (auto simp: heads_def hd_map last_map distinct_map inj_on_def)

lemma ring_heads:
  assumes "0 < n" "h \<noteq> NULL" "\<And>i. Suc i < n \<Longrightarrow> N (h + 36 * i) = h + 36 * Suc i \<and> P (h + 36 * Suc i) = h + 36 * i"
    "N (h + 36 * (n - 1)) = h" "P h = h + 36 * (n - 1)"
  shows "ring N P (heads h n)"
proof -
  have "chained N P (heads h n)"
    unfolding heads_def by (rule chained_map) (use assms(3) in blast)
  then show ?thesis
    using assms heads_simps(1,4,5) [of n h] unfolding ring_def by auto
qed

text \<open>
  C40. At start-up \<open>buffer_init\<close> makes at least two buffers whenever there is room for two above the
  kernel, and they are a cache in order: a ring of free heads from \<open>start_buffer\<close> upwards, all chains
  empty, each head without a device, a user or a flag; their data blocks lie below the end of the
  memory, one below the other, all outside the hole between 640 kB and 1 MB and above the heads.
\<close>

theorem buffer_init_ok:
  assumes top: "e \<le> 0xA0000 \<or> 2 ^ 20 \<le> e \<and> e mod BLOCK_SIZE = 0"
    and room: "start_buffer s + 2 * (36 + BLOCK_SIZE) \<le> min e 0xA0000" "start_buffer s \<noteq> NULL"
    and empty: "NR_BUFFERS s = 0" "\<And>k. NR_HASH \<le> k \<Longrightarrow> hash_table s k = NULL"
  shows "\<exists>ds. 2 \<le> length ds \<and> in_cache (buffer_init e s) (heads (start_buffer s) (length ds)) (\<lambda>_. []) \<and>
    (\<forall>i < length ds. \<exists>nr. core (bufs (buffer_init e s) (start_buffer s + 36 * i)) = (of_nat (ds ! i), 0, nr, False, False, 0, False)) \<and>
    blocks_below e ds \<and> (\<forall>d \<in> set ds. start_buffer s + 36 * length ds \<le> d)"
proof -
  let ?h = "start_buffer s"
  define b where "b = (if e = 2 ^ 20 then 640 * 1024 else e)"
  have "good_end b"
    using top by (auto simp: good_end_def b_def)
  then obtain ds u where u: "init_heads b ?h s = (?h + 36 * length ds, u)" "NR_BUFFERS u = NR_BUFFERS s + length ds"
      "hash_table u = hash_table s" "start_buffer u = ?h"
    and B: "\<And>i. i < length ds \<Longrightarrow> bufs u (?h + 36 * i) = fresh_head (?h + 36 * i) (ds ! i) (bufs s (?h + 36 * i))"
    and ds: "blocks_below b ds" "\<forall>d \<in> set ds. ?h + 36 * length ds \<le> d"
    using init_heads_ok [of b ?h s] by metis
  let ?n = "length ds"
  have "?h + (36 + BLOCK_SIZE) * 2 \<le> b" "?h + (36 + BLOCK_SIZE) * 2 \<le> 0xA0000"
    using room(1) by (auto simp: b_def)
  from init_heads_room [OF this, of s] have n: "2 \<le> ?n"
    using u(1,2) empty(1) by simp
  let ?l = "?h + 36 * (?n - 1)"
  define v where "v = buffer_init e s"
  have l: "?h + 36 * ?n - 36 = ?l" "?l \<noteq> ?h"
    using n by (auto simp: algebra_simps)
  have v_eq: "v = (upd_buf ?l (\<lambda>b. b\<lparr>b_next_free := ?h\<rparr>) (upd_buf ?h (\<lambda>b. b\<lparr>b_prev_free := ?l\<rparr>) (u\<lparr>free_list := ?h\<rparr>)))
      \<lparr>hash_table := (\<lambda>k. if k < NR_HASH then NULL else hash_table u k)\<rparr>"
    unfolding v_def buffer_init_def b_def [symmetric] u(1) by (simp add: Let_def u(4) l(1) upd_buf_def cong: if_cong)
  have v: "bufs v = (\<lambda>x. if x = ?l then (bufs u ?l)\<lparr>b_next_free := ?h\<rparr> else if x = ?h then (bufs u ?h)\<lparr>b_prev_free := ?l\<rparr> else bufs u x)"
    "NR_BUFFERS v = ?n" "free_list v = ?h" "hash_table v = (\<lambda>k. NULL)"
    using u(2,3) l(2) empty by (auto simp: v_eq upd_buf_def fun_eq_iff not_less)
  have flds: "core (bufs v (?h + 36 * i)) = (of_nat (ds ! i), 0, b_blocknr (bufs s (?h + 36 * i)), False, False, 0, False)"
      "b_next (bufs v (?h + 36 * i)) = NULL" "b_prev (bufs v (?h + 36 * i)) = NULL" if "i < ?n" for i
    using B [OF that] B [of 0] n that by (auto simp: v core_def fresh_head_def)
  have dev: "b_dev (bufs v (?h + 36 * i)) = 0" if "i < ?n" for i
    using flds(1) [OF that] by (simp add: core_def)
  have "ring (nfree v) (pfree v) (heads ?h ?n)"
  proof (rule ring_heads)
    show "nfree v (?h + 36 * i) = ?h + 36 * Suc i \<and> pfree v (?h + 36 * Suc i) = ?h + 36 * i" if "Suc i < ?n" for i
      using B [of i] B [of "Suc i"] that by (auto simp: v fresh_head_def next_head_def)
    show "nfree v ?l = ?h" "pfree v ?h = ?l"
      using n l(2) by (auto simp: v)
  qed (use n room(2) in auto)
  moreover have hd_heads: "hd (heads ?h ?n) = ?h"
    using n by (intro heads_simps(4)) linarith
  ultimately have "in_cache v (heads ?h ?n) (\<lambda>_. [])"
    using n flds(2,3) dev v(2-4) hd_heads by (auto simp: in_cache_def free_ring_def chain_def hashed_def)
  moreover have "blocks_below e ds"
    using ds(1) top by (auto simp: blocks_below_def b_def split: if_splits)
  ultimately show ?thesis
    using n flds(1) ds(2) unfolding v_def by (intro exI [of _ ds]) blast
qed

section \<open>The ram disk behind the cache\<close>

text \<open>The request function the ram disk installs in \<open>blk_dev\<close>.\<close>

definition rd_fns :: "'a cache_ext request_fns" where
  "rd_fns = [1 \<mapsto> \<lambda>s. case do_rd_request s of Some out \<Rightarrow> out | None \<Rightarrow> Panic s]"

lemma keeps_cache_end_request: "keeps_cache s (end_request major ok s)"
proof -
  have "hash_table (end_request major ok s) = hash_table s \<and> free_list (end_request major ok s) = free_list s \<and>
      NR_BUFFERS (end_request major ok s) = NR_BUFFERS s"
    by (simp add: end_request_def Let_def upd_req_def unlock_buffer_def upd_buf_def wake_up_def wake_task_def upd_task_def)
  then show ?thesis
    by (simp add: keeps_cache_def end_request_fields key_def)
qed

lemma more_cache: "mm.more u = mm.more s \<Longrightarrow> keeps_cache s u"
  by (cases u; cases s) (simp add: keeps_cache_def)

lemma do_rd_request_keeps: "do_rd_request s = Some (Ret () u) \<Longrightarrow> keeps_cache s u"
proof -
  have "out = Ret () u \<longrightarrow> keeps_cache s u" if "do_rd_request s = Some out" for out
  proof (rule do_rd_request.raw_induct [where P = "\<lambda>s out. out = Ret () u \<longrightarrow> keeps_cache s u"], goal_cases)
    case (1 f s out)
    note ih = 1(1) and body = 1(2)
    let ?c = "current_request s 1"
    show ?case
    proof (cases "?c = NULL \<or> MAJOR (rq_dev (requests s ?c)) \<noteq> 1 \<or>
        (rq_bh (requests s ?c) \<noteq> NULL \<and> \<not> b_lock (bufs s (rq_bh (requests s ?c))))")
      case True
      then show ?thesis
        using body by (auto simp: Let_def keeps_cache_refl split: if_splits)
    next
      case False
      show ?thesis
      proof (cases "rd_transfer (requests s ?c) s")
        case (Ret ok t)
        have "mm.more t = mm.more s"
          using Ret by (auto simp: rd_transfer_def Let_def more_kernel_memcpy split: if_splits)
        then have "keeps_cache s (end_request 1 ok t)"
          using more_cache keeps_cache_end_request keeps_cache_trans by blast
        moreover have "f (end_request 1 ok t) = Some out"
          using body False Ret by (auto simp: Let_def split: if_splits)
        ultimately show ?thesis
          using ih keeps_cache_trans by blast
      qed (use body False in \<open>auto simp: Let_def\<close>)
    qed
  qed (use that in blast)
  then show "do_rd_request s = Some (Ret () u) \<Longrightarrow> keeps_cache s u"
    by blast
qed

interpretation ram_disk: block_driver rd_fns
  by unfold_locales (auto simp: rd_fns_def do_rd_request_keeps keeps_cache_refl split: if_splits option.splits)

section \<open>An example\<close>

text \<open>
  A cache of three buffers at 1000, 2000 and 3000 on the free list, the one at 2000 holding block 7 of
  the ram disk for one user and the others never used.
\<close>

definition head_example :: "u16 \<Rightarrow> u32 \<Rightarrow> u8 \<Rightarrow> ptr \<Rightarrow> ptr \<Rightarrow> buffer_head" where
  "head_example dev block count pf nf =
     \<lparr>b_data = 0x5000, b_blocknr = block, b_dev = dev, b_uptodate = dev \<noteq> 0, b_dirt = False, b_count = count,
      b_lock = False, b_prev = NULL, b_next = NULL, b_prev_free = pf, b_next_free = nf\<rparr>"

definition cache_example :: cache where
  "cache_example = blk.extend (blk_example\<lparr>bufs := (bufs blk_example)
       (1000 := head_example 0 0 0 3000 2000, 2000 := head_example 0x101 7 1 1000 3000, 3000 := head_example 0 0 0 2000 1000)\<rparr>)
     (cache.fields ((\<lambda>_. NULL)(262 := 2000)) 1000 400 3 0x20000)"

lemmas cache_example_defs = cache_example_def blk.extend_def cache.fields_def head_example_def

lemma cache_example_fields:
  "bufs cache_example 1000 = head_example 0 0 0 3000 2000" "bufs cache_example 2000 = head_example 0x101 7 1 1000 3000"
  "bufs cache_example 3000 = head_example 0 0 0 2000 1000" "hash_table cache_example = (\<lambda>_. NULL)(262 := 2000)"
  "free_list cache_example = 1000" "NR_BUFFERS cache_example = 3" "start_buffer cache_example = 0x20000"
  by (simp_all add: cache_example_defs)

lemma cache_example_hash: "hash_of (head_example 0x101 7 c p n) = 262"
  by (simp add: hash_of_def hashfn_def head_example_def NR_HASH_def)

lemma cache_example_ok: "in_cache cache_example [1000, 2000, 3000] ((\<lambda>_. [])(262 := [2000]))"
proof -
  have "chain cache_example k (((\<lambda>_. [])(262 := [2000])) k)" for k
    by (auto simp: chain_def cache_example_fields head_example_def)
  moreover have "hashed cache_example [1000, 2000, 3000] k = set (((\<lambda>_. [])(262 := [2000])) k)" for k
    using cache_example_hash by (auto simp: hashed_def cache_example_fields) (auto simp: head_example_def)
  moreover have "free_ring cache_example [1000, 2000, 3000]"
    by (simp add: free_ring_def ring_def cache_example_fields) (simp add: head_example_def)
  ultimately show ?thesis
    by (simp add: in_cache_def cache_example_fields) (simp add: head_example_def)
qed

theorem buffer_init_ok_witness:
  "\<exists>ds. 2 \<le> length ds \<and> blocks_below 0x200000 ds \<and>
     in_cache (buffer_init 0x200000 (cache_example\<lparr>NR_BUFFERS := 0\<rparr>)) (heads 0x20000 (length ds)) (\<lambda>_. [])"
proof -
  have "(0x200000::nat) \<le> 0xA0000 \<or> 2 ^ 20 \<le> (0x200000::nat) \<and> 0x200000 mod BLOCK_SIZE = 0"
    by (simp add: BLOCK_SIZE_def)
  moreover have "start_buffer (cache_example\<lparr>NR_BUFFERS := 0\<rparr>) + 2 * (36 + BLOCK_SIZE) \<le> min 0x200000 0xA0000"
    by (simp add: BLOCK_SIZE_def cache_example_fields)
  moreover have "hash_table (cache_example\<lparr>NR_BUFFERS := 0\<rparr>) k = NULL" if "NR_HASH \<le> k" for k
    using that by (simp add: cache_example_fields NR_HASH_def)
  ultimately show ?thesis
    using buffer_init_ok [of "0x200000" "cache_example\<lparr>NR_BUFFERS := 0\<rparr>"] by (auto simp: cache_example_fields)
qed

theorem getblk_cached_witness:
  "\<exists>u. getblk rd_fns 5 0x101 7 (AtHash None) cache_example = Some (Ret (GotBlk 2000) u) \<and> b_count (bufs u 2000) = 2"
proof -
  have "is_block 0x101 7 (bufs cache_example 2000)" "\<not> b_lock (bufs cache_example 2000)"
    by (simp_all add: is_block_def cache_example_fields head_example_def)
  from getblk_cached [OF cache_example_ok _ this, of rd_fns 5] show ?thesis
    by (auto simp: cache_example_fields head_example_def)
qed

theorem getblk_reuses_witness:
  "\<exists>u. getblk rd_fns 5 0x101 9 (AtHash None) cache_example = Some (Ret (GotBlk 3000) u) \<and>
     b_blocknr (bufs u 3000) = 9 \<and> \<not> b_uptodate (bufs u 3000)"
proof -
  have "rotate1 [1000, 2000, 3000] = [2000] @ (3000::ptr) # [1000]"
    by simp
  moreover have "\<forall>y \<in> set [2000]. skipped (bufs cache_example y)" "b_count (bufs cache_example 3000) = 0"
      "BADNESS (bufs cache_example 3000) = 0"
    by (simp_all add: skipped_def BADNESS_def cache_example_fields head_example_def)
  moreover have "\<not> is_block 0x101 9 (bufs cache_example x)" if "x \<in> set [1000, 2000, 3000]" for x
    using that by (auto simp: is_block_def cache_example_fields head_example_def)
  ultimately show ?thesis
    using getblk_reuses [OF cache_example_ok, of "[2000]" 3000 "[1000]" "0x101" 9 rd_fns 5] by (auto simp: core_def)
qed

theorem getblk_safe_witness:
  "\<exists>u. getblk rd_fns 5 0x101 7 (AtHash None) cache_example = Some (Ret (GotBlk 2000) u) \<and> cached {1000, 2000, 3000} u"
proof -
  have "is_block 0x101 7 (bufs cache_example 2000)" "\<not> b_lock (bufs cache_example 2000)"
    by (simp_all add: is_block_def cache_example_fields head_example_def)
  then obtain u where u: "getblk rd_fns 5 0x101 7 (AtHash None) cache_example = Some (Ret (GotBlk 2000) u)"
    using get_hash_table_hit [OF cache_example_ok, of 2000 "0x101" 7 5] by (atomize_elim, subst getblk.simps) auto
  have "cached {1000, 2000, 3000} cache_example"
    unfolding cached_def using cache_example_ok by (auto intro!: exI)
  from getblk_safe [OF ram_disk.block_driver_axioms u this] u show ?thesis
    by (auto simp: getblk_result_def at_ok_def)
qed


end
