(* ===== verification/Spec2Isabelle.thy ===== *)
theory Spec2Isabelle
  imports Mktime Vsprintf Strings Sysinfo Fork Emulator Requests Malloc Switch Buffers
begin

text \<open>
  \<^bold>\<open>A model of the Linux 0.95 kernel.\<close>

  The kernel is a single program: system calls run on behalf of the current task until they sleep
  or return, interrupts count time and finish transfers, and all of it works on a few shared
  tables: the page map and the page tables, the task table, the inode and file tables, and the
  queues of waiting tasks. This development translates the parts that carry the kernel's own logic
  and proves what they promise, or where they do not keep the promise, what they do instead.

  \<^bold>\<open>State.\<close> Physical memory and the swap device are the record \<open>mm\<close> (theory Pages). The record
  \<open>kernel\<close> (Tasks) extends it with the task table, the clock and its timers, the wait queues, the
  inode and file tables and the user memory of the current task, so every memory operation is also
  an operation on the kernel, and changes nothing in what \<open>kernel\<close> adds (MemFrame). Pointers are
  addresses, with 0 for the null pointer; a structure is found by its address through a total
  function. Masks, addresses and counters that may wrap are words of their width, and an \<open>int\<close>
  of the code whose value cannot leave its range is an \<open>int\<close>.

  \<^bold>\<open>Control.\<close> A function that may end the task or stop the machine returns an \<open>outcome\<close>
  (Prelude). One that sleeps is split at the call of \<open>schedule\<close>: the first part goes to sleep, and
  the caller runs the next part when the task has been woken. A system call returns the
  negative error number as the code does. A loop that may run for ever is a
  \<open>partial_function\<close> into \<open>option\<close>, and that it ends is a theorem of its own.

  \<^bold>\<open>Theories and sources.\<close>
  \<^item> Prelude: machine types, error numbers, outcomes, the contract \<open>allocator\<close> of counted objects.
  \<^item> Mktime (kernel/mktime.c): the conversion of the CMOS clock, correct from 1970 to 2099.
  \<^item> Vsprintf (kernel/vsprintf.c): \<open>number\<close> and the format interpreter, over the list of bytes
    written; decimal round trip and length of a conversion.
  \<^item> Strings (include/string.h): the string instructions as operations on memory and registers, and
    each inline function against its specification on strings, overlap and wrap-around included.
  \<^item> Pages (mm/swap.c, page allocator of mm/memory.c): free pages, swap slots, swapping out and in;
    the invariant \<open>mm_ok\<close>, kept by all; \<open>allocator\<close> is interpreted for pages and for swap pages.
  \<^item> PageTables (mm/memory.c): copying and freeing the tables of a process, copy on write.
  \<^item> MemFrame: what the memory operations leave alone.
  \<^item> Tasks (kernel/sched.c, the structures of include/linux/sched.h and fs.h): the scheduler, wait
    queues, the timers, floppy motors, the coprocessor's owner.
  \<^item> Exit (kernel/exit.c): sending signals, releasing and auditing the process tree, exit, wait.
  \<^item> Userspace (include/asm/segment.h, \<open>verify_area\<close>): access to the caller's memory.
  \<^item> Sysinfo (kernel/sys.c): identities, groups, limits, the clock.
  \<^item> Fork (kernel/fork.c): process numbers, the copy of the task and its place in the tree.
  \<^item> MathEmu (kernel/math: add.c, compare.c, mul.c, div.c, convert.c): arithmetic on temporary reals.
  \<^item> Emulator (kernel/math: math_emulate.c, ea.c, get_put.c, error.c): decoder, register stack,
    operands and memory of the 387 emulator.
  \<^item> Pipe (fs/pipe.c): the ring of a pipe as a bounded queue (locale \<open>byte_queue\<close>), with its waits.

  \<^bold>\<open>How the parts meet.\<close> \<open>sys_fork\<close> copies page tables (PageTables), takes a page for the task
  (Pages) and links the child into the tree whose consistency is the \<open>audit_ptree\<close> of exit.c
  (Exit). Every write to user memory first passes \<open>verify_area\<close>, which runs the copy on write of
  PageTables. The emulator fetches and stores through Userspace. Pipes wake and sleep through the
  wait queues of Tasks.

  \<^bold>\<open>Bounds.\<close> The loops over tables have the tables' sizes; the swap and page scans end by measures
  (the bits of the bitmap, the counter of a pass); the loops that shift a mantissa end because the
  shifted word grows, and restoring division takes its 64 steps. The copy loops of a pipe are
  partial functions, which return whenever head and tail lie in the page.

  \<^bold>\<open>Findings.\<close> Where the code does not do what it means to, the model has the code's behaviour and a
  lemma shows it: the retry of the page allocator (\<open>get_free_page_retry\<close>), the second zero of
  \<open>strncat\<close> (\<open>strncat_two_zeros\<close>), the star in a format (\<open>vsprintf_star_width\<close>), a nice value that
  stops the scheduler (\<open>nice_hangs_scheduler\<close>), later timers delayed (\<open>timer_insert_times\<close>), kill
  of all (\<open>kill_all_fails\<close>), a negative resource (\<open>setrlimit_makes_root\<close>), stores that round up an
  exact double (\<open>store_up_inexact\<close>), comparisons and divisions that store an uninitialised local
  (\<open>fcom_overwrites_top\<close>, \<open>fdiv_zero_stores_tmp\<close>), short integers never fetched
  (\<open>short_int_not_fetched\<close>).

  \<^bold>\<open>Not modelled.\<close> The drivers of disks, floppies, terminals and the console and the assembler parts
  work on ports and interrupt frames. The buffer cache, the inode table, the minix file system
  and the system calls above them are not modelled yet. The messages that functions print are left
  out. What other tasks do while a function sleeps is not part of the function: the theorems are
  about its parts.
\<close>

end
